(* ===== verification/Prelude.thy ===== *)
theory Prelude
  imports Complex_Main "HOL-Library.Word" "HOL-Library.AList"
begin

text \<open>
  Shared vocabulary of the LwIPC development: names for the machine types the C++ code
  uses, the results of operations that can throw or block, the model of
  \<open>std::unordered_map\<close> as an association list with distinct keys, and the arithmetic of
  circular buffers that both the SPSC ring and the shared-memory channel rest on.
\<close>

section \<open>Machine types\<close>

type_synonym byte = "8 word"
type_synonym u16 = "16 word"
type_synonym u32 = "32 word"
type_synonym u64 = "64 word"

text \<open>\<open>std::size_t\<close> on the 64-bit targets the code is written for.\<close>

type_synonym size_t = "64 word"

text \<open>The characters of a text as bytes.\<close>

definition text_bytes :: "string \<Rightarrow> byte list" where
  "text_bytes s = map (\<lambda>c. of_nat (of_char c)) s"

lemma length_text_bytes [simp]: "length (text_bytes s) = length s"
  by (simp add: text_bytes_def)

text \<open>Widening keeps a value; a small \<open>nat\<close> survives the trip through a word.\<close>

lemma unat_ucast_up [simp]: "unat (ucast (i :: u32) :: u64) = unat i"
proof -
  have "unat i < 2 ^ LENGTH(32)" by (rule unsigned_less)
  then have "unat i < 2 ^ 64" by simp
  then show ?thesis by (simp add: unsigned_ucast_eq take_bit_nat_eq_self)
qed

lemma unat_of_nat_small: "n < 2 ^ LENGTH('a) \<Longrightarrow> unat (of_nat n :: 'a :: len word) = n"
  by (simp add: unsigned_of_nat take_bit_nat_eq_self)

lemma text_bytes_eq_iff [simp]: "text_bytes s = text_bytes t \<longleftrightarrow> s = t"
proof
  assume "text_bytes s = text_bytes t"
  then show "s = t"
  proof (induction s arbitrary: t)
    case (Cons c s)
    then obtain d u where t: "t = d # u" "text_bytes s = text_bytes u" "(of_nat (of_char c) :: byte) = of_nat (of_char d)"
      by (cases t) (auto simp: text_bytes_def)
    then have "unat (of_nat (of_char c) :: byte) = unat (of_nat (of_char d) :: byte)" by simp
    then have "(of_char c :: nat) = of_char d"
      by (simp add: unat_of_nat_small nat_of_char_less_256)
    with Cons.IH t show ?case by simp
  qed (simp add: text_bytes_def)
qed simp

lemma text_bytes_Nil_iff [simp]: "text_bytes s = [] \<longleftrightarrow> s = []"
  by (simp add: text_bytes_def)

lemma of_nat_word_inj:
  assumes "m < 2 ^ LENGTH('a)" "n < 2 ^ LENGTH('a)" "(of_nat m :: 'a :: len word) = of_nat n"
  shows "m = n"
  using assms by (metis unat_of_nat_small)

named_theorems model_inv \<open>operations preserve the invariant of their component\<close>
named_theorems model_abs \<open>operations commute with the abstraction of their component\<close>

text \<open>A 64-bit word below \<open>2 ^ 63\<close> reads the same signed and unsigned.\<close>

lemma sint_small: "unat (w :: u64) < 2 ^ 63 \<Longrightarrow> sint w = int (unat w)"
proof -
  assume "unat w < 2 ^ 63"
  then have "uint w < 2 ^ 63" by (metis of_nat_less_iff of_nat_numeral of_nat_power uint_nat)
  moreover have "- (2 ^ 63) \<le> uint w" by (rule order_trans [OF _ uint_ge_0]) simp
  ultimately have "signed_take_bit 63 (uint w) = uint w"
    by (intro signed_take_bit_int_eq_self)
  then show ?thesis by (simp add: sint_uint)
qed

lemma unat_plus1_small: "unat (w :: u64) < 2 ^ 63 \<Longrightarrow> unat (w + 1) = Suc (unat w)"
  by (simp add: unat_word_ariths)

lemma mod_near_eq:
  fixes n :: nat
  assumes "p \<le> q" "q < p + n" "p mod n = q mod n"
  shows "p = q"
proof -
  have "n dvd q - p" using mod_eq_dvd_iff_nat [OF assms(1), of n] assms(3) by simp
  moreover have "q - p < n" using assms(1,2) by simp
  ultimately have "q - p = 0" using dvd_imp_le by fastforce
  with assms(1) show ?thesis by simp
qed

lemma mod_window_inj:
  fixes n :: nat
  assumes "a \<le> p" "p < a + n" "a \<le> q" "q < a + n" "p mod n = q mod n"
  shows "p = q"
proof (cases "p \<le> q")
  case True
  from True assms(4,1) have "q < p + n" by simp
  from mod_near_eq [OF True this assms(5)] show ?thesis .
next
  case False
  then have "q \<le> p" "p < q + n" using assms(2,3) by simp_all
  from mod_near_eq [OF this assms(5) [symmetric]] show ?thesis by simp
qed

lemma mod_apart: "a < b \<Longrightarrow> b < a + n \<Longrightarrow> a mod n \<noteq> (b :: nat) mod n"
  using mod_window_inj [of a a n b] by auto

section \<open>Unordered maps\<close>

text \<open>
  A \<open>std::unordered_map\<close> is an association list without duplicate keys; the list order
  stands for the unspecified iteration order. Lookup is \<open>map_of\<close>, assignment through
  \<open>operator[]\<close> is \<open>AList.update\<close> and \<open>erase\<close> is \<open>AList.delete\<close>.
\<close>

type_synonym ('k, 'v) umap = "('k \<times> 'v) list"

abbreviation umap_ok :: "('k, 'v) umap \<Rightarrow> bool" where
  "umap_ok m \<equiv> distinct (map fst m)"

abbreviation um_find :: "('k, 'v) umap \<Rightarrow> 'k \<Rightarrow> 'v option" where
  "um_find m k \<equiv> map_of m k"

abbreviation um_put :: "'k \<Rightarrow> 'v \<Rightarrow> ('k, 'v) umap \<Rightarrow> ('k, 'v) umap" where
  "um_put k v m \<equiv> AList.update k v m"

abbreviation um_erase :: "'k \<Rightarrow> ('k, 'v) umap \<Rightarrow> ('k, 'v) umap" where
  "um_erase k m \<equiv> AList.delete k m"

lemma um_find_put [simp]: "um_find (um_put k v m) k' = (if k' = k then Some v else um_find m k')"
  by (simp add: update_conv')

lemma um_find_erase [simp]: "um_find (um_erase k m) k' = (if k' = k then None else um_find m k')"
  by (simp add: delete_conv')

lemma umap_ok_put [simp]: "umap_ok m \<Longrightarrow> umap_ok (um_put k v m)"
  by (rule distinct_update)

lemma umap_ok_erase [simp]: "umap_ok m \<Longrightarrow> umap_ok (um_erase k m)"
  by (rule distinct_delete)

lemma um_find_in_set: "umap_ok m \<Longrightarrow> um_find m k = Some v \<longleftrightarrow> (k, v) \<in> set m"
  by (rule map_of_eq_Some_iff)

lemma set_um_erase: "set (um_erase k m) = {p \<in> set m. fst p \<noteq> k}"
  by (auto simp: AList.delete_eq)

lemma set_um_put_subset: "set (um_put k v m) \<subseteq> insert (k, v) (set m)"
  by (induction m) auto

lemma set_um_put: "umap_ok m \<Longrightarrow> set (um_put k v m) = insert (k, v) {p \<in> set m. fst p \<noteq> k}"
  by (induction m) (auto simp: image_iff)

section \<open>Circular index arithmetic\<close>

text \<open>
  A ring of \<open>n\<close> slots with a read index \<open>t\<close> and a write index \<open>h\<close>, both below
  \<open>n\<close>. The occupied slots are \<open>t, t + 1, ..., h - 1\<close> modulo \<open>n\<close>; one slot always
  stays free, so that \<open>t = h\<close> means empty.
\<close>

definition ring_count :: "nat \<Rightarrow> nat \<Rightarrow> nat \<Rightarrow> nat" where
  "ring_count n t h = (h + n - t) mod n"

definition ring_view :: "nat \<Rightarrow> nat \<Rightarrow> nat \<Rightarrow> (nat \<Rightarrow> 'a) \<Rightarrow> 'a list" where
  "ring_view n t h get = map (\<lambda>k. get ((t + k) mod n)) [0..<ring_count n t h]"

lemma ring_count_alt:
  assumes "t < n" "h < n"
  shows "ring_count n t h = (if t \<le> h then h - t else h + n - t)"
proof (cases "t \<le> h")
  case True
  then have "h + n - t = (h - t) + n" by simp
  then have "(h + n - t) mod n = (h - t) mod n" by (simp only: mod_add_self2)
  with assms True show ?thesis by (simp add: ring_count_def)
next
  case False
  with assms show ?thesis by (simp add: ring_count_def)
qed

lemma ring_succ_alt: "h < n \<Longrightarrow> Suc h mod n = (if Suc h = n then 0 else Suc h)"
  by auto

lemma ring_succ_less [simp]: "h < n \<Longrightarrow> Suc h mod n < n"
  by simp

lemma ring_count_less: "0 < n \<Longrightarrow> ring_count n t h < n"
  by (simp add: ring_count_def)

lemma ring_count_zero: "t < n \<Longrightarrow> h < n \<Longrightarrow> ring_count n t h = 0 \<longleftrightarrow> t = h"
  by (auto simp: ring_count_alt)

lemma ring_full_iff:
  assumes "t < n" "h < n"
  shows "Suc h mod n = t \<longleftrightarrow> ring_count n t h = n - 1"
  using assms by (cases "Suc h = n") (auto simp: ring_count_alt ring_succ_alt)

lemma ring_count_push:
  assumes "t < n" "h < n" "Suc h mod n \<noteq> t"
  shows "ring_count n t (Suc h mod n) = Suc (ring_count n t h)"
  using assms by (cases "Suc h = n") (auto simp: ring_count_alt)

lemma ring_count_pop:
  assumes "t < n" "h < n" "t \<noteq> h"
  shows "ring_count n t h = Suc (ring_count n (Suc t mod n) h)"
  using assms by (cases "Suc t = n") (auto simp: ring_count_alt)

lemma ring_head_pos: "t < n \<Longrightarrow> h < n \<Longrightarrow> (t + ring_count n t h) mod n = h"
  by (auto simp: ring_count_alt)

lemma ring_slot_neq_head:
  assumes "t < n" "h < n" "k < ring_count n t h"
  shows "(t + k) mod n \<noteq> h"
proof (cases "t + k < n")
  case True
  with assms show ?thesis by (auto simp: ring_count_alt split: if_splits)
next
  case False
  with assms have "t + k - n < n" by (auto simp: ring_count_alt split: if_splits)
  with False have "(t + k) mod n = t + k - n" by (simp add: le_mod_geq)
  with False assms show ?thesis by (auto simp: ring_count_alt split: if_splits)
qed

lemma length_ring_view [simp]: "length (ring_view n t h get) = ring_count n t h"
  by (simp add: ring_view_def)

lemma ring_view_empty [simp]: "t < n \<Longrightarrow> ring_view n t t get = []"
  by (simp add: ring_view_def ring_count_alt)

lemma ring_view_Nil_iff: "t < n \<Longrightarrow> h < n \<Longrightarrow> ring_view n t h get = [] \<longleftrightarrow> t = h"
  by (simp add: ring_view_def ring_count_zero)

lemma ring_view_cong:
  assumes "\<And>k. k < ring_count n t h \<Longrightarrow> f ((t + k) mod n) = g ((t + k) mod n)"
  shows "ring_view n t h f = ring_view n t h g"
  using assms by (simp add: ring_view_def)

lemma ring_view_write_head [simp]:
  "t < n \<Longrightarrow> h < n \<Longrightarrow> ring_view n t h (get(h := v)) = ring_view n t h get"
  by (rule ring_view_cong) (simp add: ring_slot_neq_head)

lemma ring_view_push:
  assumes "t < n" "h < n" "Suc h mod n \<noteq> t"
  shows "ring_view n t (Suc h mod n) get = ring_view n t h get @ [get h]"
  using assms by (simp add: ring_view_def ring_count_push ring_head_pos)

lemma ring_view_pop:
  assumes "t < n" "h < n" "t \<noteq> h"
  shows "ring_view n t h get = get t # ring_view n (Suc t mod n) h get"
proof -
  let ?g = "\<lambda>k. get ((t + k) mod n)"
  have "ring_view n t h get = map ?g [0..<Suc (ring_count n (Suc t mod n) h)]"
    using ring_count_pop [OF assms] by (simp add: ring_view_def)
  also have "\<dots> = ?g 0 # map (?g \<circ> Suc) [0..<ring_count n (Suc t mod n) h]"
    by (simp add: upt_conv_Cons map_Suc_upt [symmetric] del: upt_Suc)
  also have "map (?g \<circ> Suc) [0..<ring_count n (Suc t mod n) h] = ring_view n (Suc t mod n) h get"
    by (simp add: ring_view_def mod_simps ac_simps)
  finally show ?thesis using assms by simp
qed

text \<open>A slot that has just left the occupied window can be overwritten without a visible effect.\<close>

lemma ring_view_write_tail [simp]:
  assumes "t < n" "h < n" "t \<noteq> h"
  shows "ring_view n (Suc t mod n) h (get(t := v)) = ring_view n (Suc t mod n) h get"
proof (rule ring_view_cong)
  fix k assume k: "k < ring_count n (Suc t mod n) h"
  then have "Suc k < n" using ring_count_pop [OF assms] ring_count_less [of n t h] assms by simp
  then have "(t + Suc k) mod n \<noteq> t" using assms(1) by (auto simp: mod_if)
  then have "(Suc t mod n + k) mod n \<noteq> t" by (simp add: mod_simps)
  then show "(get(t := v)) ((Suc t mod n + k) mod n) = get ((Suc t mod n + k) mod n)"
    by simp
qed

text \<open>Writing a list element, seen as changing the function that reads the list.\<close>

lemma ring_view_list_update:
  assumes "i < length xs" "0 < n" "n \<le> length xs"
  shows "ring_view n t h (nth (xs[i := x])) = ring_view n t h ((nth xs)(i := x))"
proof (rule ring_view_cong)
  fix k
  have "(t + k) mod n < length xs" using assms by (meson less_le_trans mod_less_divisor)
  with assms(1) show "xs[i := x] ! ((t + k) mod n) = ((nth xs)(i := x)) ((t + k) mod n)"
    by (simp add: nth_list_update)
qed

section \<open>Text streams\<close>

text \<open>
  \<open>std::getline\<close> with a delimiter: it fails on an exhausted stream, else it takes the
  characters before the delimiter and drops the delimiter. Text that ends without one still
  counts as a field.
\<close>

definition getline :: "char \<Rightarrow> string \<Rightarrow> (string \<times> string) option" where
  "getline d s = (if s = [] then None
     else Some (takeWhile (\<lambda>c. c \<noteq> d) s, drop 1 (dropWhile (\<lambda>c. c \<noteq> d) s)))"

lemma getline_shorter: "getline d s = Some (line, rest) \<Longrightarrow> length rest < length s"
  using length_dropWhile_le [of "\<lambda>c. c \<noteq> d" s]
  by (cases s) (auto simp: getline_def le_imp_less_Suc split: if_splits)

lemma getline_append: "d \<notin> set xs \<Longrightarrow> getline d (xs @ d # ys) = Some (xs, ys)"
  by (auto simp: getline_def takeWhile_append dropWhile_append)

text \<open>One step of a concrete run, whose result is first brought into the form of the next state.\<close>

lemma run_step: "r s u \<Longrightarrow> u = v \<Longrightarrow> r\<^sup>*\<^sup>* v t \<Longrightarrow> r\<^sup>*\<^sup>* s t"
  by (simp add: converse_rtranclp_into_rtranclp)

end
