(* ===== verification/Interfaces.thy ===== *)
theory Interfaces
  imports Prelude
begin

text \<open>
  The contracts between components, as locales. Each is proved of the code's own model by an
  interpretation in the theory of the component that provides it:
  \<^item> \<open>bounded_queue\<close>: the SPSC ring, the MPMC ring and the shared-memory channel;
  \<^item> \<open>bucket_registry\<close>: the broker's subscriptions and the service-discovery table;
  \<^item> \<open>prefix_codec\<close>: the length-prefixed fields of the bag file format;
  \<^item> \<open>safe_machine\<close>: the interleaved (multi-threaded) models;
  \<^item> \<open>fifo_machine\<close>: those of them that implement a first-in first-out channel;
  \<^item> \<open>bounded_machine\<close>: machines whose own steps come to an end.
\<close>

section \<open>Bounded FIFO queues\<close>

text \<open>
  \<open>ok n q\<close> says that \<open>q\<close> is well formed and that \<open>n\<close> further operations fit its
  counters; queues whose indices wrap inside the ring ignore \<open>n\<close>. \<open>fits q x\<close> says that the
  value is one the queue can hold at all.
\<close>

datatype 'a queue_op = Enq 'a | Deq

text \<open>Run a sequence of operations; collect what was accepted and what was delivered.\<close>

fun queue_run ::
  "('a \<Rightarrow> 'q \<Rightarrow> bool \<times> 'q) \<Rightarrow> ('q \<Rightarrow> 'a option \<times> 'q) \<Rightarrow> 'a queue_op list \<Rightarrow> 'q \<Rightarrow> 'a list \<times> 'a list \<times> 'q"
where
  "queue_run enq deq [] q = ([], [], q)"
| "queue_run enq deq (Enq x # ops) q =
     (let (b, q') = enq x q; (acc, del, r) = queue_run enq deq ops q'
      in (if b then x # acc else acc, del, r))"
| "queue_run enq deq (Deq # ops) q =
     (let (v, q') = deq q; (acc, del, r) = queue_run enq deq ops q'
      in (acc, (case v of None \<Rightarrow> del | Some y \<Rightarrow> y # del), r))"

locale bounded_queue =
  fixes enq :: "'a \<Rightarrow> 'q \<Rightarrow> bool \<times> 'q"
    and deq :: "'q \<Rightarrow> 'a option \<times> 'q"
    and items :: "'q \<Rightarrow> 'a list"
    and limit :: "'q \<Rightarrow> nat"
    and ok :: "nat \<Rightarrow> 'q \<Rightarrow> bool"
    and fits :: "'q \<Rightarrow> 'a \<Rightarrow> bool"
  assumes within: "ok n q \<Longrightarrow> length (items q) \<le> limit q"
    and enq_room: "ok (Suc n) q \<Longrightarrow> length (items q) < limit q \<Longrightarrow> fits q x \<Longrightarrow>
          fst (enq x q) \<and> items (snd (enq x q)) = items q @ [x]"
    and enq_full: "ok (Suc n) q \<Longrightarrow> length (items q) = limit q \<or> \<not> fits q x \<Longrightarrow>
          \<not> fst (enq x q) \<and> items (snd (enq x q)) = items q"
    and enq_ok: "ok (Suc n) q \<Longrightarrow> ok n (snd (enq x q)) \<and> limit (snd (enq x q)) = limit q"
    and deq_empty: "ok (Suc n) q \<Longrightarrow> items q = [] \<Longrightarrow>
          fst (deq q) = None \<and> items (snd (deq q)) = []"
    and deq_item: "ok (Suc n) q \<Longrightarrow> items q = y # ys \<Longrightarrow>
          fst (deq q) = Some y \<and> items (snd (deq q)) = ys"
    and deq_ok: "ok (Suc n) q \<Longrightarrow> ok n (snd (deq q)) \<and> limit (snd (deq q)) = limit q"
begin

text \<open>One operation, seen on the abstract list.\<close>

lemma enq_items:
  assumes "ok (Suc n) q"
  shows "items (snd (enq x q)) = (if fst (enq x q) then items q @ [x] else items q)"
proof (cases "length (items q) < limit q \<and> fits q x")
  case True
  with enq_room [OF assms] show ?thesis by simp
next
  case False
  with within [OF assms] have "length (items q) = limit q \<or> \<not> fits q x" by auto
  with enq_full [OF assms] show ?thesis by simp
qed

lemma enq_accepts_iff:
  assumes "ok (Suc n) q"
  shows "fst (enq x q) \<longleftrightarrow> length (items q) < limit q \<and> fits q x"
  using within [OF assms] enq_room [OF assms, of x] enq_full [OF assms, of x]
  by (cases "length (items q) < limit q"; cases "fits q x") auto

lemma deq_items:
  assumes "ok (Suc n) q"
  shows "items q = (case fst (deq q) of None \<Rightarrow> [] | Some y \<Rightarrow> [y]) @ items (snd (deq q))"
  using deq_empty [OF assms] deq_item [OF assms] by (cases "items q") auto

text \<open>
  First in, first out, nothing lost, duplicated or invented: over any sequence of operations
  the initial contents followed by the accepted values are the delivered values followed by
  the final contents.
\<close>

lemma run_fifo:
  assumes "ok (length ops + n) q" "queue_run enq deq ops q = (acc, del, r)"
  shows "items q @ acc = del @ items r \<and> ok n r \<and> limit r = limit q"
  using assms
proof (induction ops arbitrary: q acc del r)
  case Nil
  then show ?case by simp
next
  case (Cons op ops)
  from Cons.prems(1) have ok: "ok (Suc (length ops + n)) q" by simp
  show ?case
  proof (cases op)
    case (Enq x)
    obtain b q' where e: "enq x q = (b, q')" by fastforce
    obtain acc' del' r' where run: "queue_run enq deq ops q' = (acc', del', r')"
      using prod_cases3 by blast
    from enq_ok [OF ok, of x] e have "ok (length ops + n) q'" "limit q' = limit q" by auto
    from Cons.IH [OF this(1) run] this(2) Cons.prems(2) enq_items [OF ok, of x] e run Enq
    show ?thesis by (auto split: if_splits)
  next
    case Deq
    obtain v q' where d: "deq q = (v, q')" by fastforce
    obtain acc' del' r' where run: "queue_run enq deq ops q' = (acc', del', r')"
      using prod_cases3 by blast
    from deq_ok [OF ok] d have "ok (length ops + n) q'" "limit q' = limit q" by auto
    from Cons.IH [OF this(1) run] this(2) Cons.prems(2) deq_items [OF ok] d run Deq
    show ?thesis by (auto split: option.splits)
  qed
qed

end

section \<open>Keyed registries of entry lists\<close>

text \<open>
  A table from keys to non-empty lists of entries: \<open>add\<close> appends an entry under a key,
  \<open>remove\<close> erases every entry of a key that matches a criterion, and drops a key whose
  list becomes empty.
\<close>

locale bucket_registry =
  fixes add :: "'k \<Rightarrow> 'e \<Rightarrow> 's \<Rightarrow> 's"
    and remove :: "'k \<Rightarrow> 'r \<Rightarrow> 's \<Rightarrow> 's"
    and bucket :: "'s \<Rightarrow> 'k \<Rightarrow> 'e list"
    and matches :: "'r \<Rightarrow> 'e \<Rightarrow> bool"
    and ok :: "'s \<Rightarrow> bool"
  assumes bucket_add: "ok s \<Longrightarrow> bucket (add k e s) k' = (if k' = k then bucket s k @ [e] else bucket s k')"
    and bucket_remove: "ok s \<Longrightarrow>
          bucket (remove k c s) k' = (if k' = k then filter (\<lambda>e. \<not> matches c e) (bucket s k) else bucket s k')"
    and ok_add: "ok s \<Longrightarrow> ok (add k e s)"
    and ok_remove: "ok s \<Longrightarrow> ok (remove k c s)"
begin

lemma remove_add_undo:
  assumes "ok s" "matches c e" "\<forall>e' \<in> set (bucket s k). \<not> matches c e'"
  shows "bucket (remove k c (add k e s)) = bucket s"
proof
  fix k'
  from assms(3) have "filter (\<lambda>e. \<not> matches c e) (bucket s k) = bucket s k" by simp
  with assms(1,2) show "bucket (remove k c (add k e s)) k' = bucket s k'"
    by (simp add: bucket_add bucket_remove ok_add)
qed

lemma remove_no_match:
  "ok s \<Longrightarrow> e \<in> set (bucket (remove k c s) k) \<Longrightarrow> \<not> matches c e"
  by (simp add: bucket_remove)

lemma remove_idem: "ok s \<Longrightarrow> bucket (remove k c (remove k c s)) = bucket (remove k c s)"
  by (rule ext) (simp add: bucket_remove ok_remove)

end

section \<open>Prefix codecs\<close>

locale prefix_codec =
  fixes enc :: "'a \<Rightarrow> byte list"
    and dec :: "byte list \<Rightarrow> ('a \<times> byte list) option"
    and valid :: "'a \<Rightarrow> bool"
  assumes dec_enc: "valid x \<Longrightarrow> dec (enc x @ rest) = Some (x, rest)"
begin

lemma dec_enc_Nil: "valid x \<Longrightarrow> dec (enc x) = Some (x, [])"
  using dec_enc [of x "[]"] by simp

text \<open>No encoding is a proper prefix of another: a stream of fields parses in one way.\<close>

lemma enc_prefix_unique:
  assumes "valid x" "valid y" "enc x @ r = enc y @ r'"
  shows "x = y \<and> r = r'"
proof -
  have "Some (x, r) = Some (y, r')"
    by (metis assms(3) dec_enc [OF assms(1), of r] dec_enc [OF assms(2), of r'])
  then show ?thesis by simp
qed

end

section \<open>Interleaved machines\<close>

lemma rtranclp_refl_eq: "s = t \<Longrightarrow> r\<^sup>*\<^sup>* s t"
  by simp

locale safe_machine =
  fixes start :: "'s \<Rightarrow> bool"
    and step :: "'s \<Rightarrow> 's \<Rightarrow> bool"
    and inv :: "'s \<Rightarrow> bool"
  assumes inv_start: "start s \<Longrightarrow> inv s"
    and inv_step: "inv s \<Longrightarrow> step s t \<Longrightarrow> inv t"
begin

lemma reach_inv_from: "step\<^sup>*\<^sup>* s t \<Longrightarrow> inv s \<Longrightarrow> inv t"
  by (induction rule: rtranclp_induct) (auto intro: inv_step)

lemma reach_inv: "start s \<Longrightarrow> step\<^sup>*\<^sup>* s t \<Longrightarrow> inv t"
  by (blast intro: reach_inv_from inv_start)

end

text \<open>
  What two threads owe each other: a first-in first-out channel of \<open>n\<close> places, whose state is what
  has been accepted and what has been delivered.
\<close>

inductive fifo_step :: "nat \<Rightarrow> 'a list \<times> 'a list \<Rightarrow> 'a list \<times> 'a list \<Rightarrow> bool" for n where
  fifo_accept: "length sent < length got + n \<Longrightarrow> fifo_step n (sent, got) (sent @ [v], got)"
| fifo_deliver: "length got < length sent \<Longrightarrow> fifo_step n (sent, got) (sent, got @ [sent ! length got])"

locale fifo_machine = safe_machine start step inv
  for start :: "'s \<Rightarrow> bool" and step :: "'s \<Rightarrow> 's \<Rightarrow> bool" and inv :: "'s \<Rightarrow> bool" +
  fixes sent :: "'s \<Rightarrow> 'a list"
    and got :: "'s \<Rightarrow> 'a list"
    and places :: "'s \<Rightarrow> nat"
  assumes fresh: "start s \<Longrightarrow> sent s = [] \<and> got s = []"
    and pending: "inv s \<Longrightarrow> \<exists>rest. sent s = got s @ rest \<and> length rest \<le> places s"
    and places_step: "step s t \<Longrightarrow> places t = places s"
    and one_move: "step s t \<Longrightarrow> (sent t = sent s \<or> (\<exists>v. sent t = sent s @ [v]) \<and> got t = got s) \<and>
      (got t = got s \<or> (\<exists>v. got t = got s @ [v]) \<and> sent t = sent s)"
begin

text \<open>Each step is a step of the channel, or none.\<close>

lemma simulates:
  assumes "inv s" "step s t"
  shows "(sent t, got t) = (sent s, got s) \<or> fifo_step (places s) (sent s, got s) (sent t, got t)"
proof -
  obtain rest where t: "sent t = got t @ rest" "length rest \<le> places s"
    using pending [OF inv_step [OF assms]] places_step [OF assms(2)] by auto
  consider "sent t = sent s" "got t = got s" | v where "sent t = sent s @ [v]" "got t = got s"
    | v where "got t = got s @ [v]" "sent t = sent s"
    using one_move [OF assms(2)] by blast
  then show ?thesis
  proof cases
    case (2 v)
    then have "length (sent s) + 1 = length (got s) + length rest" using t(1) by (metis length_append length_append_singleton Suc_eq_plus1)
    with t(2) have "length (sent s) < length (got s) + places s" by simp
    with 2 show ?thesis by (simp add: fifo_accept)
  next
    case (3 v)
    then have s: "sent s = got s @ v # rest" using t(1) by simp
    then have "length (got s) < length (sent s)" "sent s ! length (got s) = v" unfolding s by simp_all
    with 3 fifo_deliver [of "got s" "sent s" "places s"] show ?thesis by simp
  qed simp
qed

lemma refines:
  assumes "start s" "step\<^sup>*\<^sup>* s t"
  shows "(fifo_step (places t))\<^sup>*\<^sup>* ([], []) (sent t, got t)"
  using assms(2)
proof (induction rule: rtranclp_induct)
  case base
  then show ?case using fresh [OF assms(1)] by simp
next
  case (step u v)
  from simulates [OF reach_inv [OF assms(1) step.hyps(1)] step.hyps(2)] step.IH places_step [OF step.hyps(2)]
  show ?case by (auto intro: rtranclp.rtrancl_into_rtrancl)
qed

end

text \<open>
  A machine whose own steps are bounded: every run is at most as long as the measure, and can be
  extended to one that ends.
\<close>

locale bounded_machine =
  fixes run :: "'s \<Rightarrow> 's \<Rightarrow> bool"
    and inv :: "'s \<Rightarrow> bool"
    and fuel :: "'s \<Rightarrow> nat"
  assumes run_inv: "inv s \<Longrightarrow> run s t \<Longrightarrow> inv t"
    and run_fuel: "inv s \<Longrightarrow> run s t \<Longrightarrow> fuel t < fuel s"
begin

lemma run_bound: "(run ^^ n) s t \<Longrightarrow> inv s \<Longrightarrow> n + fuel t \<le> fuel s \<and> inv t"
proof (induction n arbitrary: t)
  case 0
  then show ?case by simp
next
  case (Suc n)
  then obtain u where u: "(run ^^ n) s u" "run u t" by (auto elim: relpowp_Suc_E)
  with Suc.IH [OF u(1)] Suc.prems(2) run_fuel [of u t] run_inv [of u t] show ?case by fastforce
qed

lemma run_ends: "inv s \<Longrightarrow> \<exists>t. run\<^sup>*\<^sup>* s t \<and> inv t \<and> (\<nexists>u. run t u)"
proof (induction "fuel s" arbitrary: s rule: less_induct)
  case less
  show ?case
  proof (cases "\<exists>u. run s u")
    case True
    then obtain u where "run s u" by blast
    with less run_fuel [of s u] run_inv [of s u] show ?thesis
      by (meson converse_rtranclp_into_rtranclp)
  next
    case False
    with less.prems show ?thesis by blast
  qed
qed

end

end
