(* ===== verification/BagFormat.thy ===== *)
theory BagFormat
  imports Interfaces
begin

text \<open>
  The file format of \<open>include/lwipc/bag_recorder.hpp\<close> and \<open>src/bag_recorder.cpp\<close>: little-endian
  integers, length-prefixed byte strings, the 56-byte header, topic records and messages. Text
  is a list of bytes here. Writing is a function to bytes; reading is a function on what is left
  of an \<open>std::ifstream\<close>.
\<close>

type_synonym bytes = "byte list"

section \<open>Integers\<close>

fun le_bytes :: "nat \<Rightarrow> nat \<Rightarrow> bytes" where
  "le_bytes 0 n = []"
| "le_bytes (Suc k) n = of_nat n # le_bytes k (n div 256)"

fun le_value :: "bytes \<Rightarrow> nat" where
  "le_value [] = 0"
| "le_value (b # bs) = unat b + 256 * le_value bs"

lemma length_le_bytes [simp]: "length (le_bytes k n) = k"
  by (induction k arbitrary: n) simp_all

lemma le_value_bytes: "le_value (le_bytes k n) = n mod 256 ^ k"
proof (induction k arbitrary: n)
  case (Suc k)
  have "n mod 256 + 256 * (n div 256 mod 256 ^ k) = n mod (256 * 256 ^ k)"
    by (metis add.commute mod_mult2_eq)
  with Suc show ?case by (simp add: unsigned_of_nat take_bit_eq_mod)
qed simp

definition write_u32 :: "u32 \<Rightarrow> bytes" where
  "write_u32 w = le_bytes 4 (unat w)"

definition write_u64 :: "u64 \<Rightarrow> bytes" where
  "write_u64 w = le_bytes 8 (unat w)"

section \<open>Streams\<close>

text \<open>
  What is left of the file and whether the stream is good. \<open>read n\<close> on a stream that is not good
  extracts nothing; a short read takes what there is and the stream stops being good.
\<close>

type_synonym istream = "bytes \<times> bool"

definition read :: "nat \<Rightarrow> istream \<Rightarrow> bytes \<times> istream" where
  "read n s = (case s of (bs, good) \<Rightarrow>
     if \<not> good then ([], s) else if length bs < n then (bs, ([], False)) else (take n bs, (drop n bs, True)))"

text \<open>Reading an integer yields \<open>None\<close> when the variable keeps its uninitialised value.\<close>

definition read_u32 :: "istream \<Rightarrow> u32 option \<times> istream" where
  "read_u32 s = (let (bs, s') = read 4 s in (if snd s' then Some (of_nat (le_value bs)) else None, s'))"

definition read_u64 :: "istream \<Rightarrow> u64 option \<times> istream" where
  "read_u64 s = (let (bs, s') = read 8 s in (if snd s' then Some (of_nat (le_value bs)) else None, s'))"

lemma read_append: "length xs = n \<Longrightarrow> read n (xs @ rest, True) = (xs, (rest, True))"
  by (simp add: read_def)

lemma read_u32_write [simp]: "read_u32 (write_u32 w @ rest, True) = (Some w, (rest, True))"
proof -
  have "unat w < 2 ^ LENGTH(32)" by (rule unsigned_less)
  then show ?thesis
    by (simp add: read_u32_def write_u32_def read_append le_value_bytes)
qed

lemma read_u64_write [simp]: "read_u64 (write_u64 w @ rest, True) = (Some w, (rest, True))"
proof -
  have "unat w < 2 ^ LENGTH(64)" by (rule unsigned_less)
  then show ?thesis
    by (simp add: read_u64_def write_u64_def read_append le_value_bytes)
qed

text \<open>A reader that succeeds on a good stream, in the form of the codec interface.\<close>

definition reader :: "(istream \<Rightarrow> 'a option \<times> istream) \<Rightarrow> bytes \<Rightarrow> ('a \<times> bytes) option" where
  "reader r bs = (case r (bs, True) of (Some x, (rest, True)) \<Rightarrow> Some (x, rest) | _ \<Rightarrow> None)"

interpretation u32c: prefix_codec write_u32 "reader read_u32" "\<lambda>_. True"
  by unfold_locales (simp add: reader_def)

interpretation u64c: prefix_codec write_u64 "reader read_u64" "\<lambda>_. True"
  by unfold_locales (simp add: reader_def)

section \<open>Length-prefixed strings\<close>

text \<open>The length is cast to 32 bits and only that many bytes are written.\<close>

definition write_block :: "bytes \<Rightarrow> bytes" where
  "write_block s = (let n = of_nat (length s) :: u32 in write_u32 n @ take (unat n) s)"

text \<open>
  Reading fills a buffer of the announced length: what a short read does not deliver stays zero.
\<close>

definition read_block :: "istream \<Rightarrow> bytes option \<times> istream" where
  "read_block s =
     (case read_u32 s of
        (None, s1) \<Rightarrow> (None, s1)
      | (Some n, s1) \<Rightarrow> (let (bs, s2) = read (unat n) s1 in (Some (bs @ replicate (unat n - length bs) 0), s2)))"

definition short :: "bytes \<Rightarrow> bool" where
  "short s \<longleftrightarrow> length s < 2 ^ 32"

lemma write_block_short: "short s \<Longrightarrow> write_block s = write_u32 (of_nat (length s)) @ s"
  by (simp add: write_block_def short_def unat_of_nat_small Let_def)

lemma read_block_write [simp]: "short s \<Longrightarrow> read_block (write_block s @ rest, True) = (Some s, (rest, True))"
  by (simp add: write_block_short read_block_def short_def unat_of_nat_small read_append)

interpretation blk: prefix_codec write_block "reader read_block" short
  by unfold_locales (simp add: reader_def)

section \<open>Header, topics and messages\<close>

text \<open>\<open>bh_pad\<close> stands for the three bytes of padding between the magic and the version.\<close>

record bag_header =
  bh_magic :: bytes
  bh_pad :: bytes
  bh_version :: u32
  bh_start_time :: u64
  bh_end_time :: u64
  bh_message_count :: u32
  bh_topic_count :: u32
  bh_compression :: bytes

definition magic :: bytes where
  "magic = map (\<lambda>c. of_nat (of_char c)) ''LWIPC001'' @ [0]"

lemma length_magic [simp]: "length magic = 9"
  by (simp add: magic_def)

definition bag_header_new :: "bytes \<Rightarrow> bag_header" where
  "bag_header_new pad = \<lparr>bh_magic = magic, bh_pad = pad, bh_version = 1, bh_start_time = 0, bh_end_time = 0,
     bh_message_count = 0, bh_topic_count = 0, bh_compression = replicate 16 0\<rparr>"

definition write_header :: "bag_header \<Rightarrow> bytes" where
  "write_header h = bh_magic h @ bh_pad h @ write_u32 (bh_version h) @ write_u64 (bh_start_time h) @
     write_u64 (bh_end_time h) @ write_u32 (bh_message_count h) @ write_u32 (bh_topic_count h) @ bh_compression h"

definition header_ok :: "bag_header \<Rightarrow> bool" where
  "header_ok h \<longleftrightarrow> length (bh_magic h) = 9 \<and> length (bh_pad h) = 3 \<and> length (bh_compression h) = 16"

text \<open>The 56 bytes of a header, reinterpreted as its members.\<close>

definition parse_header :: "bytes \<Rightarrow> bag_header" where
  "parse_header bs =
     \<lparr>bh_magic = take 9 bs, bh_pad = take 3 (drop 9 bs), bh_version = of_nat (le_value (take 4 (drop 12 bs))),
      bh_start_time = of_nat (le_value (take 8 (drop 16 bs))), bh_end_time = of_nat (le_value (take 8 (drop 24 bs))),
      bh_message_count = of_nat (le_value (take 4 (drop 32 bs))),
      bh_topic_count = of_nat (le_value (take 4 (drop 36 bs))), bh_compression = take 16 (drop 40 bs)\<rparr>"

definition read_header :: "istream \<Rightarrow> bag_header option \<times> istream" where
  "read_header s = (let (bs, s') = read 56 s in (if snd s' then Some (parse_header bs) else None, s'))"

lemma length_write_u32 [simp]: "length (write_u32 w) = 4"
  by (simp add: write_u32_def)

lemma length_write_u64 [simp]: "length (write_u64 w) = 8"
  by (simp add: write_u64_def)

lemma length_write_header: "header_ok h \<Longrightarrow> length (write_header h) = 56"
  by (simp add: write_header_def header_ok_def)

lemma u32_trip [simp]: "of_nat (le_value (write_u32 w)) = w"
proof -
  have "unat w < 2 ^ LENGTH(32)" by (rule unsigned_less)
  then show ?thesis by (simp add: write_u32_def le_value_bytes)
qed

lemma u64_trip [simp]: "of_nat (le_value (write_u64 w)) = w"
proof -
  have "unat w < 2 ^ LENGTH(64)" by (rule unsigned_less)
  then show ?thesis by (simp add: write_u64_def le_value_bytes)
qed

lemma parse_write_header: "header_ok h \<Longrightarrow> parse_header (write_header h) = h"
  by (cases h) (simp add: parse_header_def write_header_def header_ok_def)

lemma read_header_write [simp]: "header_ok h \<Longrightarrow> read_header (write_header h @ rest, True) = (Some h, (rest, True))"
  by (simp add: read_header_def length_write_header read_append parse_write_header)

interpretation hdr: prefix_codec write_header "reader read_header" header_ok
  by unfold_locales (simp add: reader_def)

record bag_topic =
  bt_name :: bytes
  bt_type :: bytes
  bt_schema :: bytes
  bt_message_count :: u32

definition write_topic :: "bag_topic \<Rightarrow> bytes" where
  "write_topic t = write_block (bt_name t) @ write_block (bt_type t) @ write_block (bt_schema t)"

record bag_message =
  bm_timestamp :: u64
  bm_topic :: bytes
  bm_data :: bytes

lemma bag_message_eta [simp]: "\<lparr>bm_timestamp = bm_timestamp m, bm_topic = bm_topic m, bm_data = bm_data m\<rparr> = m"
  by (cases m) simp

definition write_message :: "bag_message \<Rightarrow> bytes" where
  "write_message m = write_u64 (bm_timestamp m) @ write_block (bm_topic m) @ write_block (bm_data m)"

definition message_ok :: "bag_message \<Rightarrow> bool" where
  "message_ok m \<longleftrightarrow> short (bm_topic m) \<and> short (bm_data m)"

text \<open>The player's read of one message: it stops at the first read that is not good.\<close>

definition read_message :: "istream \<Rightarrow> bag_message option \<times> istream" where
  "read_message s =
     (case read_u64 s of (None, s1) \<Rightarrow> (None, s1) | (Some ts, s1) \<Rightarrow>
      (case read_block s1 of (None, s2) \<Rightarrow> (None, s2) | (Some topic, s2) \<Rightarrow>
       if \<not> snd s2 then (None, s2) else
       (case read_block s2 of (None, s3) \<Rightarrow> (None, s3) | (Some data, s3) \<Rightarrow>
        if \<not> snd s3 then (None, s3)
        else (Some \<lparr>bm_timestamp = ts, bm_topic = topic, bm_data = data\<rparr>, s3))))"

lemma read_message_write [simp]:
  "message_ok m \<Longrightarrow> read_message (write_message m @ rest, True) = (Some m, (rest, True))"
  by (simp add: read_message_def write_message_def message_ok_def)

lemma read_message_end [simp]: "read_message ([], True) = (None, ([], False))"
  by (simp add: read_message_def read_u64_def read_def)

interpretation msg: prefix_codec write_message "reader read_message" message_ok
  by unfold_locales (simp add: reader_def)

lemma read_less: "read n s = (bs, s') \<Longrightarrow> length (fst s') \<le> length (fst s) \<and> (0 < n \<longrightarrow> snd s' \<longrightarrow> length (fst s') < length (fst s))"
  by (auto simp: read_def split: prod.splits if_splits)

lemma read_u64_less: "read_u64 s = (r, s') \<Longrightarrow>
    length (fst s') \<le> length (fst s) \<and> (r \<noteq> None \<longrightarrow> length (fst s') < length (fst s))"
  using read_less [of 8 s "fst (read 8 s)" "snd (read 8 s)"]
  by (auto simp: read_u64_def Let_def split: prod.splits if_splits)

lemma read_u32_le: "read_u32 s = (r, s') \<Longrightarrow> length (fst s') \<le> length (fst s)"
  using read_less [of 4 s "fst (read 4 s)" "snd (read 4 s)"]
  by (auto simp: read_u32_def Let_def split: prod.splits)

lemma read_block_le: "read_block s = (r, s') \<Longrightarrow> length (fst s') \<le> length (fst s)"
proof -
  assume a: "read_block s = (r, s')"
  obtain n s1 where n: "read_u32 s = (n, s1)" by (cases "read_u32 s")
  with a have "s' = s1 \<or> (\<exists>k. s' = snd (read k s1))"
    by (auto simp: read_block_def case_prod_beta Let_def split: option.splits)
  moreover have "length (fst (snd (read k s1))) \<le> length (fst s1)" for k
    by (simp add: read_def split: prod.split)
  ultimately have "length (fst s') \<le> length (fst s1)" by auto
  with read_u32_le [OF n] show ?thesis by simp
qed

lemma read_message_less: "read_message s = (Some m, s') \<Longrightarrow> length (fst s') < length (fst s)"
  by (auto simp: read_message_def split: option.splits prod.splits if_splits
      dest!: read_u64_less read_block_le)

end
