(* ===== verification/Message.thy ===== *)
theory Message
  imports Prelude
begin

text \<open>
  \<open>include/lwipc/message.hpp\<close>: the message header, the message view and the QoS profile that
  every other part passes around. The constants are the members' default initialisers.
\<close>

datatype reliability = BestEffort | Reliable

datatype durability = Volatile | TransientLocal

record qos_profile =
  qos_reliability :: reliability
  qos_durability :: durability
  qos_keep_last :: size_t

definition qos_default :: qos_profile where
  "qos_default = \<lparr>qos_reliability = BestEffort, qos_durability = Volatile, qos_keep_last = 1\<rparr>"

record message_header =
  mh_topic_id :: u32
  mh_sequence :: u64
  mh_timestamp_ns :: u64
  mh_payload_len :: u32
  mh_crc32 :: u32
  mh_flags :: u32
  mh_abi_version :: u16

definition header_default :: message_header where
  "header_default = \<lparr>mh_topic_id = 0, mh_sequence = 0, mh_timestamp_ns = 0, mh_payload_len = 0,
     mh_crc32 = 0, mh_flags = 0, mh_abi_version = 1\<rparr>"

text \<open>A view is a header and the bytes of the span it refers to.\<close>

record message_view =
  mv_header :: message_header
  mv_payload :: "byte list"

end
