(* ===== verification/BagRecorder.thy ===== *)
theory BagRecorder
  imports BagFormat Message
begin

text \<open>
  \<open>BagRecorder\<close> of \<open>include/lwipc/bag_recorder.hpp\<close> and \<open>src/bag_recorder.cpp\<close>. The output file is
  its contents; whether it can be opened and what the clock reads are arguments.
\<close>

section \<open>State and operations\<close>

record bag_config =
  gc_output_path :: bytes
  gc_max_file_size :: u64
  gc_max_duration :: u64
  gc_compression :: bytes
  gc_sync_topics :: bool

definition bag_config_default :: bag_config where
  "bag_config_default = \<lparr>gc_output_path = [], gc_max_file_size = 1024 * 1024 * 1024, gc_max_duration = 0,
     gc_compression = text_bytes ''none'', gc_sync_topics = True\<rparr>"

record recorder =
  rc_config :: bag_config
  rc_file :: bytes
  rc_header :: bag_header
  rc_topics :: "bag_topic list"
  rc_start_time :: u64
  rc_recording :: bool

definition recorder_new :: "bag_config \<Rightarrow> bytes \<Rightarrow> recorder" where
  "recorder_new config pad = \<lparr>rc_config = config, rc_file = [], rc_header = bag_header_new pad, rc_topics = [],
     rc_start_time = 0, rc_recording = False\<rparr>"

definition rc_configure :: "bag_config \<Rightarrow> recorder \<Rightarrow> bool \<times> recorder" where
  "rc_configure config r =
     (if rc_recording r then (False, r) else (gc_output_path config \<noteq> [], r\<lparr>rc_config := config\<rparr>))"

definition rc_add_topic :: "bytes \<Rightarrow> bytes \<Rightarrow> bytes \<Rightarrow> recorder \<Rightarrow> bool \<times> recorder" where
  "rc_add_topic name type schema r =
     (if \<exists>t \<in> set (rc_topics r). bt_name t = name then (False, r)
      else let ts = rc_topics r @ [\<lparr>bt_name = name, bt_type = type, bt_schema = schema, bt_message_count = 0\<rparr>]
           in (True, r\<lparr>rc_topics := ts, rc_header := (rc_header r)\<lparr>bh_topic_count := of_nat (length ts)\<rparr>\<rparr>))"

text \<open>\<open>strncpy\<close> of at most 15 characters into the 16 bytes, padded with zeros.\<close>

definition store_compression :: "bytes \<Rightarrow> bytes \<Rightarrow> bytes" where
  "store_compression s old = (let cs = take 15 (takeWhile (\<lambda>b. b \<noteq> 0) s)
     in cs @ replicate (15 - length cs) 0 @ drop 15 old)"

definition rc_start :: "bool \<Rightarrow> u64 \<Rightarrow> recorder \<Rightarrow> bool \<times> recorder" where
  "rc_start can_open now r =
     (if rc_recording r then (False, r)
      else if gc_output_path (rc_config r) = [] then (False, r)
      else if \<not> can_open then (False, r)
      else let comp = gc_compression (rc_config r);
               h0 = (rc_header r)\<lparr>bh_start_time := now, bh_end_time := 0, bh_message_count := 0,
                      bh_topic_count := of_nat (length (rc_topics r))\<rparr>;
               h = (if comp \<noteq> [] then h0\<lparr>bh_compression := store_compression comp (bh_compression h0)\<rparr> else h0)
           in (True, r\<lparr>rc_start_time := now, rc_header := h,
                 rc_file := write_header h @ concat (map write_topic (rc_topics r)), rc_recording := True\<rparr>))"

definition rc_stop :: "u64 \<Rightarrow> recorder \<Rightarrow> recorder" where
  "rc_stop now r = (if \<not> rc_recording r then r
     else let h = (rc_header r)\<lparr>bh_end_time := now\<rparr>
          in r\<lparr>rc_header := h, rc_file := write_header h @ drop 56 (rc_file r), rc_recording := False\<rparr>)"

definition rc_destroy :: "u64 \<Rightarrow> recorder \<Rightarrow> recorder" where
  "rc_destroy now r = rc_stop now r"

text \<open>The first topic of the name counts the message.\<close>

fun bump_topic :: "bytes \<Rightarrow> bag_topic list \<Rightarrow> bag_topic list" where
  "bump_topic name [] = []"
| "bump_topic name (t # ts) = (if bt_name t = name then t\<lparr>bt_message_count := bt_message_count t + 1\<rparr> # ts
     else t # bump_topic name ts)"

definition rc_record :: "bytes \<Rightarrow> u64 \<Rightarrow> bytes \<Rightarrow> recorder \<Rightarrow> bool \<times> recorder" where
  "rc_record topic ts data r = (if \<not> rc_recording r then (False, r)
     else (True, r\<lparr>rc_file := rc_file r @ write_message \<lparr>bm_timestamp = ts, bm_topic = topic, bm_data = data\<rparr>,
            rc_header := (rc_header r)\<lparr>bh_message_count := bh_message_count (rc_header r) + 1\<rparr>,
            rc_topics := bump_topic topic (rc_topics r)\<rparr>))"

definition rc_record_view :: "bytes \<Rightarrow> message_view \<Rightarrow> recorder \<Rightarrow> bool \<times> recorder" where
  "rc_record_view topic msg r =
     (if mv_payload msg = [] \<or> mh_timestamp_ns (mv_header msg) = 0 then (False, r)
      else rc_record topic (mh_timestamp_ns (mv_header msg)) (mv_payload msg) r)"

definition rc_message_count :: "recorder \<Rightarrow> u32" where
  "rc_message_count r = bh_message_count (rc_header r)"

text \<open>The duration in seconds, exactly: the program divides in floating point.\<close>

definition rc_duration :: "recorder \<Rightarrow> rat" where
  "rc_duration r = (let h = rc_header r in
     if bh_end_time h \<le> bh_start_time h then 0 else of_nat (unat (bh_end_time h - bh_start_time h)) / 10 ^ 9)"

section \<open>What a recording leaves in the file\<close>

definition recorder_ok :: "recorder \<Rightarrow> bool" where
  "recorder_ok r \<longleftrightarrow> header_ok (rc_header r) \<and> bh_magic (rc_header r) = magic"

lemma recorder_ok_new [simp]: "length pad = 3 \<Longrightarrow> recorder_ok (recorder_new config pad)"
  by (simp add: recorder_ok_def recorder_new_def header_ok_def bag_header_new_def magic_def)

lemma length_store_compression: "length old = 16 \<Longrightarrow> length (store_compression s old) = 16"
  by (simp add: store_compression_def Let_def)

lemma recorder_ok_start [model_inv]: "recorder_ok r \<Longrightarrow> recorder_ok (snd (rc_start b now r))"
  by (simp add: rc_start_def recorder_ok_def header_ok_def length_store_compression Let_def)

lemma recorder_ok_add_topic [model_inv]: "recorder_ok r \<Longrightarrow> recorder_ok (snd (rc_add_topic n t s r))"
  by (simp add: rc_add_topic_def recorder_ok_def header_ok_def Let_def)

lemma recorder_ok_record [model_inv]: "recorder_ok r \<Longrightarrow> recorder_ok (snd (rc_record t ts d r))"
  by (simp add: rc_record_def recorder_ok_def header_ok_def)

lemma recorder_ok_stop [model_inv]: "recorder_ok r \<Longrightarrow> recorder_ok (rc_stop now r)"
  by (simp add: rc_stop_def recorder_ok_def header_ok_def Let_def)

abbreviation record_all :: "bag_message list \<Rightarrow> recorder \<Rightarrow> recorder" where
  "record_all ms r \<equiv> fold (\<lambda>m r. snd (rc_record (bm_topic m) (bm_timestamp m) (bm_data m) r)) ms r"

lemma map_names_bump: "map bt_name (bump_topic n ts) = map bt_name ts"
  by (induction ts) simp_all

lemma record_all_file:
  assumes "rc_recording r"
  shows "rc_file (record_all ms r) = rc_file r @ concat (map write_message ms) \<and>
    rc_recording (record_all ms r) \<and>
    rc_header (record_all ms r) = (rc_header r)\<lparr>bh_message_count := bh_message_count (rc_header r) + of_nat (length ms)\<rparr> \<and>
    (recorder_ok r \<longrightarrow> recorder_ok (record_all ms r))"
  using assms
proof (induction ms arbitrary: r)
  case (Cons m ms)
  let ?r = "snd (rc_record (bm_topic m) (bm_timestamp m) (bm_data m) r)"
  have step: "rc_recording ?r" "rc_file ?r = rc_file r @ write_message m"
    "rc_header ?r = (rc_header r)\<lparr>bh_message_count := bh_message_count (rc_header r) + 1\<rparr>"
    using Cons.prems by (simp_all add: rc_record_def)
  from Cons.IH [OF step(1)] show ?case
    by (simp add: step recorder_ok_record add.assoc)
qed simp

lemma start_recording:
  "rc_start b now r = (True, r1) \<Longrightarrow> rc_recording r1 \<and> rc_topics r1 = rc_topics r \<and>
     rc_file r1 = write_header (rc_header r1) @ concat (map write_topic (rc_topics r)) \<and>
     bh_message_count (rc_header r1) = 0 \<and> bh_start_time (rc_header r1) = now \<and>
     bh_topic_count (rc_header r1) = of_nat (length (rc_topics r))"
  by (auto simp: rc_start_def Let_def split: if_splits)

lemma recording_file:
  fixes fin :: u64 and ms :: "bag_message list"
  assumes "recorder_ok r" "rc_start b now r = (True, r1)"
  defines "r2 \<equiv> rc_stop fin (record_all ms r1)"
  shows "rc_file r2 = write_header (rc_header r2) @ concat (map write_topic (rc_topics r)) @ concat (map write_message ms)"
    and "rc_header r2 = (rc_header r1)\<lparr>bh_message_count := of_nat (length ms), bh_end_time := fin\<rparr>"
    and "recorder_ok r2"
proof -
  note st = start_recording [OF assms(2)]
  have ok: "recorder_ok r1" using recorder_ok_start [OF assms(1), of b now] assms(2) by simp
  note run = record_all_file [of r1 ms, OF conjunct1 [OF st]]
  have "length (write_header (rc_header r1)) = 56"
    using ok by (simp add: recorder_ok_def length_write_header)
  with run st show "rc_file r2 = write_header (rc_header r2) @ concat (map write_topic (rc_topics r)) @ concat (map write_message ms)"
    by (simp add: r2_def rc_stop_def Let_def)
  show "rc_header r2 = (rc_header r1)\<lparr>bh_message_count := of_nat (length ms), bh_end_time := fin\<rparr>"
    using run st by (simp add: r2_def rc_stop_def Let_def)
  show "recorder_ok r2" using run ok by (simp add: r2_def recorder_ok_stop)
qed

end
