(* ===== verification/BagPlayer.thy ===== *)
theory BagPlayer
  imports BagRecorder
begin

text \<open>
  \<open>BagPlayer\<close> of \<open>include/lwipc/bag_recorder.hpp\<close> and \<open>src/bag_recorder.cpp\<close>, and the round trip
  from a recording through the file to the delivered messages.
\<close>

section \<open>Opening a file\<close>

record player =
  pl_file :: "istream option"
  pl_header :: bag_header
  pl_topics :: "bag_topic list"
  pl_loop :: bool
  pl_callback :: bool
  pl_playing :: bool
  pl_paused :: bool

definition player_new :: "bytes \<Rightarrow> player" where
  "player_new pad = \<lparr>pl_file = None, pl_header = bag_header_new pad, pl_topics = [], pl_loop = False,
     pl_callback = False, pl_playing = False, pl_paused = False\<rparr>"

definition bp_close :: "player \<Rightarrow> player" where
  "bp_close p = p\<lparr>pl_file := None, pl_topics := [], pl_playing := False, pl_paused := False\<rparr>"

definition bp_set_callback :: "bool \<Rightarrow> player \<Rightarrow> player" where
  "bp_set_callback callable p = p\<lparr>pl_callback := callable\<rparr>"

text \<open>
  The loop over the announced topics. The reads are not checked: after a failed read of a
  length, an uninitialised variable is used, which is \<open>None\<close>.
\<close>

definition read_topic :: "istream \<Rightarrow> bag_topic option \<times> istream" where
  "read_topic s =
     (case read_block s of (None, s1) \<Rightarrow> (None, s1) | (Some name, s1) \<Rightarrow>
      (case read_block s1 of (None, s2) \<Rightarrow> (None, s2) | (Some type, s2) \<Rightarrow>
       (case read_block s2 of (None, s3) \<Rightarrow> (None, s3) | (Some schema, s3) \<Rightarrow>
         (Some \<lparr>bt_name = name, bt_type = type, bt_schema = schema, bt_message_count = 0\<rparr>, s3))))"

fun read_topics :: "nat \<Rightarrow> istream \<Rightarrow> bag_topic list option \<times> istream" where
  "read_topics 0 s = (Some [], s)"
| "read_topics (Suc n) s =
     (case read_topic s of
        (None, s') \<Rightarrow> (None, s')
      | (Some t, s') \<Rightarrow> (case read_topics n s' of (ts, s'') \<Rightarrow> (map_option ((#) t) ts, s'')))"

text \<open>
  \<open>open\<close> from the line after the call of \<open>close\<close>; \<open>content\<close> is the file, if it can be opened.
  \<open>Inl\<close> is the use of an uninitialised length. A short read of the header overwrites the first
  bytes of \<open>header_\<close> only.
\<close>

definition bp_load :: "bytes option \<Rightarrow> player \<Rightarrow> (unit + bool) \<times> player" where
  "bp_load content p =
     (case content of
        None \<Rightarrow> (Inr False, p)
      | Some bs \<Rightarrow>
          (let (hb, s) = read 56 (bs, True);
               h = parse_header (hb @ drop (length hb) (write_header (pl_header p)));
               p1 = p\<lparr>pl_header := h\<rparr>
           in if \<not> snd s then (Inr False, p1)
              else if take 8 (bh_magic h) \<noteq> take 8 magic then (Inr False, p1)
              else case read_topics (unat (bh_topic_count h)) s of
                  (None, s') \<Rightarrow> (Inl (), p1\<lparr>pl_file := Some s'\<rparr>)
                | (Some ts, s') \<Rightarrow> (Inr True, p1\<lparr>pl_file := Some s', pl_topics := ts\<rparr>)))"

text \<open>
  \<open>open\<close> holds \<open>mutex_\<close> when it calls \<open>close\<close>, which locks the same \<open>std::mutex\<close>. The standard
  leaves that undefined: \<open>relock\<close> says whether the second lock goes through; if not, the call
  blocks for ever, which is \<open>None\<close>.
\<close>

definition bp_open :: "bool \<Rightarrow> bytes option \<Rightarrow> player \<Rightarrow> ((unit + bool) \<times> player) option" where
  "bp_open relock content p = (if relock then Some (bp_load content (bp_close p)) else None)"

section \<open>Playing\<close>

text \<open>
  Other threads change the flags while the player has released the lock: during the sleeps and
  during the callback. \<open>ctl\<close> is the list of what they do at the successive releases, and nothing
  once it is used up. \<open>waits k\<close> says whether the \<open>k\<close>-th message is early, so that the player
  sleeps before delivering it.
\<close>

datatype control = Stop | Pause | Resume

fun apply_control :: "control \<Rightarrow> bool \<times> bool \<Rightarrow> bool \<times> bool" where
  "apply_control Stop (playing, paused) = (False, paused)"
| "apply_control Pause (playing, paused) = (playing, True)"
| "apply_control Resume (playing, paused) = (playing, False)"

fun released_lock :: "control list list \<Rightarrow> bool \<times> bool \<Rightarrow> control list list \<times> (bool \<times> bool)" where
  "released_lock [] flags = ([], flags)"
| "released_lock (c # cs) flags = (cs, fold apply_control c flags)"

lemma released_lock_le: "released_lock ctl flags = (ctl', flags') \<Longrightarrow> length ctl' \<le> length ctl"
  by (cases ctl) auto

text \<open>
  The loop of \<open>play\<close>: the messages handed to the callback, whether it has thrown at the last of
  them, the flags \<open>playing_\<close> and \<open>paused_\<close> and the stream. \<open>throws k\<close> says whether the callback throws
  at the \<open>k\<close>-th message. \<open>None\<close> is a player that stays paused for ever.
\<close>

function play_loop ::
  "(nat \<Rightarrow> bool) \<Rightarrow> (nat \<Rightarrow> bool) \<Rightarrow> nat \<Rightarrow> control list list \<Rightarrow> bool \<times> bool \<Rightarrow> istream \<Rightarrow>
     (bag_message list \<times> bool \<times> (bool \<times> bool) \<times> istream) option"
where
  "play_loop waits throws k ctl flags s =
     (if \<not> (fst flags \<and> snd s) then Some ([], False, flags, s)
      else if snd flags then
        (case ctl of [] \<Rightarrow> None | c # ctl' \<Rightarrow> play_loop waits throws k ctl' (fold apply_control c flags) s)
      else case read_message s of
          (None, s') \<Rightarrow> Some ([], False, flags, s')
        | (Some m, s') \<Rightarrow>
            (let (ctl1, flags1) = (if waits k then released_lock ctl flags else (ctl, flags)) in
             if waits k \<and> \<not> fst flags1 then Some ([], False, flags1, s')
             else if waits k \<and> snd flags1 then play_loop waits throws (k + 1) ctl1 flags1 s'
             else let (ctl2, flags2) = released_lock ctl1 flags1 in
               if throws k then Some ([m], True, flags2, s')
               else map_option (\<lambda>(ms, r). (m # ms, r)) (play_loop waits throws (k + 1) ctl2 flags2 s')))"
  by pat_completeness auto

termination
  by (relation "measure (\<lambda>(_, _, _, ctl, _, s). length ctl + length (fst s))")
    (auto split: if_splits dest!: read_message_less [OF sym] released_lock_le [OF sym])

declare play_loop.simps [simp del]

text \<open>
  \<open>play\<close>. After the loop \<open>playing_\<close> is cleared before the option to loop is tested together with
  it, so the test is never true. An exception of the callback leaves \<open>play\<close>, which is \<open>Inl\<close>, with
  \<open>playing_\<close> as it is.
\<close>

definition bp_play ::
  "(nat \<Rightarrow> bool) \<Rightarrow> (nat \<Rightarrow> bool) \<Rightarrow> control list list \<Rightarrow> player \<Rightarrow> ((unit + bool) \<times> bag_message list \<times> player) option"
where
  "bp_play waits throws ctl p =
     (case pl_file p of
        None \<Rightarrow> Some (Inr False, [], p)
      | Some s \<Rightarrow>
          if \<not> pl_callback p then Some (Inr False, [], p)
          else map_option (\<lambda>(ms, threw, (playing, paused), s').
              let p' = p\<lparr>pl_file := Some s', pl_playing := playing, pl_paused := paused\<rparr>
              in if threw then (Inl (), ms, p') else (Inr True, ms, p'\<lparr>pl_playing := False\<rparr>))
            (play_loop waits throws 0 ctl (True, False) s))"

definition bp_is_playing :: "player \<Rightarrow> bool" where
  "bp_is_playing p \<longleftrightarrow> pl_playing p \<and> \<not> pl_paused p"

definition bp_is_paused :: "player \<Rightarrow> bool" where
  "bp_is_paused p \<longleftrightarrow> pl_paused p"

text \<open>The three calls of a controlling thread, and \<open>getProgress\<close> of a file of \<open>len\<close> bytes.\<close>

definition bp_stop :: "player \<Rightarrow> player" where
  "bp_stop p = p\<lparr>pl_playing := False\<rparr>"

definition bp_destroy :: "player \<Rightarrow> player" where
  "bp_destroy p = bp_close (bp_stop p)"

definition bp_pause :: "player \<Rightarrow> player" where
  "bp_pause p = p\<lparr>pl_paused := True\<rparr>"

definition bp_resume :: "player \<Rightarrow> player" where
  "bp_resume p = p\<lparr>pl_paused := False\<rparr>"

definition bp_control :: "control \<Rightarrow> player \<Rightarrow> player" where
  "bp_control c = (case c of Stop \<Rightarrow> bp_stop | Pause \<Rightarrow> bp_pause | Resume \<Rightarrow> bp_resume)"

text \<open>What \<open>play\<close> applies to its two flags is what these calls do to the object.\<close>

lemma apply_control_flags:
  "apply_control c (pl_playing p, pl_paused p) = (pl_playing (bp_control c p), pl_paused (bp_control c p))"
  by (cases c) (simp_all add: bp_control_def bp_stop_def bp_pause_def bp_resume_def)

text \<open>On a failed stream \<open>tellg\<close> gives \<open>-1\<close>, also for the end.\<close>

definition bp_progress :: "nat \<Rightarrow> player \<Rightarrow> rat" where
  "bp_progress len p =
     (case pl_file p of
        None \<Rightarrow> 0
      | Some (rest, good) \<Rightarrow>
          if bh_message_count (pl_header p) = 0 then 0
          else if \<not> good \<or> len = 0 then 0
          else of_nat (len - length rest) / of_nat len)"

section \<open>Round trip\<close>

definition topic_ok :: "bag_topic \<Rightarrow> bool" where
  "topic_ok t \<longleftrightarrow> short (bt_name t) \<and> short (bt_type t) \<and> short (bt_schema t)"

lemma read_topic_write:
  "topic_ok t \<Longrightarrow> read_topic (write_topic t @ rest, True) = (Some (t\<lparr>bt_message_count := 0\<rparr>), (rest, True))"
  by (simp add: read_topic_def write_topic_def topic_ok_def)

lemma read_topics_write:
  "\<forall>t \<in> set ts. topic_ok t \<Longrightarrow> read_topics (length ts) (concat (map write_topic ts) @ rest, True)
     = (Some (map (\<lambda>t. t\<lparr>bt_message_count := 0\<rparr>) ts), (rest, True))"
  by (induction ts) (simp_all add: read_topic_write)

text \<open>
  Without interference the loop delivers every message of a well-formed rest of the file, up to
  the first at which the callback throws.
\<close>

lemma play_loop_delivers:
  assumes "\<forall>m \<in> set ms. message_ok m" "\<forall>j < length ms. \<not> throws (k + j)"
  shows "play_loop waits throws k [] (True, False) (concat (map write_message ms) @ rest, True) =
    map_option (\<lambda>r. (ms @ fst r, snd r)) (play_loop waits throws (k + length ms) [] (True, False) (rest, True))"
  using assms
proof (induction ms arbitrary: k)
  case Nil
  then show ?case by (simp add: option.map_ident_strong)
next
  case (Cons m ms)
  have "\<not> throws k" using Cons.prems(2) by fastforce
  moreover have "\<forall>j < length ms. \<not> throws (Suc k + j)" using Cons.prems(2) by fastforce
  ultimately show ?case using Cons.IH [of "Suc k"] Cons.prems(1)
    by (subst play_loop.simps) (simp add: option.map_comp comp_def case_prod_beta)
qed

lemma play_loop_all:
  assumes "\<forall>m \<in> set ms. message_ok m"
  shows "play_loop waits (\<lambda>_. False) k [] (True, False) (concat (map write_message ms), True) =
    Some (ms, False, (True, False), ([], False))"
  using play_loop_delivers [OF assms, of "\<lambda>_. False" k waits "[]"]
  by (simp add: play_loop.simps [of _ _ "k + length ms"])

lemma bp_load_recorded:
  assumes "header_ok h" "bh_magic h = magic" "unat (bh_topic_count h) = length ts" "\<forall>t \<in> set ts. topic_ok t"
  shows "bp_load (Some (write_header h @ concat (map write_topic ts) @ rest)) p =
    (Inr True, p\<lparr>pl_header := h, pl_file := Some (rest, True), pl_topics := map (\<lambda>t. t\<lparr>bt_message_count := 0\<rparr>) ts\<rparr>)"
proof -
  let ?body = "concat (map write_topic ts) @ rest"
  have "read 56 (write_header h @ ?body, True) = (write_header h, (?body, True))"
    by (rule read_append) (rule length_write_header [OF assms(1)])
  moreover have "parse_header (write_header h @ xs) = h" for xs
  proof -
    have "parse_header (write_header h @ xs) = parse_header (write_header h)"
      using length_write_header [OF assms(1)] by (simp add: parse_header_def)
    then show ?thesis by (simp add: parse_write_header [OF assms(1)])
  qed
  ultimately show ?thesis
    using read_topics_write [OF assms(4), of rest] by (simp add: bp_load_def assms(2,3))
qed


text \<open>A session with one topic and two messages.\<close>

definition bag_demo :: recorder where
  "bag_demo = snd (rc_add_topic [97] [98] [] (recorder_new
     \<lparr>gc_output_path = [47], gc_max_file_size = 0, gc_max_duration = 0, gc_compression = [], gc_sync_topics = True\<rparr>
     [0, 0, 0]))"

definition bag_demo_messages :: "bag_message list" where
  "bag_demo_messages = [\<lparr>bm_timestamp = 5, bm_topic = [97], bm_data = [1, 2, 3]\<rparr>,
     \<lparr>bm_timestamp = 9, bm_topic = [97], bm_data = []\<rparr>]"


section \<open>Where the player loses\<close>

text \<open>
  A callback that throws ends \<open>play\<close>, and the message it was given is not delivered again: the next
  \<open>play\<close> goes on behind it. In between \<open>isPlaying\<close> says that the player is still playing.
\<close>

theorem play_callback_throws:
  assumes "\<forall>m' \<in> set (ms @ m # later). message_ok m'" "pl_callback p"
    and "pl_file p = Some (concat (map write_message (ms @ m # later)), True)"
    and "throws (length ms)" "\<forall>j < length ms. \<not> throws j"
  shows "\<exists>p1 p2. bp_play waits throws [] p = Some (Inl (), ms @ [m], p1) \<and> bp_is_playing p1 \<and>
    bp_play waits (\<lambda>_. False) [] p1 = Some (Inr True, later, p2) \<and> \<not> bp_is_playing p2"
proof -
  have "play_loop waits throws (length ms) [] (True, False) (concat (map write_message (m # later)), True) =
      Some ([m], True, (True, False), (concat (map write_message later), True))"
    using assms(1,4) by (subst play_loop.simps) simp
  then have "play_loop waits throws 0 [] (True, False) (concat (map write_message (ms @ m # later)), True) =
      Some (ms @ [m], True, (True, False), (concat (map write_message later), True))"
    using play_loop_delivers [of ms throws 0 waits "concat (map write_message (m # later))"] assms(1,5) by simp
  then have "bp_play waits throws [] p = Some (Inl (), ms @ [m],
      p\<lparr>pl_file := Some (concat (map write_message later), True), pl_playing := True, pl_paused := False\<rparr>)"
    using assms(2,3) by (simp add: bp_play_def)
  with play_loop_all [of later waits 0] assms(1,2) show ?thesis
    by (simp add: bp_play_def bp_is_playing_def)
qed

theorem play_callback_throws_witness:
  "\<exists>p1 p2. bp_play (\<lambda>_. False) (\<lambda>k. k = 0) [] ((player_new [0, 0, 0])\<lparr>pl_callback := True,
       pl_file := Some (concat (map write_message bag_demo_messages), True)\<rparr>) = Some (Inl (), [hd bag_demo_messages], p1) \<and>
     bp_is_playing p1 \<and> bp_play (\<lambda>_. False) (\<lambda>_. False) [] p1 = Some (Inr True, tl bag_demo_messages, p2)"
  using play_callback_throws [of "[]" "hd bag_demo_messages" "tl bag_demo_messages"
      "(player_new [0, 0, 0])\<lparr>pl_callback := True, pl_file := Some (concat (map write_message bag_demo_messages), True)\<rparr>"
      "\<lambda>k. k = 0" "\<lambda>_. False"]
  by (auto simp: bag_demo_messages_def message_ok_def short_def)

text \<open>
  Opening never returns where a mutex cannot be locked twice by one thread: \<open>open\<close> calls
  \<open>close\<close> with the lock held.
\<close>

theorem bag_open_self_deadlock: "bp_open False content p = None"
  by (simp add: bp_open_def)

text \<open>
  Pausing during the wait for an early message loses the message: the player has already
  taken it from the file, and after the pause it goes on with the next one.
\<close>

theorem play_pause_drops:
  assumes "message_ok m" "\<forall>m' \<in> set ms. message_ok m'" "waits k"
  shows "play_loop waits (\<lambda>_. False) k [[Pause], [Resume]] (True, False) (concat (map write_message (m # ms)), True)
    = Some (ms, False, (True, False), ([], False))"
proof -
  have "play_loop waits (\<lambda>_. False) k [[Pause], [Resume]] (True, False) (concat (map write_message (m # ms)), True)
      = play_loop waits (\<lambda>_. False) (k + 1) [[Resume]] (True, True) (concat (map write_message ms), True)"
    using assms(1,3) by (subst play_loop.simps) simp
  also have "\<dots> = play_loop waits (\<lambda>_. False) (k + 1) [] (True, False) (concat (map write_message ms), True)"
    by (subst play_loop.simps) simp
  also have "\<dots> = Some (ms, False, (True, False), ([], False))" by (rule play_loop_all [OF assms(2)])
  finally show ?thesis .
qed

theorem play_pause_drops_witness:
  "play_loop (\<lambda>_. True) (\<lambda>_. False) 0 [[Pause], [Resume]] (True, False) (concat (map write_message bag_demo_messages), True)
     = Some (tl bag_demo_messages, False, (True, False), ([], False))"
  using play_pause_drops [of "hd bag_demo_messages" "tl bag_demo_messages" "\<lambda>_. True" 0]
  by (simp add: bag_demo_messages_def message_ok_def short_def)

text \<open>
  A topic added while recording spoils the file: \<open>stop\<close> rewrites the header with the larger
  topic count, but the topic table on disk was written by \<open>start\<close>, so the player takes the first
  bytes of the messages for a topic. Here it finds a topic the recorder never had and no message.
\<close>

definition late_topic_recording :: recorder where
  "late_topic_recording = (let r1 = snd (rc_start True 10 (recorder_new
       \<lparr>gc_output_path = [47], gc_max_file_size = 0, gc_max_duration = 0, gc_compression = [], gc_sync_topics = True\<rparr>
       [0, 0, 0]));
     r2 = snd (rc_add_topic [97] [98] [] r1)
     in rc_stop 20 (snd (rc_record [97] 0 [] r2)))"

lemma late_topic_file:
  "rc_file late_topic_recording = write_header (rc_header late_topic_recording) @
     write_message \<lparr>bm_timestamp = 0, bm_topic = [97], bm_data = []\<rparr>"
  "header_ok (rc_header late_topic_recording)" "bh_magic (rc_header late_topic_recording) = magic"
  "bh_topic_count (rc_header late_topic_recording) = 1" "bh_message_count (rc_header late_topic_recording) = 1"
  "map bt_name (rc_topics late_topic_recording) = [[97]]"
  by (simp_all add: late_topic_recording_def rc_start_def rc_add_topic_def rc_record_def rc_stop_def
      recorder_new_def bag_header_new_def length_write_header header_ok_def Let_def)

lemma le_bytes_small:
  "le_bytes 4 0 = [0, 0, 0, 0]" "le_bytes 4 1 = [1, 0, 0, 0]" "le_bytes 8 0 = [0, 0, 0, 0, 0, 0, 0, 0]"
  by code_simp+

lemma small_lengths:
  "write_u32 0 = [0, 0, 0, 0]" "write_u32 1 = [1, 0, 0, 0]" "write_u64 0 = [0, 0, 0, 0, 0, 0, 0, 0]"
  by (simp_all only: write_u32_def write_u64_def unsigned_0 unsigned_1 le_bytes_small)

text \<open>The bytes of that message, read as a topic record followed by four zeros.\<close>

lemma message_as_topic:
  "write_message \<lparr>bm_timestamp = 0, bm_topic = [97], bm_data = []\<rparr> =
     concat (map write_topic [\<lparr>bt_name = [], bt_type = [], bt_schema = [97], bt_message_count = 0\<rparr>]) @ [0, 0, 0, 0]"
  by (simp add: write_message_def write_topic_def write_block_def small_lengths)

theorem late_topic_corrupts:
  "\<exists>p'. bp_open True (Some (rc_file late_topic_recording)) p = Some (Inr True, p') \<and>
     bh_message_count (pl_header p') = 1 \<and>
     map bt_name (pl_topics p') \<noteq> map bt_name (rc_topics late_topic_recording) \<and>
     (pl_callback p \<longrightarrow> (\<exists>p''. bp_play waits throws [] p' = Some (Inr True, [], p'')))"
proof -
  let ?h = "rc_header late_topic_recording"
  let ?t = "\<lparr>bt_name = [], bt_type = [], bt_schema = [97], bt_message_count = 0\<rparr>"
  have load: "bp_load (Some (rc_file late_topic_recording)) q = (Inr True, q\<lparr>pl_header := ?h,
      pl_file := Some ([0, 0, 0, 0], True), pl_topics := [?t]\<rparr>)" for q
    using bp_load_recorded [of ?h "[?t]" "[0, 0, 0, 0]" q] late_topic_file(2-4)
    unfolding late_topic_file(1) message_as_topic by (simp add: topic_ok_def short_def)
  have "play_loop waits throws 0 [] (True, False) ([0, 0, 0, 0], True) = Some ([], False, (True, False), ([], False))"
    by (subst play_loop.simps) (simp add: read_message_def read_u64_def read_def)
  then show ?thesis
    by (intro exI [of _ "snd (bp_load (Some (rc_file late_topic_recording)) (bp_close p))"])
      (simp add: bp_open_def load late_topic_file(5,6) bp_play_def bp_close_def)
qed

text \<open>
  \<open>getProgress\<close> says nothing once a playback has ended by itself: the loop leaves the stream
  failed, and the answer is 0 instead of 1.
\<close>

lemma read_bad: "\<not> snd s \<Longrightarrow> \<not> snd (snd (read n s))"
  by (cases s) (simp add: read_def)

lemma read_u64_bad: "read_u64 s = (None, s') \<Longrightarrow> \<not> snd s'"
  by (auto simp: read_u64_def Let_def split: prod.splits if_splits)

lemma read_u32_bad: "read_u32 s = (None, s') \<Longrightarrow> \<not> snd s'"
  by (auto simp: read_u32_def Let_def split: prod.splits if_splits)

lemma read_block_bad: "read_block s = (None, s') \<Longrightarrow> \<not> snd s'"
  by (auto simp: read_block_def Let_def split: prod.splits option.splits dest: read_u32_bad)

lemma read_message_bad: "read_message s = (None, s') \<Longrightarrow> \<not> snd s'"
  by (auto simp: read_message_def split: option.splits prod.splits if_splits dest: read_u64_bad read_block_bad)

lemma play_loop_ends_bad:
  "play_loop waits throws k [] (True, False) s = Some (ms, False, pz, s') \<Longrightarrow> \<not> snd s'"
proof (induction "length (fst s)" arbitrary: s k ms rule: less_induct)
  case less
  show ?case
  proof (cases "snd s")
    case False
    with less.prems show ?thesis by (subst (asm) play_loop.simps) auto
  next
    case True
    obtain r s1 where r: "read_message s = (r, s1)" by (cases "read_message s")
    show ?thesis
    proof (cases r)
      case None
      with less.prems True r show ?thesis by (subst (asm) play_loop.simps) (auto dest: read_message_bad)
    next
      case (Some m)
      with less.prems True r obtain ms' where "play_loop waits throws (k + 1) [] (True, False) s1 = Some (ms', False, pz, s')"
        by (subst (asm) play_loop.simps) (auto split: if_splits)
      with less.hyps [of s1] read_message_less r Some show ?thesis by blast
    qed
  qed
qed

theorem play_stops_progress:
  assumes "bp_play waits throws [] p = Some (Inr True, ms, p')"
  shows "bp_progress len p' = 0"
  using assms
  by (auto simp: bp_play_def bp_progress_def Let_def split: option.splits if_splits dest!: play_loop_ends_bad)

theorem play_stops_progress_witness:
  "bp_progress 64 ((player_new [0, 0, 0])\<lparr>pl_callback := True, pl_file := Some ([], False)\<rparr>) = 0"
  by (rule play_stops_progress [of "\<lambda>_. True" "\<lambda>_. False" "(player_new [0, 0, 0])\<lparr>pl_callback := True, pl_file := Some ([], True)\<rparr>" "[]"])
    (simp add: bp_play_def player_new_def play_loop.simps)

end
