(* ===== verification/Broker.thy ===== *)
theory Broker
  imports Interfaces Message
begin

text \<open>
  \<open>include/lwipc/broker.hpp\<close>, \<open>src/broker.cpp\<close> and \<open>include/lwipc/core.hpp\<close>: the in-process
  publish/subscribe broker, the RAII publisher and subscriber handles, and the \<open>Channel\<close> and
  \<open>Node\<close> facade. A stored callback is an opaque value \<open>'cb\<close>; what calling it does is the
  argument \<open>call\<close> of \<open>br_publish\<close>. It may throw, and because the lock is no longer held it
  may subscribe and unsubscribe, so it maps the broker and the rest of the world to new ones.
\<close>

section \<open>State and operations\<close>

record 'cb subscription =
  sub_id :: u64
  sub_callback :: 'cb

record 'cb broker =
  br_subscriptions :: "(string, 'cb subscription list) umap"
  br_next_id :: u64

definition broker_new :: "'cb broker" where
  "broker_new = \<lparr>br_subscriptions = [], br_next_id = 1\<rparr>"

text \<open>\<open>subscriptions_[topic]\<close> creates an empty vector for a new topic.\<close>

definition br_bucket :: "'cb broker \<Rightarrow> string \<Rightarrow> 'cb subscription list" where
  "br_bucket b topic = (case um_find (br_subscriptions b) topic of None \<Rightarrow> [] | Some subs \<Rightarrow> subs)"

definition br_push :: "string \<Rightarrow> 'cb subscription \<Rightarrow> 'cb broker \<Rightarrow> 'cb broker" where
  "br_push topic s b = b\<lparr>br_subscriptions := um_put topic (br_bucket b topic @ [s]) (br_subscriptions b)\<rparr>"

definition br_subscribe :: "string \<Rightarrow> 'cb \<Rightarrow> 'cb broker \<Rightarrow> u64 \<times> 'cb broker" where
  "br_subscribe topic cb b =
     (let i = br_next_id b
      in (i, br_push topic \<lparr>sub_id = i, sub_callback = cb\<rparr> (b\<lparr>br_next_id := i + 1\<rparr>)))"

definition br_unsubscribe :: "string \<Rightarrow> u64 \<Rightarrow> 'cb broker \<Rightarrow> 'cb broker" where
  "br_unsubscribe topic i b =
     (case um_find (br_subscriptions b) topic of
        None \<Rightarrow> b
      | Some subs \<Rightarrow>
          (let rest = filter (\<lambda>s. \<not> sub_id s = i) subs
           in b\<lparr>br_subscriptions := if rest = [] then um_erase topic (br_subscriptions b)
                                    else um_put topic rest (br_subscriptions b)\<rparr>))"

text \<open>The loop over the snapshot; an exception leaves it and skips the remaining callbacks.\<close>

fun br_run :: "('cb \<Rightarrow> message_view \<Rightarrow> 's \<Rightarrow> 'e option \<times> 's) \<Rightarrow> 'cb list \<Rightarrow> message_view \<Rightarrow> 's \<Rightarrow> 'e option \<times> 's"
where
  "br_run call [] m s = (None, s)"
| "br_run call (cb # cbs) m s =
     (case call cb m s of
        (Some e, s') \<Rightarrow> (Some e, s')
      | (None, s') \<Rightarrow> br_run call cbs m s')"

definition br_publish ::
  "('cb \<Rightarrow> message_view \<Rightarrow> 'cb broker \<times> 'w \<Rightarrow> 'e option \<times> ('cb broker \<times> 'w)) \<Rightarrow> string \<Rightarrow> message_view \<Rightarrow>
     'cb broker \<times> 'w \<Rightarrow> 'e option \<times> ('cb broker \<times> 'w)" where
  "br_publish call topic m s =
     (case um_find (br_subscriptions (fst s)) topic of
        None \<Rightarrow> (None, s)
      | Some subs \<Rightarrow> br_run call (map sub_callback subs) m s)"

section \<open>Handles\<close>

text \<open>The broker a handle refers to is passed along with it.\<close>

record publisher =
  pb_topic :: string
  pb_qos :: qos_profile

definition publisher_publish where
  "publisher_publish call p m s = br_publish call (pb_topic p) m s"

record subscriber =
  sr_topic :: string
  sr_qos :: qos_profile
  sr_id :: u64

definition subscriber_new :: "string \<Rightarrow> qos_profile \<Rightarrow> 'cb \<Rightarrow> 'cb broker \<Rightarrow> subscriber \<times> 'cb broker" where
  "subscriber_new topic qos cb b =
     (let (i, b') = br_subscribe topic cb b in (\<lparr>sr_topic = topic, sr_qos = qos, sr_id = i\<rparr>, b'))"

definition subscriber_destroy :: "subscriber \<Rightarrow> 'cb broker \<Rightarrow> 'cb broker" where
  "subscriber_destroy s b = br_unsubscribe (sr_topic s) (sr_id s) b"

record channel =
  ch_pub :: publisher
  ch_topic :: string
  ch_qos :: qos_profile

definition channel_new :: "string \<Rightarrow> qos_profile \<Rightarrow> channel" where
  "channel_new topic qos = \<lparr>ch_pub = \<lparr>pb_topic = topic, pb_qos = qos\<rparr>, ch_topic = topic, ch_qos = qos\<rparr>"

definition channel_publish where
  "channel_publish call c m s = publisher_publish call (ch_pub c) m s"

record 'cb core_node =
  cn_name :: string
  cn_broker :: "'cb broker"

definition core_node_new :: "string \<Rightarrow> 'cb core_node" where
  "core_node_new name = \<lparr>cn_name = name, cn_broker = broker_new\<rparr>"

definition core_create_channel :: "string \<Rightarrow> qos_profile \<Rightarrow> 'cb core_node \<Rightarrow> channel" where
  "core_create_channel topic qos n = channel_new topic qos"

definition core_subscribe :: "string \<Rightarrow> qos_profile \<Rightarrow> 'cb \<Rightarrow> 'cb core_node \<Rightarrow> subscriber \<times> 'cb core_node" where
  "core_subscribe topic qos cb n =
     (let (s, b) = subscriber_new topic qos cb (cn_broker n) in (s, n\<lparr>cn_broker := b\<rparr>))"

section \<open>The table as a keyed registry\<close>

definition broker_ok :: "'cb broker \<Rightarrow> bool" where
  "broker_ok b \<longleftrightarrow> umap_ok (br_subscriptions b) \<and> (\<forall>(t, subs) \<in> set (br_subscriptions b). subs \<noteq> [])"

lemma broker_ok_new [simp]: "broker_ok broker_new"
  by (simp add: broker_ok_def broker_new_def)

lemma broker_ok_next_id [simp]: "broker_ok (b\<lparr>br_next_id := i\<rparr>) = broker_ok b"
  by (simp add: broker_ok_def)

lemma br_bucket_next_id [simp]: "br_bucket (b\<lparr>br_next_id := i\<rparr>) = br_bucket b"
  by (rule ext) (simp add: br_bucket_def)

lemma br_next_id_unsubscribe [simp]: "br_next_id (br_unsubscribe t i b) = br_next_id b"
  by (simp add: br_unsubscribe_def Let_def split: option.split)

lemma br_next_id_push [simp]: "br_next_id (br_push t e b) = br_next_id b"
  by (simp add: br_push_def)

lemma br_bucket_push: "br_bucket (br_push t e b) t' = (if t' = t then br_bucket b t @ [e] else br_bucket b t')"
  by (simp add: br_bucket_def [of "br_push t e b"] br_push_def) (simp add: br_bucket_def)

lemma br_bucket_unsubscribe:
  "br_bucket (br_unsubscribe t i b) t' =
     (if t' = t then filter (\<lambda>s. \<not> sub_id s = i) (br_bucket b t) else br_bucket b t')"
  by (cases "um_find (br_subscriptions b) t") (auto simp: br_bucket_def br_unsubscribe_def Let_def)

lemma broker_ok_push: "broker_ok b \<Longrightarrow> broker_ok (br_push t e b)"
  by (auto simp: broker_ok_def br_push_def set_um_put)

lemma broker_ok_unsubscribe [model_inv]: "broker_ok b \<Longrightarrow> broker_ok (br_unsubscribe t i b)"
  by (auto simp: broker_ok_def br_unsubscribe_def set_um_put set_um_erase Let_def split: option.split)

interpretation brk: bucket_registry br_push br_unsubscribe br_bucket "\<lambda>i s. sub_id s = i" broker_ok
  by unfold_locales (auto simp: br_bucket_push br_bucket_unsubscribe broker_ok_push broker_ok_unsubscribe)

lemma broker_ok_subscribe [model_inv]: "broker_ok b \<Longrightarrow> broker_ok (snd (br_subscribe t cb b))"
  by (simp add: br_subscribe_def Let_def broker_ok_push)

lemma br_find_bucket:
  "broker_ok b \<Longrightarrow> um_find (br_subscriptions b) t = (if br_bucket b t = [] then None else Some (br_bucket b t))"
  by (auto simp: broker_ok_def br_bucket_def dest!: map_of_SomeD split: option.split)

section \<open>Specification: one list of live subscriptions\<close>

datatype 'cb broker_op = BSub string 'cb | BUnsub string u64

definition br_apply :: "'cb broker_op \<Rightarrow> 'cb broker \<Rightarrow> 'cb broker" where
  "br_apply op b = (case op of BSub t cb \<Rightarrow> snd (br_subscribe t cb b) | BUnsub t i \<Rightarrow> br_unsubscribe t i b)"

text \<open>
  The specification keeps every live subscription of every topic in one list, in the order
  they were made, and numbers them from 1 without wrap-around.
\<close>

type_synonym 'cb sub_log = "nat \<times> (string \<times> nat \<times> 'cb) list"

definition log_apply :: "'cb broker_op \<Rightarrow> 'cb sub_log \<Rightarrow> 'cb sub_log" where
  "log_apply op l = (case op of
      BSub t cb \<Rightarrow> (fst l + 1, snd l @ [(t, fst l, cb)])
    | BUnsub t i \<Rightarrow> (fst l, filter (\<lambda>(t', j, _). \<not> (t' = t \<and> j = unat i)) (snd l)))"

definition log_topic :: "string \<Rightarrow> 'cb sub_log \<Rightarrow> (nat \<times> 'cb) list" where
  "log_topic t l = map snd (filter (\<lambda>(t', _). t' = t) (snd l))"

definition sub_pair :: "'cb subscription \<Rightarrow> nat \<times> 'cb" where
  "sub_pair s = (unat (sub_id s), sub_callback s)"

definition broker_refines :: "'cb broker \<Rightarrow> 'cb sub_log \<Rightarrow> bool" where
  "broker_refines b l \<longleftrightarrow> broker_ok b \<and> unat (br_next_id b) = fst l \<and>
     (\<forall>t. map sub_pair (br_bucket b t) = log_topic t l)"

lemma log_topic_sub: "log_topic t' (n, l @ [(t, i, cb)]) = log_topic t' (n, l) @ (if t' = t then [(i, cb)] else [])"
  by (simp add: log_topic_def)

lemma log_topic_unsub:
  "log_topic t' (log_apply (BUnsub t i) l) =
     (if t' = t then filter (\<lambda>p. \<not> fst p = unat i) (log_topic t' l) else log_topic t' l)"
  unfolding log_topic_def log_apply_def by (induction "snd l" arbitrary: l) auto

lemma map_sub_pair_filter:
  "map sub_pair (filter (\<lambda>s. \<not> sub_id s = i) xs) = filter (\<lambda>p. \<not> fst p = unat i) (map sub_pair xs)"
  by (induction xs) (auto simp: sub_pair_def word_unat_eq_iff)

lemma broker_refines_apply:
  assumes "broker_refines b l" "fst l < 2 ^ 64 - 1"
  shows "broker_refines (br_apply op b) (log_apply op l)"
proof (cases op)
  case (BSub t cb)
  have "unat (br_next_id b + 1) = fst l + 1"
    using assms by (simp add: broker_refines_def unat_word_ariths)
  with assms(1) BSub show ?thesis
    by (auto simp: broker_refines_def br_apply_def log_apply_def br_subscribe_def Let_def broker_ok_push
        br_bucket_push sub_pair_def log_topic_def)
next
  case (BUnsub t i)
  with assms(1) show ?thesis
    by (auto simp: broker_refines_def br_apply_def br_bucket_unsubscribe map_sub_pair_filter
        log_topic_unsub broker_ok_unsubscribe) (simp add: log_apply_def)
qed

lemma fst_log_apply: "fst (log_apply op l) \<le> fst l + 1"
  by (simp add: log_apply_def split: broker_op.split)

lemma broker_refines_run:
  assumes "broker_refines b l" "fst l + length ops < 2 ^ 64"
  shows "broker_refines (fold br_apply ops b) (fold log_apply ops l)"
  using assms
proof (induction ops arbitrary: b l)
  case (Cons op ops)
  from Cons.prems have "broker_refines (br_apply op b) (log_apply op l)"
    by (intro broker_refines_apply) auto
  with Cons.IH Cons.prems(2) fst_log_apply [of op l] show ?case by simp
qed simp

lemma broker_refines_new: "broker_refines broker_new (1, [])"
  by (simp add: broker_refines_def broker_ok_def broker_new_def br_bucket_def log_topic_def)

text \<open>
  C17. The broker implements its specification: after any sequence of fewer than
  \<open>2 ^ 64 - 1\<close> subscribe and unsubscribe calls, the subscriptions of each topic are the live
  ones of the specification's single list, with the same identifiers and in subscription order.
\<close>

theorem broker_history:
  assumes "length ops < 2 ^ 64 - 1"
  shows "map sub_pair (br_bucket (fold br_apply ops broker_new) t) = log_topic t (fold log_apply ops (1, []))"
  using broker_refines_run [OF broker_refines_new, of ops] assms by (simp add: broker_refines_def)

theorem broker_history_witness:
  "map sub_pair (br_bucket (fold br_apply [BSub ''a'' (10 :: nat), BSub ''b'' 20, BSub ''a'' 30, BUnsub ''a'' 1] broker_new) ''a'')
     = [(3, 30)]"
  using broker_history [of "[BSub ''a'' (10 :: nat), BSub ''b'' 20, BSub ''a'' 30, BUnsub ''a'' 1]" "''a''"]
  by (simp add: log_topic_def log_apply_def)

section \<open>Delivery\<close>

text \<open>
  An observing callback: it records that it ran and with which message, changes the broker in
  an arbitrary way, and throws or not.
\<close>

definition observing ::
  "('cb \<Rightarrow> 'cb broker \<Rightarrow> 'cb broker) \<Rightarrow> ('cb \<Rightarrow> 'e option) \<Rightarrow> 'cb \<Rightarrow> message_view \<Rightarrow>
     'cb broker \<times> ('cb \<times> message_view) list \<Rightarrow> 'e option \<times> ('cb broker \<times> ('cb \<times> message_view) list)" where
  "observing reenter throws cb m s = (throws cb, (reenter cb (fst s), snd s @ [(cb, m)]))"

text \<open>The callbacks up to and including the first that throws.\<close>

definition upto_throw :: "('cb \<Rightarrow> 'e option) \<Rightarrow> 'cb list \<Rightarrow> 'cb list" where
  "upto_throw throws cbs =
     takeWhile (\<lambda>c. throws c = None) cbs @ take 1 (dropWhile (\<lambda>c. throws c = None) cbs)"

lemma br_run_observing:
  "snd (snd (br_run (observing reenter throws) cbs m s)) = snd s @ map (\<lambda>c. (c, m)) (upto_throw throws cbs) \<and>
   fst (br_run (observing reenter throws) cbs m s) =
     (case dropWhile (\<lambda>c. throws c = None) cbs of [] \<Rightarrow> None | c # _ \<Rightarrow> throws c)"
proof (induction cbs arbitrary: s)
  case (Cons c cbs)
  then show ?case
    by (cases "throws c") (simp_all add: observing_def upto_throw_def)
qed (simp add: upto_throw_def)

text \<open>
  C18. Publishing calls the topic's subscribers of the moment of the call, each once and in
  subscription order, with the published message, whatever they do to the broker meanwhile; if
  one throws, the exception leaves \<open>publish\<close> and the later ones are not called.
\<close>

theorem publish_snapshot:
  assumes "broker_ok b"
  shows "snd (snd (br_publish (observing reenter throws) t m (b, seen)))
       = seen @ map (\<lambda>c. (c, m)) (upto_throw throws (map sub_callback (br_bucket b t)))
    \<and> (fst (br_publish (observing reenter throws) t m (b, seen)) = None
         \<longleftrightarrow> (\<forall>s \<in> set (br_bucket b t). throws (sub_callback s) = None))"
proof -
  have "br_publish (observing reenter throws) t m (b, seen)
      = br_run (observing reenter throws) (map sub_callback (br_bucket b t)) m (b, seen)"
    by (simp add: br_publish_def br_find_bucket [OF assms])
  moreover have "((case dropWhile (\<lambda>c. throws c = None) cbs of [] \<Rightarrow> None | c # _ \<Rightarrow> throws c) = None)
      \<longleftrightarrow> (\<forall>c \<in> set cbs. throws c = None)" for cbs
    by (induction cbs) auto
  ultimately show ?thesis
    using br_run_observing [of reenter throws "map sub_callback (br_bucket b t)" m "(b, seen)"] by simp
qed

definition demo_view :: message_view where
  "demo_view = \<lparr>mv_header = header_default, mv_payload = [1]\<rparr>"

theorem publish_snapshot_witness:
  "snd (snd (br_publish (observing (\<lambda>c. br_unsubscribe ''t'' 2) (\<lambda>c. if c = (8::nat) then Some () else None)) ''t'' demo_view
      (\<lparr>br_subscriptions = [(''t'', [\<lparr>sub_id = 1, sub_callback = 7\<rparr>, \<lparr>sub_id = 2, sub_callback = 8\<rparr>,
          \<lparr>sub_id = 3, sub_callback = 9\<rparr>])], br_next_id = 4\<rparr>, []))) = [(7, demo_view), (8, demo_view)]"
  by (subst conjunct1 [OF publish_snapshot]) (simp_all add: broker_ok_def br_bucket_def upto_throw_def)

section \<open>Handle scope\<close>

definition broker_fresh :: "'cb broker \<Rightarrow> bool" where
  "broker_fresh b \<longleftrightarrow> broker_ok b \<and> (\<forall>t. \<forall>s \<in> set (br_bucket b t). unat (sub_id s) < unat (br_next_id b))"

text \<open>\<open>b2\<close> is \<open>b1\<close> without the subscription \<open>i\<close> of topic \<open>t\<close>.\<close>

definition without :: "string \<Rightarrow> u64 \<Rightarrow> 'cb broker \<Rightarrow> 'cb broker \<Rightarrow> bool" where
  "without t i b1 b2 \<longleftrightarrow> br_next_id b2 = br_next_id b1 \<and> br_bucket b2 = br_bucket (br_unsubscribe t i b1)"

lemma without_apply:
  assumes "without t i b1 b2" "unat i < unat (br_next_id b1)" "unat (br_next_id b1) < 2 ^ 64 - 1"
  shows "without t i (br_apply op b1) (br_apply op b2) \<and> unat i < unat (br_next_id (br_apply op b1)) \<and>
    unat (br_next_id (br_apply op b1)) \<le> unat (br_next_id b1) + 1"
proof (cases op)
  case (BSub t' cb)
  have nxt: "unat (br_next_id b1 + 1) = unat (br_next_id b1) + 1"
    using assms(3) by (simp add: unat_word_ariths)
  have "br_next_id b1 \<noteq> i" using assms(2) by auto
  with assms(1) nxt assms(2) BSub show ?thesis
    by (auto simp: without_def br_apply_def br_subscribe_def Let_def br_bucket_push br_bucket_unsubscribe fun_eq_iff)
next
  case (BUnsub t' j)
  with assms show ?thesis
    by (auto simp: without_def br_apply_def br_bucket_unsubscribe fun_eq_iff conj_commute)
qed

lemma without_run:
  assumes "without t i b1 b2" "unat i < unat (br_next_id b1)" "unat (br_next_id b1) + length ops < 2 ^ 64"
  shows "without t i (fold br_apply ops b1) (fold br_apply ops b2)"
  using assms
proof (induction ops arbitrary: b1 b2)
  case (Cons op ops)
  from Cons.prems have "without t i (br_apply op b1) (br_apply op b2)"
    "unat i < unat (br_next_id (br_apply op b1))"
    "unat (br_next_id (br_apply op b1)) \<le> unat (br_next_id b1) + 1"
    using without_apply [of t i b1 b2 op] by auto
  with Cons.IH [of "br_apply op b1" "br_apply op b2"] Cons.prems(3) show ?case by simp
qed simp

text \<open>
  A \<open>Subscriber\<close> handle that goes out of scope leaves no trace: whatever subscriptions
  and cancellations happened meanwhile, the broker then holds for every topic exactly what it
  would hold had the handle never existed and its identifier been skipped.
\<close>

theorem subscriber_scope:
  assumes "broker_fresh b" "subscriber_new t qos cb b = (h, b')"
    and "unat (br_next_id b) + length ops < 2 ^ 64 - 1"
  shows "br_bucket (subscriber_destroy h (fold br_apply ops b'))
       = br_bucket (fold br_apply ops (b\<lparr>br_next_id := br_next_id b + 1\<rparr>))"
proof -
  let ?i = "br_next_id b"
  let ?s = "\<lparr>sub_id = ?i, sub_callback = cb\<rparr>" and ?b = "b\<lparr>br_next_id := ?i + 1\<rparr>"
  have ok: "broker_ok ?b" and old: "\<forall>s \<in> set (br_bucket ?b t). \<not> sub_id s = ?i"
    using assms(1) by (fastforce simp: broker_fresh_def)+
  have b': "b' = br_push t ?s ?b" and h: "sr_topic h = t" "sr_id h = ?i"
    using assms(2) by (auto simp: subscriber_new_def br_subscribe_def Let_def)
  have nxt: "unat (?i + 1) = unat ?i + 1" using assms(3) by (simp add: unat_word_ariths)
  have "without t ?i b' ?b"
    using brk.remove_add_undo [OF ok, where c = ?i and e = ?s and k = t] old by (simp add: without_def b')
  from without_run [OF this, of ops] nxt assms(3)
  have "without t ?i (fold br_apply ops b') (fold br_apply ops ?b)" by (simp add: b')
  then show ?thesis by (simp add: without_def subscriber_destroy_def h)
qed

theorem subscriber_scope_witness:
  "br_bucket (subscriber_destroy \<lparr>sr_topic = ''t'', sr_qos = qos_default, sr_id = 1\<rparr>
      (fold br_apply [BSub ''t'' False] (snd (subscriber_new ''t'' qos_default True broker_new)))) ''t''
   = [\<lparr>sub_id = 2, sub_callback = False\<rparr>]"
proof -
  have fresh: "broker_fresh (broker_new :: bool broker)"
    by (simp add: broker_fresh_def) (simp add: broker_new_def br_bucket_def)
  have new: "subscriber_new ''t'' qos_default True broker_new
      = (\<lparr>sr_topic = ''t'', sr_qos = qos_default, sr_id = 1\<rparr>,
         br_push ''t'' \<lparr>sub_id = 1, sub_callback = True\<rparr> (broker_new\<lparr>br_next_id := 2\<rparr>))"
    by (simp add: subscriber_new_def br_subscribe_def broker_new_def Let_def)
  have "unat (br_next_id (broker_new :: bool broker)) + length [BSub ''t'' False] < 2 ^ 64 - 1"
    by (simp add: broker_new_def)
  from subscriber_scope [OF fresh new this] show ?thesis
    by (simp add: new) (simp add: br_apply_def br_subscribe_def broker_new_def br_push_def br_bucket_def Let_def)
qed

end
