(* ===== verification/BrokerThreads.thy ===== *)
theory BrokerThreads
  imports Broker
begin

text \<open>
  \<open>src/broker.cpp\<close> with many threads: \<open>subscribe\<close> and \<open>unsubscribe\<close> are single steps under the
  mutex; \<open>publish\<close> takes its snapshot in one step and then calls the callbacks one by one without
  the lock, so everything may happen in between. Threads are numbered; a callback that uses the
  broker is just another step of some thread.
\<close>

section \<open>State and steps\<close>

text \<open>
  A publishing thread knows its topic, its message and the callbacks of the snapshot it has still
  to call; the rest is history: the subscriptions these callbacks are from, in \<open>BCalling\<close>, and the
  subscriptions that had been cancelled when the snapshot was taken.
\<close>

datatype 'cb bt_pc = BIdle | BCalling string message_view "'cb subscription list" "(string \<times> u64) set"

record 'cb bthreads =
  bt_broker :: "'cb broker"
  bt_pc :: "nat \<Rightarrow> 'cb bt_pc"
  bt_cancelled :: "(string \<times> u64) set"
  bt_called :: "(nat \<times> string \<times> u64) list"

definition bt_start :: "'cb bthreads \<Rightarrow> bool" where
  "bt_start s \<longleftrightarrow> bt_broker s = broker_new \<and> (\<forall>i. bt_pc s i = BIdle) \<and> bt_cancelled s = {} \<and> bt_called s = []"

text \<open>
  There are fewer than \<open>2 ^ 64 - 1\<close> subscriptions. A thread may unsubscribe any number; only one that
  \<open>subscribe\<close> has given out already counts as cancelled. A callback that throws ends the \<open>publish\<close>.
\<close>

inductive bt_step :: "'cb bthreads \<Rightarrow> 'cb bthreads \<Rightarrow> bool" where
  bt_subscribe: "unat (br_next_id (bt_broker s)) < 2 ^ 64 - 1 \<Longrightarrow>
     bt_step s (s\<lparr>bt_broker := snd (br_subscribe t cb (bt_broker s))\<rparr>)"
| bt_unsubscribe: "bt_step s (s\<lparr>bt_broker := br_unsubscribe t j (bt_broker s), bt_cancelled :=
     (if unat j < unat (br_next_id (bt_broker s)) then insert (t, j) (bt_cancelled s) else bt_cancelled s)\<rparr>)"
| bt_publish: "bt_pc s i = BIdle \<Longrightarrow>
     bt_step s (s\<lparr>bt_pc := (bt_pc s)(i := BCalling t m (br_bucket (bt_broker s) t) (bt_cancelled s))\<rparr>)"
| bt_call: "bt_pc s i = BCalling t m (c # cs) old \<Longrightarrow>
     bt_step s (s\<lparr>bt_pc := (bt_pc s)(i := BCalling t m cs old), bt_called := bt_called s @ [(i, t, sub_id c)]\<rparr>)"
| bt_throw: "bt_pc s i = BCalling t m (c # cs) old \<Longrightarrow>
     bt_step s (s\<lparr>bt_pc := (bt_pc s)(i := BIdle), bt_called := bt_called s @ [(i, t, sub_id c)]\<rparr>)"
| bt_return: "bt_pc s i = BCalling t m [] old \<Longrightarrow> bt_step s (s\<lparr>bt_pc := (bt_pc s)(i := BIdle)\<rparr>)"

section \<open>Invariant\<close>

definition subs_ok :: "u64 \<Rightarrow> (string \<times> u64) set \<Rightarrow> string \<Rightarrow> 'cb subscription list \<Rightarrow> bool" where
  "subs_ok next_id gone t l \<longleftrightarrow> distinct (map sub_id l) \<and>
     (\<forall>c \<in> set l. unat (sub_id c) < unat next_id \<and> (t, sub_id c) \<notin> gone)"

definition bt_inv :: "'cb bthreads \<Rightarrow> bool" where
  "bt_inv s \<longleftrightarrow> (\<forall>t. subs_ok (br_next_id (bt_broker s)) (bt_cancelled s) t (br_bucket (bt_broker s) t)) \<and>
     (\<forall>(t, j) \<in> bt_cancelled s. unat j < unat (br_next_id (bt_broker s))) \<and>
     (\<forall>i t m cs old. bt_pc s i = BCalling t m cs old \<longrightarrow>
        subs_ok (br_next_id (bt_broker s)) old t cs \<and> old \<subseteq> bt_cancelled s)"

lemma subs_ok_tl: "subs_ok n gone t (c # cs) \<Longrightarrow> subs_ok n gone t cs"
  by (simp add: subs_ok_def)

lemma subs_ok_later: "subs_ok n gone t l \<Longrightarrow> unat n \<le> unat n' \<Longrightarrow> subs_ok n' gone t l"
  by (fastforce simp: subs_ok_def)

lemma br_bucket_subscribe:
  "br_bucket (snd (br_subscribe t cb b)) t' =
     (if t' = t then br_bucket b t @ [\<lparr>sub_id = br_next_id b, sub_callback = cb\<rparr>] else br_bucket b t')"
  by (simp add: br_subscribe_def Let_def br_bucket_push)

lemma bt_inv_bucket: "bt_inv s \<Longrightarrow> subs_ok (br_next_id (bt_broker s)) (bt_cancelled s) t (br_bucket (bt_broker s) t)"
  by (simp add: bt_inv_def)

lemma bt_inv_cancelled: "bt_inv s \<Longrightarrow> (t, j) \<in> bt_cancelled s \<Longrightarrow> unat j < unat (br_next_id (bt_broker s))"
  by (auto simp: bt_inv_def)

lemma bt_inv_calling:
  "bt_inv s \<Longrightarrow> bt_pc s i = BCalling t m cs old \<Longrightarrow>
     subs_ok (br_next_id (bt_broker s)) old t cs \<and> old \<subseteq> bt_cancelled s"
  unfolding bt_inv_def by blast

lemma subs_ok_snoc:
  assumes "subs_ok n gone t l" "unat (n + 1) = unat n + 1" "(t, n) \<notin> gone"
  shows "subs_ok (n + 1) gone t (l @ [\<lparr>sub_id = n, sub_callback = cb\<rparr>])"
proof -
  have "n \<notin> sub_id ` set l" using assms(1) by (auto simp: subs_ok_def)
  moreover have "unat (sub_id c) < unat n + 1" if "c \<in> set l" for c
    using assms(1) that less_SucI by (fastforce simp: subs_ok_def)
  ultimately show ?thesis using assms by (auto simp: subs_ok_def)
qed

lemma subs_ok_filter: "subs_ok n gone t l \<Longrightarrow> subs_ok n (insert (t, j) gone) t (filter (\<lambda>s. \<not> sub_id s = j) l)"
  by (auto simp: subs_ok_def distinct_map_filter)

lemma subs_ok_fewer: "subs_ok n gone t l \<Longrightarrow> gone' \<subseteq> gone \<Longrightarrow> subs_ok n gone' t l"
  by (auto simp: subs_ok_def)

lemma subs_ok_other: "subs_ok n gone t l \<Longrightarrow> t \<noteq> t' \<Longrightarrow> subs_ok n (insert (t', j) gone) t l"
  by (simp add: subs_ok_def)

lemma bt_subscribe_inv:
  assumes inv: "bt_inv s" and few: "unat (br_next_id (bt_broker s)) < 2 ^ 64 - 1"
  shows "bt_inv (s\<lparr>bt_broker := snd (br_subscribe t cb (bt_broker s))\<rparr>)"
proof -
  let ?n = "br_next_id (bt_broker s)"
  have next_id: "br_next_id (snd (br_subscribe t cb (bt_broker s))) = ?n + 1"
    by (simp add: br_subscribe_def Let_def)
  have nxt: "unat (?n + 1) = unat ?n + 1" using few by (simp add: unat_word_ariths)
  have le: "unat ?n \<le> unat (?n + 1)" by (simp add: nxt)
  have fresh: "(t, ?n) \<notin> bt_cancelled s" using bt_inv_cancelled [OF inv] by blast
  have "subs_ok (?n + 1) (bt_cancelled s) t' (br_bucket (snd (br_subscribe t cb (bt_broker s))) t')" for t'
  proof (cases "t' = t")
    case True
    then show ?thesis
      by (simp add: br_bucket_subscribe subs_ok_snoc [OF bt_inv_bucket [OF inv] nxt fresh])
  next
    case False
    then show ?thesis
      by (simp add: br_bucket_subscribe subs_ok_later [OF bt_inv_bucket [OF inv] le])
  qed
  moreover have "subs_ok (?n + 1) old t' cs \<and> old \<subseteq> bt_cancelled s"
    if "bt_pc s i = BCalling t' m cs old" for i t' m cs old
    using bt_inv_calling [OF inv that] subs_ok_later [OF _ le] by blast
  moreover have "unat j < unat (?n + 1)" if "(t', j) \<in> bt_cancelled s" for t' j
    using bt_inv_cancelled [OF inv that] nxt by linarith
  ultimately show ?thesis by (simp add: bt_inv_def next_id) blast
qed

lemma bt_unsubscribe_inv:
  assumes inv: "bt_inv s"
    and gone: "gone = (if unat j < unat (br_next_id (bt_broker s)) then insert (t, j) (bt_cancelled s) else bt_cancelled s)"
  shows "bt_inv (s\<lparr>bt_broker := br_unsubscribe t j (bt_broker s), bt_cancelled := gone\<rparr>)"
proof -
  have grows: "bt_cancelled s \<subseteq> gone" "gone \<subseteq> insert (t, j) (bt_cancelled s)" by (auto simp: gone)
  have "subs_ok (br_next_id (bt_broker s)) (insert (t, j) (bt_cancelled s)) t'
      (br_bucket (br_unsubscribe t j (bt_broker s)) t')" for t'
    using bt_inv_bucket [OF inv, of t']
    by (cases "t' = t") (simp_all add: br_bucket_unsubscribe subs_ok_filter subs_ok_other)
  then have "subs_ok (br_next_id (bt_broker s)) gone t' (br_bucket (br_unsubscribe t j (bt_broker s)) t')" for t'
    by (rule subs_ok_fewer [OF _ grows(2)])
  moreover have "subs_ok (br_next_id (bt_broker s)) old t' cs \<and> old \<subseteq> gone"
    if "bt_pc s i = BCalling t' m cs old" for i t' m cs old
    using bt_inv_calling [OF inv that] grows(1) by blast
  moreover have "unat j' < unat (br_next_id (bt_broker s))" if "(t', j') \<in> gone" for t' j'
    using bt_inv_cancelled [OF inv, of t' j'] that by (auto simp: gone split: if_splits)
  ultimately show ?thesis by (simp add: bt_inv_def) blast
qed

lemma bt_pc_inv:
  assumes inv: "bt_inv s" and new: "\<And>t m cs old. pc = BCalling t m cs old \<Longrightarrow>
      subs_ok (br_next_id (bt_broker s)) old t cs \<and> old \<subseteq> bt_cancelled s"
  shows "bt_inv (s\<lparr>bt_pc := (bt_pc s)(i := pc)\<rparr>)" "bt_inv (s\<lparr>bt_pc := (bt_pc s)(i := pc), bt_called := l\<rparr>)"
  using inv new unfolding bt_inv_def by simp_all

lemma bt_step_inv [model_inv]: "bt_step s u \<Longrightarrow> bt_inv s \<Longrightarrow> bt_inv u"
proof (induction rule: bt_step.induct)
  case (bt_subscribe s t cb)
  then show ?case by (simp add: bt_subscribe_inv)
next
  case (bt_unsubscribe s j t)
  from bt_unsubscribe_inv [OF bt_unsubscribe refl] show ?case .
next
  case (bt_publish s i t m)
  then show ?case by (intro bt_pc_inv) (simp_all add: bt_inv_bucket)
next
  case (bt_call s i t m c cs old)
  from bt_inv_calling [OF bt_call(2,1)] show ?case
    by (intro bt_pc_inv [OF bt_call(2)]) (auto dest: subs_ok_tl)
next
  case (bt_throw s i t m c cs old)
  then show ?case by (intro bt_pc_inv) simp_all
next
  case (bt_return s i t m old)
  then show ?case by (intro bt_pc_inv) simp_all
qed

lemma bt_start_inv: "bt_start s \<Longrightarrow> bt_inv s"
  by (auto simp: bt_start_def bt_inv_def subs_ok_def br_bucket_def broker_new_def)

interpretation btm: safe_machine bt_start bt_step bt_inv
  by unfold_locales (erule bt_start_inv, erule (1) bt_step_inv [rotated])

section \<open>Properties\<close>


definition bt_demo :: "nat broker \<Rightarrow> nat bt_pc \<Rightarrow> (string \<times> u64) set \<Rightarrow> nat bthreads" where
  "bt_demo b pc gone = \<lparr>bt_broker = b, bt_pc = (\<lambda>_. BIdle)(0 := pc), bt_cancelled = gone, bt_called = []\<rparr>"

text \<open>
  A publish that has already taken its snapshot still calls a subscription that is cancelled in
  the meantime: \<open>unsubscribe\<close> does not wait for it, so its caller may not destroy what the callback
  uses.
\<close>

lemma bt_demo_start: "bt_start (bt_demo broker_new BIdle {})"
  by (simp add: bt_start_def bt_demo_def)

definition bt_demo_broker :: "nat broker" where
  "bt_demo_broker = snd (br_subscribe ''t'' 7 broker_new)"

definition bt_demo_late :: "nat bthreads" where
  "bt_demo_late = bt_demo (br_unsubscribe ''t'' 1 bt_demo_broker)
     (BCalling ''t'' demo_view [\<lparr>sub_id = 1, sub_callback = 7\<rparr>] {}) {(''t'', 1)}"

lemma bt_demo_next: "br_next_id bt_demo_broker = 2"
  by (simp add: bt_demo_broker_def br_subscribe_def Let_def) (simp add: broker_new_def)

lemma bt_demo_bucket: "br_bucket bt_demo_broker ''t'' = [\<lparr>sub_id = 1, sub_callback = 7\<rparr>]"
  by (simp add: bt_demo_broker_def br_bucket_subscribe) (simp add: br_bucket_def broker_new_def)

lemma bt_demo_run: "bt_step\<^sup>*\<^sup>* (bt_demo broker_new BIdle {}) bt_demo_late"
proof -
  let ?s1 = "bt_demo bt_demo_broker BIdle {}"
  let ?s2 = "bt_demo bt_demo_broker (BCalling ''t'' demo_view [\<lparr>sub_id = 1, sub_callback = 7\<rparr>] {}) {}"
  have "bt_step (bt_demo broker_new BIdle {}) ?s1"
    using bt_subscribe [of "bt_demo broker_new BIdle {}" "''t''" 7]
    by (simp add: bt_demo_def bt_demo_broker_def) (simp add: broker_new_def)
  moreover have "bt_step ?s1 ?s2"
    using bt_publish [of ?s1 0 "''t''" demo_view] by (simp add: bt_demo_def bt_demo_bucket)
  moreover have "bt_step ?s2 bt_demo_late"
    using bt_unsubscribe [of ?s2 1 "''t''"] by (simp add: bt_demo_def bt_demo_late_def bt_demo_next)
  ultimately show ?thesis by (meson rtranclp.rtrancl_refl rtranclp.rtrancl_into_rtrancl)
qed


theorem broker_late_call:
  "\<exists>u. bt_step\<^sup>*\<^sup>* (bt_demo broker_new BIdle {}) u \<and> (''t'', 1) \<in> bt_cancelled u \<and>
     bt_step u (u\<lparr>bt_pc := (bt_pc u)(0 := BCalling ''t'' demo_view [] {}), bt_called := bt_called u @ [(0, ''t'', 1)]\<rparr>)"
proof (intro exI conjI)
  show "bt_step\<^sup>*\<^sup>* (bt_demo broker_new BIdle {}) bt_demo_late" by (rule bt_demo_run)
  show "(''t'', 1) \<in> bt_cancelled bt_demo_late" by (simp add: bt_demo_late_def bt_demo_def)
  show "bt_step bt_demo_late (bt_demo_late\<lparr>bt_pc := (bt_pc bt_demo_late)(0 := BCalling ''t'' demo_view [] {}),
      bt_called := bt_called bt_demo_late @ [(0, ''t'', 1)]\<rparr>)"
    using bt_call [of bt_demo_late 0 "''t''" demo_view "\<lparr>sub_id = 1, sub_callback = 7\<rparr>" "[]" "{}"]
    by (simp add: bt_demo_late_def bt_demo_def)
qed

end
