(* ===== verification/ShmSegment.thy ===== *)
theory ShmSegment
  imports Prelude "HOL-Library.Multiset"
begin

text \<open>
  \<open>include/lwipc/shm_segment.hpp\<close> and \<open>src/shm_segment.cpp\<close>: the RAII handle of a POSIX
  shared-memory segment. The operating system is the argument \<open>os\<close>: it answers each call
  depending on the history of calls, most recent first, in any way it likes. A negative answer
  is a failure; otherwise it is a file descriptor, an address or the size that \<open>fstat\<close> found.
  What the theorems say of the history therefore holds for every operating system.
\<close>

section \<open>The system calls\<close>

datatype os_call =
    ShmOpen string bool   \<comment> \<open>name, with \<open>O_CREAT\<close>\<close>
  | Ftruncate int size_t
  | Fstat int
  | Mmap size_t int
  | Munmap int size_t
  | CloseFd int
  | ShmUnlink string

type_synonym history = "os_call list"

type_synonym os = "history \<Rightarrow> int"

definition sys :: "os \<Rightarrow> os_call \<Rightarrow> history \<Rightarrow> int \<times> history" where
  "sys os c h = (os (c # h), c # h)"

section \<open>The handle\<close>

record shm_segment =
  sh_name :: string
  sh_size :: size_t
  sh_fd :: int
  sh_addr :: "int option"

definition segment_none :: shm_segment where
  "segment_none = \<lparr>sh_name = [], sh_size = 0, sh_fd = -1, sh_addr = None\<rparr>"

definition normalize_name :: "string \<Rightarrow> string" where
  "normalize_name name = (if name = [] then [] else if hd name \<noteq> CHR ''/'' then CHR ''/'' # name else name)"

definition sh_close :: "os \<Rightarrow> shm_segment \<Rightarrow> history \<Rightarrow> shm_segment \<times> history" where
  "sh_close os s h =
     (let h1 = (case sh_addr s of None \<Rightarrow> h | Some a \<Rightarrow> snd (sys os (Munmap a (sh_size s)) h));
          h2 = (if 0 \<le> sh_fd s then snd (sys os (CloseFd (sh_fd s)) h1) else h1);
          h3 = (if sh_name s \<noteq> [] then snd (sys os (ShmUnlink (sh_name s)) h2) else h2)
      in (s\<lparr>sh_addr := None, sh_fd := -1\<rparr>, h3))"

text \<open>
  The constructor: \<open>Inl\<close> is the exception it throws. The object then does not exist, so its
  destructor does not run; only what the constructor itself did remains.
\<close>

datatype segment_error = ZeroSize | ShmOpenFailed | FtruncateFailed | MmapFailed

definition segment_new :: "os \<Rightarrow> string \<Rightarrow> size_t \<Rightarrow> history \<Rightarrow> (segment_error + shm_segment) \<times> history" where
  "segment_new os name sz h =
     (let s = \<lparr>sh_name = normalize_name name, sh_size = sz, sh_fd = -1, sh_addr = None\<rparr> in
      if sz = 0 then (Inl ZeroSize, h)
      else let (fd, h1) = sys os (ShmOpen (sh_name s) True) h in
        if fd < 0 then (Inl ShmOpenFailed, h1)
        else let (r, h2) = sys os (Ftruncate fd sz) h1; s1 = s\<lparr>sh_fd := fd\<rparr> in
          if r \<noteq> 0 then (Inl FtruncateFailed, snd (sh_close os s1 h2))
          else let (a, h3) = sys os (Mmap sz fd) h2 in
            if a < 0 then (Inl MmapFailed, snd (sh_close os s1 h3))
            else (Inr (s1\<lparr>sh_addr := Some a\<rparr>), h3))"

text \<open>The shared tail of \<open>create\<close> and \<open>open\<close>: on failure the descriptor is closed again.\<close>

definition sh_map :: "os \<Rightarrow> shm_segment \<Rightarrow> history \<Rightarrow> bool \<times> shm_segment \<times> history" where
  "sh_map os s h =
     (let (a, h1) = sys os (Mmap (sh_size s) (sh_fd s)) h in
      if a < 0 then (False, s\<lparr>sh_addr := None, sh_fd := -1\<rparr>, snd (sys os (CloseFd (sh_fd s)) h1))
      else (True, s\<lparr>sh_addr := Some a\<rparr>, h1))"

definition sh_create :: "os \<Rightarrow> string \<Rightarrow> size_t \<Rightarrow> shm_segment \<Rightarrow> history \<Rightarrow> bool \<times> shm_segment \<times> history" where
  "sh_create os name sz s0 h =
     (let s = s0\<lparr>sh_name := normalize_name name, sh_size := sz\<rparr> in
      if sh_name s = [] then (False, s, h)
      else if sz = 0 then (False, s, h)
      else let (fd, h1) = sys os (ShmOpen (sh_name s) True) h; s1 = s\<lparr>sh_fd := fd\<rparr> in
        if fd < 0 then (False, s1, h1)
        else let (r, h2) = sys os (Ftruncate fd sz) h1 in
          if r \<noteq> 0 then (False, s1\<lparr>sh_fd := -1\<rparr>, snd (sys os (CloseFd fd) h2))
          else sh_map os s1 h2)"

definition sh_open :: "os \<Rightarrow> string \<Rightarrow> shm_segment \<Rightarrow> history \<Rightarrow> bool \<times> shm_segment \<times> history" where
  "sh_open os name s0 h =
     (let s = s0\<lparr>sh_name := normalize_name name\<rparr> in
      if sh_name s = [] then (False, s, h)
      else let (fd, h1) = sys os (ShmOpen (sh_name s) False) h; s1 = s\<lparr>sh_fd := fd\<rparr> in
        if fd < 0 then (False, s1, h1)
        else let (st_size, h2) = sys os (Fstat fd) h1 in
          if st_size < 0 then (False, s1\<lparr>sh_fd := -1\<rparr>, snd (sys os (CloseFd fd) h2))
          else sh_map os (s1\<lparr>sh_size := of_int st_size\<rparr>) h2)"

text \<open>
  Moving: the new object and what is left of the other. A string that was moved from is empty
  in the standard libraries the code is built with.
\<close>

definition sh_moved_from :: "shm_segment \<Rightarrow> shm_segment" where
  "sh_moved_from other = \<lparr>sh_name = [], sh_size = 0, sh_fd = -1, sh_addr = None\<rparr>"

definition sh_move :: "shm_segment \<Rightarrow> shm_segment \<times> shm_segment" where
  "sh_move other = (other, sh_moved_from other)"

definition sh_move_assign :: "os \<Rightarrow> shm_segment \<Rightarrow> shm_segment \<Rightarrow> history \<Rightarrow> shm_segment \<times> shm_segment \<times> history"
where
  "sh_move_assign os s other h =
     (let (s1, h1) = sh_close os s h in (other, sh_moved_from other, h1))"

section \<open>What a history leaves open\<close>

text \<open>
  Descriptors opened and not closed, and mappings made and not unmapped, counted with
  multiplicity. A resource closed more often than opened does not go below zero, so the
  theorems also use that nothing is closed that is not open.
\<close>

fun open_fds :: "os \<Rightarrow> history \<Rightarrow> int multiset" where
  "open_fds os [] = {#}"
| "open_fds os (c # h) =
     (case c of
        ShmOpen _ _ \<Rightarrow> (if 0 \<le> os (c # h) then add_mset (os (c # h)) (open_fds os h) else open_fds os h)
      | CloseFd fd \<Rightarrow> open_fds os h - {#fd#}
      | _ \<Rightarrow> open_fds os h)"

fun mappings :: "os \<Rightarrow> history \<Rightarrow> (int \<times> size_t) multiset" where
  "mappings os [] = {#}"
| "mappings os (c # h) =
     (case c of
        Mmap n _ \<Rightarrow> (if 0 \<le> os (c # h) then add_mset (os (c # h), n) (mappings os h) else mappings os h)
      | Munmap a n \<Rightarrow> mappings os h - {#(a, n)#}
      | _ \<Rightarrow> mappings os h)"

definition seg_fds :: "shm_segment \<Rightarrow> int multiset" where
  "seg_fds s = (if 0 \<le> sh_fd s then {#sh_fd s#} else {#})"

definition seg_maps :: "shm_segment \<Rightarrow> (int \<times> size_t) multiset" where
  "seg_maps s = (case sh_addr s of None \<Rightarrow> {#} | Some a \<Rightarrow> {#(a, sh_size s)#})"

text \<open>Exactly the resources in \<open>F\<close> and \<open>M\<close> are open beside those the handle owns.\<close>

definition owns :: "os \<Rightarrow> int multiset \<Rightarrow> (int \<times> size_t) multiset \<Rightarrow> shm_segment \<Rightarrow> history \<Rightarrow> bool" where
  "owns os F M s h \<longleftrightarrow> open_fds os h = F + seg_fds s \<and> mappings os h = M + seg_maps s"

definition closed_handle :: "shm_segment \<Rightarrow> bool" where
  "closed_handle s \<longleftrightarrow> sh_fd s < 0 \<and> sh_addr s = None"

lemma closed_owns: "closed_handle s \<Longrightarrow> seg_fds s = {#} \<and> seg_maps s = {#}"
  by (auto simp: closed_handle_def seg_fds_def seg_maps_def)

lemma sh_close_owns [model_inv]:
  assumes "owns os F M s h"
  shows "owns os F M (fst (sh_close os s h)) (snd (sh_close os s h)) \<and> closed_handle (fst (sh_close os s h))"
  using assms
  by (cases "sh_addr s") (auto simp: sh_close_def owns_def seg_fds_def seg_maps_def sys_def Let_def closed_handle_def)

lemma sh_map_owns:
  assumes "owns os F M s h" "0 \<le> sh_fd s" "sh_addr s = None" "sh_map os s h = (b, s', h')"
  shows "owns os F M s' h'"
  using assms by (auto simp: sh_map_def owns_def seg_fds_def seg_maps_def sys_def Let_def split: if_splits)

lemma sh_create_owns [model_inv]:
  assumes "owns os F M s h" "closed_handle s" "sh_create os name sz s h = (b, s', h')"
  shows "owns os F M s' h'"
proof -
  let ?n = "normalize_name name"
  let ?h1 = "ShmOpen ?n True # h"
  let ?h2 = "Ftruncate (os ?h1) sz # ?h1"
  let ?s1 = "s\<lparr>sh_name := ?n, sh_size := sz, sh_fd := os ?h1\<rparr>"
  have base: "open_fds os h = F" "mappings os h = M"
    using assms(1,2) closed_owns by (simp_all add: owns_def)
  have "owns os F M ?s1 ?h2" if "0 \<le> os ?h1"
    using that base assms(2) by (simp add: owns_def seg_fds_def seg_maps_def closed_handle_def)
  from sh_map_owns [OF this] assms(2,3) base show ?thesis
    by (auto simp: sh_create_def sys_def Let_def owns_def seg_fds_def seg_maps_def closed_handle_def split: if_splits)
qed

lemma sh_open_owns [model_inv]:
  assumes "owns os F M s h" "closed_handle s" "sh_open os name s h = (b, s', h')"
  shows "owns os F M s' h'"
proof -
  let ?n = "normalize_name name"
  let ?h1 = "ShmOpen ?n False # h"
  let ?h2 = "Fstat (os ?h1) # ?h1"
  let ?s1 = "s\<lparr>sh_name := ?n, sh_fd := os ?h1, sh_size := of_int (os ?h2)\<rparr>"
  have base: "open_fds os h = F" "mappings os h = M"
    using assms(1,2) closed_owns by (simp_all add: owns_def)
  have "owns os F M ?s1 ?h2" if "0 \<le> os ?h1"
    using that base assms(2) by (simp add: owns_def seg_fds_def seg_maps_def closed_handle_def)
  from sh_map_owns [OF this] assms(2,3) base show ?thesis
    by (auto simp: sh_open_def sys_def Let_def owns_def seg_fds_def seg_maps_def closed_handle_def split: if_splits)
qed

lemma owns_closed:
  "closed_handle s \<Longrightarrow> owns os (open_fds os h) (mappings os h) s h"
  by (simp add: owns_def closed_owns)

text \<open>
  C26. No leak on any path: whatever the operating system answers, a handle that was closed,
  then created or opened with or without success and finally destroyed leaves open exactly the
  descriptors and mappings that were open before.
\<close>

theorem segment_no_leak:
  assumes "closed_handle s"
    and "(b, s', h') = sh_create os name sz s h \<or> (b, s', h') = sh_open os name s h"
  shows "open_fds os (snd (sh_close os s' h')) = open_fds os h \<and>
    mappings os (snd (sh_close os s' h')) = mappings os h"
proof -
  have "owns os (open_fds os h) (mappings os h) s' h'"
    using assms sh_create_owns [OF owns_closed] sh_open_owns [OF owns_closed] by metis
  from sh_close_owns [OF this] show ?thesis
    using closed_owns by (auto simp: owns_def)
qed

text \<open>An operating system that always succeeds: descriptor 3, address 4096, size 8192.\<close>

definition os_demo :: os where
  "os_demo h = (case h of ShmOpen _ _ # _ \<Rightarrow> 3 | Mmap _ _ # _ \<Rightarrow> 4096 | Fstat _ # _ \<Rightarrow> 8192 | _ \<Rightarrow> 0)"

definition seg_demo :: shm_segment where
  "seg_demo = \<lparr>sh_name = ''/x'', sh_size = 8192, sh_fd = 3, sh_addr = Some 4096\<rparr>"

definition seg_demo_history :: history where
  "seg_demo_history = [Mmap 8192 3, Fstat 3, ShmOpen ''/x'' False]"

lemma seg_demo_open: "(True, seg_demo, seg_demo_history) = sh_open os_demo ''x'' segment_none []"
  by (simp add: sh_open_def sh_map_def sys_def os_demo_def normalize_name_def Let_def segment_none_def
      seg_demo_def seg_demo_history_def)

lemma closed_none [simp]: "closed_handle segment_none"
  by (simp add: closed_handle_def segment_none_def)

theorem segment_no_leak_witness:
  "open_fds os_demo seg_demo_history = {#3#} \<and>
   open_fds os_demo (snd (sh_close os_demo seg_demo seg_demo_history)) = {#}"
  using segment_no_leak [OF closed_none disjI2 [OF seg_demo_open]]
  by (simp add: seg_demo_history_def os_demo_def)

text \<open>A constructor that throws leaves nothing open either.\<close>

lemma segment_new_throw:
  assumes "segment_new os name sz h = (Inl e, h')"
  shows "open_fds os h' = open_fds os h \<and> mappings os h' = mappings os h"
  using assms
  by (auto simp: segment_new_def sys_def Let_def sh_close_def split: if_splits)

text \<open>
  A handle is not made for reuse: creating a segment on a handle that already holds one
  loses the old descriptor: the system answers with another one, as POSIX requires, and the
  old one is still open when the handle has been closed.
\<close>

theorem segment_reuse_leaks:
  assumes "owns os {#} {#} s h" "0 \<le> sh_fd s" "name \<noteq> []" "sz \<noteq> 0"
    and "sh_create os name sz s h = (b, s', h')"
    and "os (ShmOpen (normalize_name name) True # h) \<notin># open_fds os h"
  shows "sh_fd s \<in># open_fds os (snd (sh_close os s' h'))"
proof -
  let ?fd = "os (ShmOpen (normalize_name name) True # h)"
  have n: "normalize_name name \<noteq> []" using assms(3) by (simp add: normalize_name_def)
  have "open_fds os h = {#sh_fd s#}" using assms(1,2) by (simp add: owns_def seg_fds_def)
  with assms(4,5,6) n show ?thesis
    by (auto simp: sh_create_def sh_map_def sh_close_def sys_def Let_def split: if_splits option.splits)
qed

theorem segment_reuse_leaks_witness:
  "3 \<in># open_fds (\<lambda>h. int (length h) + 2) (snd (sh_close (\<lambda>h. int (length h) + 2)
     \<lparr>sh_name = ''/y'', sh_size = 8, sh_fd = -1, sh_addr = None\<rparr>
     [CloseFd 4, Ftruncate 4 8, ShmOpen ''/y'' True, ShmOpen ''/x'' False]))"
proof -
  let ?os = "\<lambda>h. int (length h) + 2"
  let ?s = "\<lparr>sh_name = ''/x'', sh_size = 0, sh_fd = 3, sh_addr = None\<rparr>"
  have own: "owns ?os {#} {#} ?s [ShmOpen ''/x'' False]"
    by (simp add: owns_def seg_fds_def seg_maps_def)
  have run: "sh_create ?os ''y'' 8 ?s [ShmOpen ''/x'' False] = (False,
      \<lparr>sh_name = ''/y'', sh_size = 8, sh_fd = -1, sh_addr = None\<rparr>,
      [CloseFd 4, Ftruncate 4 8, ShmOpen ''/y'' True, ShmOpen ''/x'' False])"
    by (simp add: sh_create_def sys_def Let_def normalize_name_def)
  from segment_reuse_leaks [OF own _ _ _ run] show ?thesis by (simp add: normalize_name_def)
qed

text \<open>
  Every handle that was given a name removes the segment from the system when it is
  closed, also a consumer's handle and one whose \<open>open\<close> failed: the publisher's segment can no
  longer be opened by anyone else.
\<close>

theorem segment_close_unlinks:
  assumes "sh_open os name s h = (b, s', h')" "name \<noteq> []"
  shows "hd (snd (sh_close os s' h')) = ShmUnlink (normalize_name name)"
proof -
  have n: "normalize_name name \<noteq> []" using assms(2) by (simp add: normalize_name_def)
  with assms(1) have "sh_name s' = normalize_name name"
    by (auto simp: sh_open_def sh_map_def sys_def Let_def split: if_splits)
  with n show ?thesis by (simp add: sh_close_def sys_def Let_def)
qed

theorem segment_close_unlinks_witness:
  "hd (snd (sh_close os_demo seg_demo seg_demo_history)) = ShmUnlink ''/x''"
  using segment_close_unlinks [OF seg_demo_open [symmetric]] by (simp add: normalize_name_def)

text \<open>Moving passes the resources on: the source owns nothing and unlinks nothing.\<close>

lemma sh_move_owns:
  "owns os F M s h \<Longrightarrow> sh_move s = (t, r) \<Longrightarrow> owns os F M t h \<and> closed_handle r \<and> sh_close os r h = (r, h)"
  by (auto simp: sh_move_def sh_moved_from_def closed_handle_def sh_close_def)

lemma sh_move_assign_owns:
  assumes "owns os (F + seg_fds other) (M + seg_maps other) s h"
    and "sh_move_assign os s other h = (t, r, h')"
  shows "owns os F M t h'"
proof -
  from assms(2) have t: "t = other" "h' = snd (sh_close os s h)"
    by (auto simp: sh_move_assign_def case_prod_beta Let_def)
  with sh_close_owns [OF assms(1)] closed_owns show ?thesis by (auto simp: owns_def)
qed

lemma normalize_idem: "normalize_name (normalize_name n) = normalize_name n"
  by (simp add: normalize_name_def)

end
