(* ===== verification/ShmChannel.thy ===== *)
theory ShmChannel
  imports Interfaces Message ShmSegment
begin

text \<open>
  \<open>include/lwipc/shm_channel.hpp\<close> and \<open>src/shm_channel.cpp\<close>: the shared-memory channel, a ring
  of message slots behind a control block that producer and consumer map from the same segment.
  The memory of the segment is the value of type \<open>control_block\<close>; a handle (\<open>shm_channel\<close>) is
  what each process keeps for itself. Calls are modelled one at a time.
\<close>

section \<open>Layout\<close>

definition STATE_EMPTY :: u32 where "STATE_EMPTY = 0"
definition STATE_WRITING :: u32 where "STATE_WRITING = 1"
definition STATE_READY :: u32 where "STATE_READY = 2"
definition STATE_READING :: u32 where "STATE_READING = 3"

lemmas slot_states = STATE_EMPTY_def STATE_WRITING_def STATE_READY_def STATE_READING_def

text \<open>\<open>payload_data\<close> is the flexible array at the end of a slot, \<open>payload_max\<close> bytes long.\<close>

record shm_slot =
  cs_sequence :: u64
  cs_state :: u32
  cs_header :: message_header
  cs_payload :: "byte list"

record control_block =
  cb_version :: u32
  cb_initialized :: bool
  cb_channel_name :: string
  cb_buffer_size :: size_t
  cb_payload_max :: size_t
  cb_slot_size :: size_t
  cb_total_size :: size_t
  cb_head :: size_t
  cb_tail :: size_t
  cb_sent :: u64
  cb_received :: u64
  cb_dropped :: u64
  cb_slots :: "shm_slot list"

text \<open>The sizes of the two structures on the x86-64 ABI.\<close>

definition sizeof_slot :: size_t where "sizeof_slot = 56"
definition sizeof_control :: size_t where "sizeof_control = 144"

text \<open>\<open>get_slot\<close> as an offset into the segment, in wrapping arithmetic.\<close>

definition slot_offset :: "control_block \<Rightarrow> size_t \<Rightarrow> size_t" where
  "slot_offset cb i = sizeof_control + i * cb_slot_size cb"

record channel_config =
  cc_name :: string
  cc_buffer_size :: size_t
  cc_payload_max :: size_t
  cc_qos :: qos_profile

definition config_default :: channel_config where
  "config_default = \<lparr>cc_name = [], cc_buffer_size = 4096, cc_payload_max = 65536, cc_qos = qos_default\<rparr>"

record shm_channel =
  sc_config :: channel_config
  sc_shm :: shm_segment
  sc_attached :: bool
  sc_is_creator :: bool
  sc_local_sequence :: u64

section \<open>Creating, opening and destroying\<close>

definition channel_slot_size :: "channel_config \<Rightarrow> size_t" where
  "channel_slot_size config = sizeof_slot + cc_payload_max config"

definition channel_total_size :: "channel_config \<Rightarrow> size_t" where
  "channel_total_size config = sizeof_control + cc_buffer_size config * channel_slot_size config"

text \<open>\<open>strncpy\<close> into 64 zeroed bytes: at most 63 characters, up to the first NUL.\<close>

definition stored_name :: "string \<Rightarrow> string" where
  "stored_name name = take 63 (takeWhile (\<lambda>c. c \<noteq> CHR 0x00) name)"

text \<open>What the creator writes; headers and payloads keep what the segment held before.\<close>

definition fresh_control :: "channel_config \<Rightarrow> (nat \<Rightarrow> shm_slot) \<Rightarrow> control_block" where
  "fresh_control config old =
     \<lparr>cb_version = 1, cb_initialized = True, cb_channel_name = stored_name (cc_name config),
      cb_buffer_size = cc_buffer_size config, cb_payload_max = cc_payload_max config,
      cb_slot_size = channel_slot_size config, cb_total_size = channel_total_size config,
      cb_head = 0, cb_tail = 0, cb_sent = 0, cb_received = 0, cb_dropped = 0,
      cb_slots = map (\<lambda>i. (old i)\<lparr>cs_sequence := 0, cs_state := STATE_EMPTY\<rparr>)
        [0..<unat (cc_buffer_size config)]\<rparr>"

definition channel_destroy :: "os \<Rightarrow> shm_channel \<Rightarrow> control_block \<Rightarrow> history \<Rightarrow> shm_channel \<times> control_block \<times> history"
where
  "channel_destroy os c cb h =
     (let cb' = (if sc_attached c then cb\<lparr>cb_initialized := False\<rparr> else cb);
          (seg, h') = sh_close os (sc_shm c) h
      in (c\<lparr>sc_shm := seg\<rparr>, cb', h'))"

text \<open>The destructor, followed by that of the member \<open>shm_\<close>.\<close>

definition channel_delete :: "os \<Rightarrow> shm_channel \<Rightarrow> control_block \<Rightarrow> history \<Rightarrow> control_block \<times> history" where
  "channel_delete os c cb h =
     (let (c1, cb1, h1) = (if sc_is_creator c then channel_destroy os c cb h else (c, cb, h))
      in (cb1, snd (sh_close os (sc_shm c1) h1)))"

text \<open>
  \<open>create\<close> and \<open>open\<close>; when they fail the half-made channel is deleted on return. The memory
  that \<open>open\<close> finds behind the name is its argument \<open>cb\<close>.
\<close>

definition channel_create ::
  "os \<Rightarrow> channel_config \<Rightarrow> control_block \<Rightarrow> (nat \<Rightarrow> shm_slot) \<Rightarrow> history \<Rightarrow> shm_channel option \<times> control_block \<times> history"
where
  "channel_create os config cb old h =
     (let (ok, seg, h1) = sh_create os (''/lwipc_'' @ cc_name config) (channel_total_size config) segment_none h;
          c = \<lparr>sc_config = config, sc_shm = seg, sc_attached = ok, sc_is_creator = True, sc_local_sequence = 0\<rparr>
      in if ok then (Some c, fresh_control config old, h1)
         else let (cb', h2) = channel_delete os c cb h1 in (None, cb', h2))"

definition channel_open ::
  "os \<Rightarrow> string \<Rightarrow> control_block \<Rightarrow> history \<Rightarrow> shm_channel option \<times> control_block \<times> history" where
  "channel_open os name cb h =
     (let (ok, seg, h1) = sh_open os (''/lwipc_'' @ name) segment_none h;
          config = config_default\<lparr>cc_name := name\<rparr>;
          c = \<lparr>sc_config = config, sc_shm = seg, sc_attached = ok, sc_is_creator = False, sc_local_sequence = 0\<rparr>
      in if ok \<and> cb_channel_name cb = name
         then (Some (c\<lparr>sc_config := config\<lparr>cc_buffer_size := cb_buffer_size cb, cc_payload_max := cb_payload_max cb\<rparr>\<rparr>),
               cb, h1)
         else let (cb', h2) = channel_delete os c cb h1 in (None, cb', h2))"

section \<open>Publishing\<close>

datatype shm_fault = DivideByZero | SlotOutOfRange

text \<open>
  \<open>publish\<close>, with the clock reading \<open>now\<close>. The sequence number it hands out is the new
  \<open>local_sequence_\<close>. The header's \<open>abi_version\<close> is not written.
\<close>

definition slot_written :: "u64 \<Rightarrow> u64 \<Rightarrow> byte list \<Rightarrow> shm_slot \<Rightarrow> shm_slot" where
  "slot_written now seq data s =
     s\<lparr>cs_header := (cs_header s)\<lparr>mh_topic_id := 0, mh_sequence := seq, mh_timestamp_ns := now,
           mh_payload_len := of_nat (length data), mh_crc32 := 0, mh_flags := 0\<rparr>,
       cs_payload := data @ drop (length data) (cs_payload s),
       cs_sequence := seq, cs_state := STATE_READY\<rparr>"

definition channel_publish ::
  "u64 \<Rightarrow> byte list \<Rightarrow> shm_channel \<Rightarrow> control_block \<Rightarrow> shm_fault + (bool \<times> shm_channel \<times> control_block)" where
  "channel_publish now data c cb =
     (if \<not> sc_attached c \<or> \<not> cb_initialized cb then Inr (False, c, cb)
      else if length data > unat (cc_payload_max (sc_config c)) then Inr (False, c, cb)
      else if cb_buffer_size cb = 0 then Inl DivideByZero
      else let head = cb_head cb; next = (head + 1) mod cb_buffer_size cb in
        if next = cb_tail cb then Inr (False, c, cb\<lparr>cb_dropped := cb_dropped cb + 1\<rparr>)
        else if length (cb_slots cb) \<le> unat head then Inl SlotOutOfRange
        else let s = cb_slots cb ! unat head in
          if cs_state s \<noteq> STATE_EMPTY then Inr (False, c, cb\<lparr>cb_dropped := cb_dropped cb + 1\<rparr>)
          else let seq = sc_local_sequence c + 1 in
            Inr (True, c\<lparr>sc_local_sequence := seq\<rparr>,
              cb\<lparr>cb_slots := (cb_slots cb)[unat head := slot_written now seq data s],
                 cb_head := next, cb_sent := cb_sent cb + 1\<rparr>))"

section \<open>Consuming\<close>

text \<open>
  The callback sees the message and may change the shared memory and the rest of the world; it
  may throw. One pass of the loop ends it, delivers a message, or lets an exception out before
  the slot has been released.
\<close>

datatype 'e pass_result = Idle | Passed | Raised 'e

definition slot_view :: "shm_slot \<Rightarrow> message_view" where
  "slot_view s = \<lparr>mv_header = cs_header s, mv_payload = take (unat (mh_payload_len (cs_header s))) (cs_payload s)\<rparr>"

definition slot_state_set :: "nat \<Rightarrow> u32 \<Rightarrow> control_block \<Rightarrow> control_block" where
  "slot_state_set i st cb = cb\<lparr>cb_slots := (cb_slots cb)[i := (cb_slots cb ! i)\<lparr>cs_state := st\<rparr>]\<rparr>"

definition consume_pass ::
  "(message_view \<Rightarrow> control_block \<times> 'w \<Rightarrow> 'e option \<times> (control_block \<times> 'w)) \<Rightarrow> control_block \<times> 'w \<Rightarrow>
     shm_fault + ('e pass_result \<times> (control_block \<times> 'w))" where
  "consume_pass call s =
     (let cb = fst s; tail = cb_tail cb in
      if tail = cb_head cb then Inr (Idle, s)
      else if length (cb_slots cb) \<le> unat tail then Inl SlotOutOfRange
      else if cs_state (cb_slots cb ! unat tail) \<noteq> STATE_READY then Inr (Idle, s)
      else case call (slot_view (cb_slots cb ! unat tail)) s of
          (Some e, s') \<Rightarrow> Inr (Raised e, s')
        | (None, (cb1, w)) \<Rightarrow>
            if cb_buffer_size cb1 = 0 then Inl DivideByZero
            else let cb2 = slot_state_set (unat tail) STATE_READING cb1;
                     cb3 = cb2\<lparr>cb_tail := (tail + 1) mod cb_buffer_size cb2\<rparr>;
                     cb4 = slot_state_set (unat tail) STATE_EMPTY cb3
                 in Inr (Passed, (cb4\<lparr>cb_received := cb_received cb4 + 1\<rparr>, w)))"

text \<open>A callback that publishes can keep the loop busy for ever.\<close>

partial_function (option) consume_loop ::
  "(message_view \<Rightarrow> control_block \<times> 'w \<Rightarrow> 'e option \<times> (control_block \<times> 'w)) \<Rightarrow> size_t \<Rightarrow> control_block \<times> 'w \<Rightarrow>
     (shm_fault + ('e option \<times> size_t \<times> (control_block \<times> 'w))) option" where
  "consume_loop call n s =
     (case consume_pass call s of
        Inl f \<Rightarrow> Some (Inl f)
      | Inr (r, s') \<Rightarrow>
          (case r of
             Idle \<Rightarrow> Some (Inr (None, n, s'))
           | Raised e \<Rightarrow> Some (Inr (Some e, n, s'))
           | Passed \<Rightarrow> consume_loop call (n + 1) s'))"

definition channel_consume ::
  "(message_view \<Rightarrow> control_block \<times> 'w \<Rightarrow> 'e option \<times> (control_block \<times> 'w)) \<Rightarrow> shm_channel \<Rightarrow> control_block \<times> 'w \<Rightarrow>
     (shm_fault + ('e option \<times> size_t \<times> (control_block \<times> 'w))) option" where
  "channel_consume call c s =
     (if \<not> sc_attached c \<or> \<not> cb_initialized (fst s) then Some (Inr (None, 0, s))
      else consume_loop call 0 s)"

section \<open>Observers\<close>

definition messages_sent :: "shm_channel \<Rightarrow> control_block \<Rightarrow> u64" where
  "messages_sent c cb = (if sc_attached c then cb_sent cb else 0)"

definition messages_received :: "shm_channel \<Rightarrow> control_block \<Rightarrow> u64" where
  "messages_received c cb = (if sc_attached c then cb_received cb else 0)"

definition messages_dropped :: "shm_channel \<Rightarrow> control_block \<Rightarrow> u64" where
  "messages_dropped c cb = (if sc_attached c then cb_dropped cb else 0)"

definition channel_is_initialized :: "shm_channel \<Rightarrow> control_block \<Rightarrow> bool" where
  "channel_is_initialized c cb \<longleftrightarrow> sc_attached c \<and> cb_initialized cb"

text \<open>
  The polling loop: each element is the time elapsed when the loop condition is evaluated and
  the memory found if the loop is entered. \<open>None\<close>: still waiting at the end of the list.
\<close>

fun wait_for_initialization :: "int \<Rightarrow> shm_channel \<Rightarrow> (int \<times> control_block) list \<Rightarrow> bool option" where
  "wait_for_initialization timeout c [] = None"
| "wait_for_initialization timeout c ((elapsed, cb) # polls) =
     (if elapsed < timeout then
        (if channel_is_initialized c cb then Some True else wait_for_initialization timeout c polls)
      else Some False)"

end
