(* ===== verification/ShmQueue.thy ===== *)
theory ShmQueue
  imports ShmChannel
begin

text \<open>
  The shared-memory channel as a bounded queue: the invariant of the control block, that
  publishing and consuming keep it, the interpretation of the queue interface, and what the
  interface gives for whole calls of \<open>publish\<close> and \<open>consume\<close>.
\<close>

section \<open>Invariant and abstraction\<close>

abbreviation slots_n :: "control_block \<Rightarrow> nat" where "slots_n cb \<equiv> unat (cb_buffer_size cb)"
abbreviation head_n :: "control_block \<Rightarrow> nat" where "head_n cb \<equiv> unat (cb_head cb)"
abbreviation tail_n :: "control_block \<Rightarrow> nat" where "tail_n cb \<equiv> unat (cb_tail cb)"

definition pending :: "control_block \<Rightarrow> nat" where
  "pending cb = ring_count (slots_n cb) (tail_n cb) (head_n cb)"

definition views :: "control_block \<Rightarrow> message_view list" where
  "views cb = ring_view (slots_n cb) (tail_n cb) (head_n cb) (nth (map slot_view (cb_slots cb)))"

definition slot_ok :: "control_block \<Rightarrow> nat \<Rightarrow> bool" where
  "slot_ok cb k \<longleftrightarrow> cs_state (cb_slots cb ! ((tail_n cb + k) mod slots_n cb)) =
     (if k < pending cb then STATE_READY else STATE_EMPTY)"

definition shm_wf :: "shm_channel \<times> control_block \<Rightarrow> bool" where
  "shm_wf q \<longleftrightarrow> (case q of (c, cb) \<Rightarrow>
     sc_attached c \<and> cb_initialized cb \<and> 0 < slots_n cb \<and> length (cb_slots cb) = slots_n cb \<and>
     head_n cb < slots_n cb \<and> tail_n cb < slots_n cb \<and>
     cc_payload_max (sc_config c) = cb_payload_max cb \<and> unat (cb_payload_max cb) < 2 ^ 32 \<and>
     (\<forall>s \<in> set (cb_slots cb). length (cs_payload s) = unat (cb_payload_max cb)) \<and>
     cb_sent cb = cb_received cb + of_nat (pending cb) \<and>
     (\<forall>k < slots_n cb. slot_ok cb k))"

text \<open>Any handle that is attached and has the payload size of the segment will do.\<close>

lemma shm_wf_handle:
  "shm_wf (c, cb) \<Longrightarrow> sc_attached c' \<Longrightarrow> cc_payload_max (sc_config c') = cc_payload_max (sc_config c) \<Longrightarrow> shm_wf (c', cb)"
  by (simp add: shm_wf_def)

definition shm_items :: "shm_channel \<times> control_block \<Rightarrow> byte list list" where
  "shm_items q = map mv_payload (views (snd q))"

definition shm_limit :: "shm_channel \<times> control_block \<Rightarrow> nat" where
  "shm_limit q = slots_n (snd q) - 1"

definition shm_fits :: "shm_channel \<times> control_block \<Rightarrow> byte list \<Rightarrow> bool" where
  "shm_fits q data \<longleftrightarrow> length data \<le> unat (cc_payload_max (sc_config (fst q)))"

lemma length_views [simp]: "length (views cb) = pending cb"
  by (simp add: views_def pending_def)

lemma views_empty_iff: "views cb = [] \<longleftrightarrow> pending cb = 0"
  by (metis length_0_conv length_views)

lemma unat_next:
  assumes "unat (i :: size_t) < unat n"
  shows "unat ((i + 1) mod n) = Suc (unat i) mod unat n"
proof -
  have "unat n < 2 ^ LENGTH(64)" by (rule unsigned_less)
  with assms have "Suc (unat i) < 2 ^ 64" by simp
  moreover from this have "Suc (unat i) mod unat n < 2 ^ 64" by (rule le_less_trans [OF mod_less_eq_dividend])
  ultimately show ?thesis by (simp add: unat_word_ariths unat_mod_distrib)
qed

lemma next_eq_iff:
  "unat (i :: size_t) < unat n \<Longrightarrow> (i + 1) mod n = j \<longleftrightarrow> Suc (unat i) mod unat n = unat j"
  by (simp add: word_unat_eq_iff unat_next)

section \<open>Publishing\<close>

lemma publish_too_large:
  "shm_wf (c, cb) \<Longrightarrow> \<not> shm_fits (c, cb) data \<Longrightarrow> channel_publish now data c cb = Inr (False, c, cb)"
  by (simp add: channel_publish_def shm_fits_def)

lemma publish_full:
  assumes "shm_wf (c, cb)" "shm_fits (c, cb) data" "pending cb = slots_n cb - 1"
  shows "channel_publish now data c cb = Inr (False, c, cb\<lparr>cb_dropped := cb_dropped cb + 1\<rparr>)"
proof -
  have b: "tail_n cb < slots_n cb" "head_n cb < slots_n cb" using assms(1) by (auto simp: shm_wf_def)
  have "(cb_head cb + 1) mod cb_buffer_size cb = cb_tail cb"
    using assms(3) b by (simp add: next_eq_iff ring_full_iff pending_def)
  with assms(1,2) show ?thesis
    by (auto simp: channel_publish_def shm_fits_def shm_wf_def Let_def)
qed

definition published :: "u64 \<Rightarrow> byte list \<Rightarrow> shm_channel \<times> control_block \<Rightarrow> shm_channel \<times> control_block" where
  "published now data q = (case q of (c, cb) \<Rightarrow> let seq = sc_local_sequence c + 1 in
     (c\<lparr>sc_local_sequence := seq\<rparr>,
      cb\<lparr>cb_slots := (cb_slots cb)[head_n cb := slot_written now seq data (cb_slots cb ! head_n cb)],
         cb_head := (cb_head cb + 1) mod cb_buffer_size cb, cb_sent := cb_sent cb + 1\<rparr>))"

lemma publish_room:
  assumes "shm_wf (c, cb)" "shm_fits (c, cb) data" "pending cb < slots_n cb - 1"
  shows "channel_publish now data c cb = Inr (True, published now data (c, cb))"
proof -
  have b: "tail_n cb < slots_n cb" "head_n cb < slots_n cb" using assms(1) by (auto simp: shm_wf_def)
  have "(cb_head cb + 1) mod cb_buffer_size cb \<noteq> cb_tail cb"
    using assms(3) b by (simp add: next_eq_iff ring_full_iff pending_def)
  moreover have "slot_ok cb (pending cb)" using assms(1,3) by (simp add: shm_wf_def)
  then have "cs_state (cb_slots cb ! head_n cb) = STATE_EMPTY"
    using b by (simp add: slot_ok_def pending_def ring_head_pos)
  ultimately show ?thesis using assms(1,2)
    by (auto simp: channel_publish_def published_def shm_fits_def shm_wf_def Let_def)
qed

definition written_view :: "u64 \<Rightarrow> u64 \<Rightarrow> byte list \<Rightarrow> shm_slot \<Rightarrow> message_view" where
  "written_view now seq data s =
     \<lparr>mv_header = \<lparr>mh_topic_id = 0, mh_sequence = seq, mh_timestamp_ns = now, mh_payload_len = of_nat (length data),
        mh_crc32 = 0, mh_flags = 0, mh_abi_version = mh_abi_version (cs_header s)\<rparr>, mv_payload = data\<rparr>"

lemma slot_view_written:
  "length data < 2 ^ 32 \<Longrightarrow> slot_view (slot_written now seq data s) = written_view now seq data s"
  by (cases "cs_header s") (simp add: slot_view_def slot_written_def written_view_def unat_of_nat_small)

lemma pending_published:
  assumes "shm_wf (c, cb)" "pending cb < slots_n cb - 1"
  shows "pending (snd (published now data (c, cb))) = Suc (pending cb)"
proof -
  have b: "tail_n cb < slots_n cb" "head_n cb < slots_n cb" using assms(1) by (auto simp: shm_wf_def)
  then have "Suc (head_n cb) mod slots_n cb \<noteq> tail_n cb"
    using assms(2) by (simp add: ring_full_iff pending_def)
  with ring_count_push [OF b] b show ?thesis by (simp add: pending_def published_def Let_def unat_next)
qed

lemma views_published:
  assumes "shm_wf (c, cb)" "shm_fits (c, cb) data" "pending cb < slots_n cb - 1"
  shows "views (snd (published now data (c, cb)))
       = views cb @ [written_view now (sc_local_sequence c + 1) data (cb_slots cb ! head_n cb)]"
proof -
  let ?n = "slots_n cb" and ?h = "head_n cb" and ?t = "tail_n cb"
  let ?v = "written_view now (sc_local_sequence c + 1) data (cb_slots cb ! ?h)"
  have b: "?t < ?n" "?h < ?n" "length (cb_slots cb) = ?n" using assms(1) by (auto simp: shm_wf_def)
  have ne: "Suc ?h mod ?n \<noteq> ?t" using assms(3) b by (simp add: ring_full_iff pending_def)
  have "length data < 2 ^ 32" using assms(1,2) by (auto simp: shm_wf_def shm_fits_def)
  then have "views (snd (published now data (c, cb)))
      = ring_view ?n ?t (Suc ?h mod ?n) (nth ((map slot_view (cb_slots cb))[?h := ?v]))"
    using b by (simp add: views_def published_def Let_def map_update slot_view_written unat_next)
  also have "\<dots> = ring_view ?n ?t (Suc ?h mod ?n) ((nth (map slot_view (cb_slots cb)))(?h := ?v))"
    using b by (intro ring_view_list_update) auto
  also have "\<dots> = views cb @ [?v]"
    using b by (simp add: ring_view_push [OF b(1,2) ne] views_def)
  finally show ?thesis .
qed

lemma ring_pos_inj:
  assumes "t < n" "j < n" "k < n" "(t + j) mod n = (t + k) mod n"
  shows "j = (k :: nat)"
  using mod_window_inj [of t "t + j" n "t + k"] assms by simp

lemma published_wf [model_inv]:
  assumes "shm_wf (c, cb)" "shm_fits (c, cb) data" "pending cb < slots_n cb - 1"
  shows "shm_wf (published now data (c, cb))"
proof -
  let ?q = "published now data (c, cb)"
  let ?cb = "snd ?q"
  note wf = assms(1) [unfolded shm_wf_def prod.case]
  have b: "tail_n cb < slots_n cb" "head_n cb < slots_n cb" using wf by auto
  have same: "slots_n ?cb = slots_n cb" "tail_n ?cb = tail_n cb" "cb_received ?cb = cb_received cb"
    "cb_payload_max ?cb = cb_payload_max cb" "cb_initialized ?cb = cb_initialized cb"
    "sc_attached (fst ?q) = sc_attached c" "sc_config (fst ?q) = sc_config c"
    and new: "cb_sent ?cb = cb_sent cb + 1" "head_n ?cb = Suc (head_n cb) mod slots_n cb"
    "cb_slots ?cb = (cb_slots cb)[head_n cb := slot_written now (sc_local_sequence c + 1) data (cb_slots cb ! head_n cb)]"
    using b by (simp_all add: published_def Let_def unat_next)
  have count: "pending ?cb = Suc (pending cb)" by (rule pending_published [OF assms(1,3)])
  have "slot_ok ?cb k" if k: "k < slots_n cb" for k
  proof (cases "k = pending cb")
    case True
    with b wf show ?thesis
      by (simp add: slot_ok_def same new count slot_written_def) (simp add: pending_def ring_head_pos)
  next
    case False
    have "(tail_n cb + k) mod slots_n cb \<noteq> head_n cb"
      using ring_pos_inj [OF b(1) k, of "pending cb"] ring_head_pos [OF b] False ring_count_less [of "slots_n cb"] wf
      by (auto simp: pending_def)
    moreover have "slot_ok cb k" using wf k by blast
    ultimately show ?thesis using False wf b by (auto simp: slot_ok_def same new count)
  qed
  moreover have "length (cs_payload s) = unat (cb_payload_max cb)" if "s \<in> set (cb_slots ?cb)" for s
  proof -
    have "cb_slots cb ! head_n cb \<in> set (cb_slots cb)" using wf b by simp
    then have "length (cs_payload (slot_written now i data (cb_slots cb ! head_n cb))) = unat (cb_payload_max cb)" for i
      using wf assms(2) by (auto simp: slot_written_def shm_fits_def)
    with that wf show ?thesis
      using set_update_subset_insert [of "cb_slots cb" "head_n cb"] by (auto simp: new)
  qed
  ultimately have "shm_wf (fst ?q, ?cb)"
    using wf b unfolding shm_wf_def prod.case by (simp add: same new count)
  then show ?thesis by simp
qed

section \<open>One pass of the consumer\<close>

lemma pass_idle:
  assumes "shm_wf (c, cb)" "pending cb = 0"
  shows "consume_pass call (cb, w) = Inr (Idle, (cb, w))"
proof -
  have "cb_tail cb = cb_head cb"
    using assms by (auto simp: shm_wf_def pending_def ring_count_zero word_unat_eq_iff)
  then show ?thesis by (simp add: consume_pass_def Let_def)
qed

definition released :: "control_block \<Rightarrow> control_block" where
  "released cb = cb\<lparr>cb_slots := (cb_slots cb)[tail_n cb := (cb_slots cb ! tail_n cb)\<lparr>cs_state := STATE_EMPTY\<rparr>],
     cb_tail := (cb_tail cb + 1) mod cb_buffer_size cb, cb_received := cb_received cb + 1\<rparr>"

lemma pass_item:
  assumes "shm_wf (c, cb)" "0 < pending cb"
  shows "consume_pass call (cb, w) =
    (case call (hd (views cb)) (cb, w) of
       (Some e, s') \<Rightarrow> Inr (Raised e, s')
     | (None, (cb1, w')) \<Rightarrow> if cb1 = cb then Inr (Passed, (released cb, w')) else consume_pass call (cb, w))"
proof -
  note wf = assms(1) [unfolded shm_wf_def prod.case]
  have b: "tail_n cb < slots_n cb" "head_n cb < slots_n cb" using wf by auto
  have ne: "tail_n cb \<noteq> head_n cb" using assms(2) b by (auto simp: pending_def ring_count_alt)
  have "slot_ok cb 0" using wf by blast
  then have "cs_state (cb_slots cb ! tail_n cb) = STATE_READY"
    using b assms(2) by (simp add: slot_ok_def)
  moreover have "hd (views cb) = slot_view (cb_slots cb ! tail_n cb)"
    using ring_view_pop [OF b ne, of "nth (map slot_view (cb_slots cb))"] wf b by (simp add: views_def)
  moreover have "cb_tail cb \<noteq> cb_head cb" "cb_buffer_size cb \<noteq> 0" using ne wf by auto
  ultimately show ?thesis using wf b
    by (auto simp: consume_pass_def Let_def slot_state_set_def released_def not_le split: prod.split option.split)
qed

lemma pending_released:
  assumes "shm_wf (c, cb)" "0 < pending cb"
  shows "pending cb = Suc (pending (released cb))"
proof -
  have b: "tail_n cb < slots_n cb" "head_n cb < slots_n cb" using assms(1) by (auto simp: shm_wf_def)
  then have "tail_n cb \<noteq> head_n cb" using assms(2) by (auto simp: pending_def ring_count_alt)
  from ring_count_pop [OF b this] b show ?thesis by (simp add: pending_def released_def unat_next)
qed

lemma views_released:
  assumes "shm_wf (c, cb)" "0 < pending cb"
  shows "views cb = hd (views cb) # views (released cb)"
proof -
  let ?n = "slots_n cb" and ?h = "head_n cb" and ?t = "tail_n cb" and ?xs = "map slot_view (cb_slots cb)"
  have b: "?t < ?n" "?h < ?n" "length (cb_slots cb) = ?n" using assms(1) by (auto simp: shm_wf_def)
  have ne: "?t \<noteq> ?h" using assms(2) b by (auto simp: pending_def ring_count_alt)
  have "slot_view ((cb_slots cb ! ?t)\<lparr>cs_state := STATE_EMPTY\<rparr>) = slot_view (cb_slots cb ! ?t)"
    by (simp add: slot_view_def)
  then have "map slot_view ((cb_slots cb)[?t := (cb_slots cb ! ?t)\<lparr>cs_state := STATE_EMPTY\<rparr>]) = ?xs"
    by (metis list_update_id map_update)
  then have "views (released cb) = ring_view ?n (Suc ?t mod ?n) ?h (nth ?xs)"
    using b by (simp add: views_def released_def unat_next)
  with ring_view_pop [OF b(1,2) ne, of "nth ?xs"] show ?thesis by (simp add: views_def)
qed

lemma released_wf [model_inv]:
  assumes "shm_wf (c, cb)" "0 < pending cb"
  shows "shm_wf (c, released cb)"
proof -
  let ?cb = "released cb"
  note wf = assms(1) [unfolded shm_wf_def prod.case]
  have b: "tail_n cb < slots_n cb" "head_n cb < slots_n cb" using wf by auto
  have same: "slots_n ?cb = slots_n cb" "head_n ?cb = head_n cb" "cb_sent ?cb = cb_sent cb"
    "cb_payload_max ?cb = cb_payload_max cb" "cb_initialized ?cb = cb_initialized cb"
    and new: "cb_received ?cb = cb_received cb + 1" "tail_n ?cb = Suc (tail_n cb) mod slots_n cb"
    "cb_slots ?cb = (cb_slots cb)[tail_n cb := (cb_slots cb ! tail_n cb)\<lparr>cs_state := STATE_EMPTY\<rparr>]"
    using b by (simp_all add: released_def unat_next)
  have count: "pending cb = Suc (pending ?cb)" by (rule pending_released [OF assms])
  have "pending cb < slots_n cb" using wf by (simp add: pending_def ring_count_less)
  have "slot_ok ?cb k" if k: "k < slots_n cb" for k
  proof -
    have pos: "(tail_n ?cb + k) mod slots_n cb = (tail_n cb + Suc k) mod slots_n cb"
      by (simp add: new mod_simps)
    show ?thesis
    proof (cases "Suc k = slots_n cb")
      case True
      then have "(tail_n cb + Suc k) mod slots_n cb = tail_n cb" using b by simp
      with True count \<open>pending cb < slots_n cb\<close> wf b show ?thesis
        unfolding slot_ok_def same(1) pos by (simp add: new(3))
    next
      case False
      with k have k': "Suc k < slots_n cb" by simp
      have "(tail_n cb + Suc k) mod slots_n cb \<noteq> tail_n cb"
        using ring_pos_inj [OF b(1) k', of 0] b by auto
      moreover have "slot_ok cb (Suc k)" using wf k' by blast
      ultimately show ?thesis using count
        unfolding slot_ok_def same(1) pos by (simp add: new(3))
    qed
  qed
  moreover have "length (cs_payload s) = unat (cb_payload_max cb)" if "s \<in> set (cb_slots ?cb)" for s
  proof -
    have "cb_slots cb ! tail_n cb \<in> set (cb_slots cb)" using wf b by simp
    moreover have "s = (cb_slots cb ! tail_n cb)\<lparr>cs_state := STATE_EMPTY\<rparr> \<or> s \<in> set (cb_slots cb)"
      using that set_update_subset_insert [of "cb_slots cb" "tail_n cb"] unfolding new(3) by blast
    ultimately show ?thesis using wf by auto
  qed
  ultimately show ?thesis
    using wf b unfolding shm_wf_def prod.case by (simp add: same new count)
qed

section \<open>The queue interface\<close>

definition shm_enq :: "u64 \<Rightarrow> byte list \<Rightarrow> shm_channel \<times> control_block \<Rightarrow> bool \<times> (shm_channel \<times> control_block)" where
  "shm_enq now data q = (case channel_publish now data (fst q) (snd q) of Inl _ \<Rightarrow> (False, q) | Inr r \<Rightarrow> r)"

text \<open>One pass of the consumer's loop with a callback that keeps what it is given.\<close>

definition collect :: "message_view \<Rightarrow> control_block \<times> message_view list \<Rightarrow>
    unit option \<times> (control_block \<times> message_view list)" where
  "collect v s = (None, (fst s, snd s @ [v]))"

definition shm_deq :: "shm_channel \<times> control_block \<Rightarrow> byte list option \<times> (shm_channel \<times> control_block)" where
  "shm_deq q = (case consume_pass collect (snd q, []) of
      Inr (Passed, (cb, [v])) \<Rightarrow> (Some (mv_payload v), (fst q, cb))
    | _ \<Rightarrow> (None, q))"

lemma collect_item:
  assumes "shm_wf (c, cb)" "0 < pending cb"
  shows "consume_pass collect (cb, vs) = Inr (Passed, (released cb, vs @ [hd (views cb)]))"
  by (simp add: pass_item [OF assms] collect_def)

lemma shm_wf_dropped [simp]: "shm_wf (c, cb\<lparr>cb_dropped := d\<rparr>) = shm_wf (c, cb)"
  by (simp add: shm_wf_def pending_def slot_ok_def)

lemma views_dropped [simp]: "views (cb\<lparr>cb_dropped := d\<rparr>) = views cb"
  by (simp add: views_def)

lemma shm_within: "shm_wf q \<Longrightarrow> length (shm_items q) \<le> shm_limit q"
  using ring_count_less [of "slots_n (snd q)"]
  by (cases q) (auto simp: shm_items_def shm_limit_def shm_wf_def pending_def less_Suc_eq_le [symmetric])

lemma shm_enq_full:
  assumes "shm_wf q" "length (shm_items q) = shm_limit q \<or> \<not> shm_fits q data"
  shows "\<not> fst (shm_enq now data q)" "shm_items (snd (shm_enq now data q)) = shm_items q"
    "shm_wf (snd (shm_enq now data q))" "shm_limit (snd (shm_enq now data q)) = shm_limit q"
  using assms publish_too_large [of "fst q" "snd q" data now] publish_full [of "fst q" "snd q" data now]
  by (cases "shm_fits q data"; cases q; simp add: shm_enq_def shm_items_def shm_limit_def)+

lemma shm_enq_room:
  assumes "shm_wf q" "length (shm_items q) < shm_limit q" "shm_fits q data"
  shows "fst (shm_enq now data q)" "shm_items (snd (shm_enq now data q)) = shm_items q @ [data]"
    "shm_wf (snd (shm_enq now data q))" "shm_limit (snd (shm_enq now data q)) = shm_limit q"
proof -
  obtain c cb where q: "q = (c, cb)" by fastforce
  have wf: "shm_wf (c, cb)" and fits: "shm_fits (c, cb) data" and room: "pending cb < slots_n cb - 1"
    using assms q by (simp_all add: shm_items_def shm_limit_def)
  have run: "shm_enq now data q = (True, published now data (c, cb))"
    by (simp add: q shm_enq_def publish_room [OF wf fits room])
  then show "fst (shm_enq now data q)" "shm_wf (snd (shm_enq now data q))"
    by (simp_all add: published_wf [OF wf fits room])
  show "shm_items (snd (shm_enq now data q)) = shm_items q @ [data]"
    unfolding run by (simp add: shm_items_def views_published [OF wf fits room] written_view_def q)
  show "shm_limit (snd (shm_enq now data q)) = shm_limit q"
    unfolding run by (simp add: shm_limit_def published_def Let_def q)
qed

lemma shm_deq_none: "shm_wf q \<Longrightarrow> shm_items q = [] \<Longrightarrow> shm_deq q = (None, q)"
  using pass_idle [of "fst q" "snd q" collect "[]"]
  by (cases q) (simp add: shm_deq_def shm_items_def flip: length_0_conv)

lemma shm_deq_some:
  assumes "shm_wf q" "shm_items q = y # ys"
  shows "fst (shm_deq q) = Some y" "shm_items (snd (shm_deq q)) = ys"
    "shm_wf (snd (shm_deq q))" "shm_limit (snd (shm_deq q)) = shm_limit q"
proof -
  obtain c cb where q: "q = (c, cb)" by fastforce
  have "length (shm_items q) = pending cb" by (simp add: shm_items_def q)
  then have wf: "shm_wf (c, cb)" and pos: "0 < pending cb" using assms q by simp_all
  have run: "shm_deq q = (Some (mv_payload (hd (views cb))), (c, released cb))"
    by (simp add: shm_deq_def q collect_item [OF wf pos])
  have "y # ys = mv_payload (hd (views cb)) # map mv_payload (views (released cb))"
    using assms(2) views_released [OF wf pos] by (metis list.simps(9) q shm_items_def snd_conv)
  with run show "fst (shm_deq q) = Some y" "shm_items (snd (shm_deq q)) = ys"
    by (simp_all add: shm_items_def)
  show "shm_wf (snd (shm_deq q))" "shm_limit (snd (shm_deq q)) = shm_limit q"
    unfolding run by (simp_all add: released_wf [OF wf pos] shm_limit_def q) (simp add: released_def)
qed

interpretation shq: bounded_queue "shm_enq now" shm_deq shm_items shm_limit "\<lambda>_. shm_wf" shm_fits
proof
  fix q data y ys
  assume wf: "shm_wf q"
  show "length (shm_items q) \<le> shm_limit q" by (rule shm_within [OF wf])
  show "shm_wf (snd (shm_enq now data q)) \<and> shm_limit (snd (shm_enq now data q)) = shm_limit q"
    using shm_enq_room(3,4) [OF wf] shm_enq_full(3,4) [OF wf] shm_within [OF wf]
    by (metis nat_less_le)
  show "shm_wf (snd (shm_deq q)) \<and> shm_limit (snd (shm_deq q)) = shm_limit q"
    using shm_deq_some(3,4) [OF wf] shm_deq_none [OF wf] wf by (cases "shm_items q") auto
qed (simp_all add: shm_enq_room shm_enq_full shm_deq_some shm_deq_none)

section \<open>Properties of the calls\<close>

text \<open>
  C7. Over any sequence of publish and consume steps on a well-formed channel, the payloads
  come out in the order they were accepted, none lost or duplicated, and never more than
  \<open>buffer_size - 1\<close> are pending.
\<close>

theorem shm_fifo:
  assumes "shm_wf q" "queue_run (shm_enq now) shm_deq ops q = (acc, del, r)"
  shows "shm_items q @ acc = del @ shm_items r \<and> shm_wf r \<and> length (shm_items r) \<le> slots_n (snd q) - 1"
  using shq.run_fifo [OF assms] shm_within [of r] by (auto simp: shm_limit_def)

text \<open>A channel as created, when the sizes are sane and the segment has the payload areas.\<close>

definition sane_config :: "channel_config \<Rightarrow> (nat \<Rightarrow> shm_slot) \<Rightarrow> bool" where
  "sane_config config old \<longleftrightarrow> 0 < unat (cc_buffer_size config) \<and> unat (cc_payload_max config) < 2 ^ 32 \<and>
     (\<forall>i. length (cs_payload (old i)) = unat (cc_payload_max config))"

lemma created_wf:
  assumes "channel_create os config cb0 old h = (Some c, cb, h')" "sane_config config old"
  shows "shm_wf (c, cb) \<and> views cb = []"
proof -
  have cb: "cb = fresh_control config old" and c: "sc_attached c" "sc_config c = config"
    using assms(1) by (auto simp: channel_create_def Let_def case_prod_beta split: if_splits)
  have "pending cb = 0" by (simp add: cb pending_def fresh_control_def ring_count_def)
  moreover from this have "views cb = []" by (metis length_0_conv length_views)
  ultimately show ?thesis using assms(2) c
    by (auto simp: shm_wf_def slot_ok_def sane_config_def cb fresh_control_def)
qed

lemma consume_loop_collect:
  assumes "shm_wf (c, cb)"
  shows "\<exists>cb'. consume_loop collect n (cb, vs) = Some (Inr (None, n + of_nat (pending cb), (cb', vs @ views cb))) \<and>
    shm_wf (c, cb') \<and> views cb' = [] \<and> cb_received cb' = cb_received cb + of_nat (pending cb) \<and>
    cb_sent cb' = cb_sent cb \<and> cb_head cb' = cb_head cb \<and> cb_buffer_size cb' = cb_buffer_size cb"
  using assms
proof (induction "pending cb" arbitrary: cb n vs)
  case 0
  then have "views cb = []" by (metis length_0_conv length_views)
  with 0 show ?case by (subst consume_loop.simps) (simp add: pass_idle flip: 0(1))
next
  case (Suc m)
  have pos: "0 < pending cb" using Suc.hyps(2) by simp
  have m: "m = pending (released cb)" using pending_released [OF Suc.prems pos] Suc.hyps(2) by simp
  have rec: "cb_received (released cb) = cb_received cb + 1" "cb_sent (released cb) = cb_sent cb"
    "cb_head (released cb) = cb_head cb" "cb_buffer_size (released cb) = cb_buffer_size cb"
    by (simp_all add: released_def)
  from Suc.hyps(1) [OF m released_wf [OF Suc.prems pos], of "n + 1" "vs @ [hd (views cb)]"]
    views_released [OF Suc.prems pos] rec
  show ?case
    by (subst consume_loop.simps)
      (auto simp: collect_item [OF Suc.prems pos] ac_simps simp flip: Suc.hyps(2) m)
qed


text \<open>
  C10. On a well-formed channel \<open>publish\<close> succeeds exactly when the payload fits and a slot is
  free. It then appends one message with the next sequence number of this handle, the payload
  and a header that describes it; otherwise the pending messages are untouched, and only a full
  ring counts as a drop.
\<close>

theorem shm_publish_contract:
  assumes "shm_wf (c, cb)"
  shows "if shm_fits (c, cb) data \<and> pending cb < slots_n cb - 1
    then \<exists>c' cb' abi. channel_publish now data c cb = Inr (True, c', cb') \<and> shm_wf (c', cb') \<and>
      sc_local_sequence c' = sc_local_sequence c + 1 \<and> cb_sent cb' = cb_sent cb + 1 \<and>
      views cb' = views cb @ [\<lparr>mv_header = \<lparr>mh_topic_id = 0, mh_sequence = sc_local_sequence c + 1,
         mh_timestamp_ns = now, mh_payload_len = of_nat (length data), mh_crc32 = 0, mh_flags = 0,
         mh_abi_version = abi\<rparr>, mv_payload = data\<rparr>]
    else channel_publish now data c cb = Inr (False, c, if shm_fits (c, cb) data
      then cb\<lparr>cb_dropped := cb_dropped cb + 1\<rparr> else cb)"
proof (cases "shm_fits (c, cb) data \<and> pending cb < slots_n cb - 1")
  case True
  then have fits: "shm_fits (c, cb) data" and room: "pending cb < slots_n cb - 1" by auto
  obtain c' cb' where p: "published now data (c, cb) = (c', cb')" by fastforce
  then have "sc_local_sequence c' = sc_local_sequence c + 1" "cb_sent cb' = cb_sent cb + 1"
    by (auto simp: published_def Let_def)
  with True p publish_room [OF assms fits room, of now] published_wf [OF assms fits room, of now]
    views_published [OF assms fits room, of now] show ?thesis
    by (auto simp: written_view_def)
next
  case False
  have "pending cb = slots_n cb - 1" if "\<not> pending cb < slots_n cb - 1"
    using that shm_within [OF assms] by (simp add: shm_items_def shm_limit_def)
  with False publish_too_large [OF assms] publish_full [OF assms] show ?thesis
    by (cases "shm_fits (c, cb) data") auto
qed

section \<open>A channel of three slots\<close>

definition demo_config :: channel_config where
  "demo_config = \<lparr>cc_name = ''cam'', cc_buffer_size = 3, cc_payload_max = 4, cc_qos = qos_default\<rparr>"

definition demo_old :: "nat \<Rightarrow> shm_slot" where
  "demo_old i = \<lparr>cs_sequence = 0, cs_state = 0, cs_header = header_default\<lparr>mh_abi_version := 0\<rparr>,
     cs_payload = [0, 0, 0, 0]\<rparr>"

definition demo_channel :: shm_channel where
  "demo_channel = \<lparr>sc_config = demo_config,
     sc_shm = \<lparr>sh_name = ''/lwipc_cam'', sh_size = 324, sh_fd = 3, sh_addr = Some 4096\<rparr>,
     sc_attached = True, sc_is_creator = True, sc_local_sequence = 0\<rparr>"

lemma demo_created:
  "channel_create os_demo demo_config cb demo_old []
     = (Some demo_channel, fresh_control demo_config demo_old,
        [Mmap 324 3, Ftruncate 3 324, ShmOpen ''/lwipc_cam'' True])"
  by (simp add: channel_create_def sh_create_def sh_map_def sys_def os_demo_def demo_config_def demo_channel_def
      segment_none_def normalize_name_def channel_total_size_def channel_slot_size_def sizeof_control_def
      sizeof_slot_def Let_def)

lemma demo_sane: "sane_config demo_config demo_old"
  by (simp add: sane_config_def demo_config_def demo_old_def)

lemmas demo_wf = created_wf [OF demo_created demo_sane]

lemma demo_pending: "pending (fresh_control demo_config demo_old) = 0"
  by (simp add: pending_def fresh_control_def ring_count_def)

lemma demo_fits: "shm_fits (demo_channel, fresh_control demo_config demo_old) [1, 2]"
  by (simp add: shm_fits_def demo_channel_def demo_config_def)

text \<open>The same channel after one message.\<close>

definition demo_one :: "shm_channel \<times> control_block" where
  "demo_one = published 9 [1, 2] (demo_channel, fresh_control demo_config demo_old)"

lemma demo_room: "pending (fresh_control demo_config demo_old) < slots_n (fresh_control demo_config demo_old) - 1"
  unfolding demo_pending by (simp add: fresh_control_def demo_config_def)

lemma demo_one_wf: "shm_wf (fst demo_one, snd demo_one)"
  using published_wf [OF conjunct1 [OF demo_wf] demo_fits demo_room, of 9] by (simp add: demo_one_def)

lemma demo_one_pending: "pending (snd demo_one) = 1"
  using pending_published [OF conjunct1 [OF demo_wf] demo_room, of 9 "[1, 2]"] by (simp add: demo_one_def demo_pending)

theorem shm_fifo_witness:
  "\<exists>acc del r. queue_run (shm_enq 9) shm_deq [Enq [1, 2], Deq] (demo_channel, fresh_control demo_config demo_old)
      = (acc, del, r) \<and> acc = del @ shm_items r"
proof -
  obtain acc del r where run: "queue_run (shm_enq 9) shm_deq [Enq [1, 2], Deq]
      (demo_channel, fresh_control demo_config demo_old) = (acc, del, r)"
    using prod_cases3 by blast
  from shm_fifo [OF conjunct1 [OF demo_wf] run] run show ?thesis
    by (auto simp: shm_items_def conjunct2 [OF demo_wf])
qed


theorem shm_publish_contract_witness:
  "\<exists>c' cb'. channel_publish 9 [1, 2] demo_channel (fresh_control demo_config demo_old) = Inr (True, c', cb')"
  using shm_publish_contract [OF conjunct1 [OF demo_wf], of "[1, 2]" 9] demo_fits demo_room by auto

end
