(* ===== verification/ShmLife.thy ===== *)
theory ShmLife
  imports ShmQueue
begin

text \<open>
  The life of a shared-memory channel: what a consumer that opens it finds, the layout of the
  slots in the segment, exceptions out of a callback, and \<open>ShmTransport\<close>, the table of open
  channels of \<open>include/lwipc/shm_channel.hpp\<close>.
\<close>

section \<open>Opening what was created\<close>

lemma stored_name_id: "length name < 64 \<Longrightarrow> CHR 0x00 \<notin> set name \<Longrightarrow> stored_name name = name"
proof -
  assume "length name < 64" "CHR 0x00 \<notin> set name"
  then have "takeWhile (\<lambda>c. c \<noteq> CHR 0x00) name = name" "take 63 name = name"
    by (auto simp: takeWhile_eq_all_conv)
  then show ?thesis by (simp only: stored_name_def)
qed

lemma stored_name_long: "64 \<le> length name \<Longrightarrow> stored_name name \<noteq> name"
proof
  assume long: "64 \<le> length name" and eq: "stored_name name = name"
  have "length (stored_name name) \<le> 63" by (simp add: stored_name_def)
  with long eq show False by simp
qed

lemma create_memory:
  "channel_create os config cb0 old h = (Some c, cb, h') \<Longrightarrow> cb = fresh_control config old"
  by (auto simp: channel_create_def Let_def case_prod_beta split: if_splits)


lemma demo_open: "fst (sh_open os_demo (''/lwipc_'' @ cc_name demo_config) segment_none [])"
  by (simp add: sh_open_def sh_map_def sys_def os_demo_def normalize_name_def segment_none_def Let_def)

lemma demo_opened:
  "\<exists>d h. channel_open os_demo (cc_name demo_config) (fresh_control demo_config demo_old) [] =
     (Some d, fresh_control demo_config demo_old, h)"
proof -
  have "fst (channel_open os_demo (cc_name demo_config) (fresh_control demo_config demo_old) []) \<noteq> None"
    using demo_open by (simp add: channel_open_def Let_def case_prod_beta fresh_control_def demo_config_def stored_name_def)
  then show ?thesis by (auto simp: channel_open_def Let_def case_prod_beta split: if_splits)
qed


text \<open>
  A channel whose name has 64 or more characters can be created but never opened: the
  stored name is cut, so every \<open>open\<close> under the full name fails, and each failure in addition
  removes the publisher's segment from the system.
\<close>

theorem channel_long_name:
  assumes "channel_create os config cb0 old h = (Some c, cb, h1)" "64 \<le> length (cc_name config)"
  shows "fst (channel_open os' (cc_name config) cb h2) = None \<and>
    hd (snd (snd (channel_open os' (cc_name config) cb h2))) = ShmUnlink (''/lwipc_'' @ cc_name config)"
proof -
  have "cb_channel_name cb \<noteq> cc_name config"
    using stored_name_long [OF assms(2)] create_memory [OF assms(1)] by (simp add: fresh_control_def)
  moreover obtain ok seg h3 where o: "sh_open os' (''/lwipc_'' @ cc_name config) segment_none h2 = (ok, seg, h3)"
    using prod_cases3 by blast
  then have "sh_name seg = ''/lwipc_'' @ cc_name config"
    by (auto simp: sh_open_def sh_map_def sys_def Let_def normalize_name_def split: if_splits)
  then have "hd (snd (sh_close os' seg h3)) = ShmUnlink (''/lwipc_'' @ cc_name config)"
    by (simp add: sh_close_def sys_def Let_def)
  ultimately show ?thesis using o
    by (simp add: channel_open_def channel_delete_def Let_def)
qed

theorem channel_long_name_witness:
  "fst (channel_open os_demo (replicate 64 CHR ''x'')
     (fresh_control (demo_config\<lparr>cc_name := replicate 64 CHR ''x''\<rparr>) demo_old) []) = None"
proof -
  let ?config = "demo_config\<lparr>cc_name := replicate 64 CHR ''x''\<rparr>"
  have "\<exists>c h1. channel_create os_demo ?config cb demo_old [] = (Some c, fresh_control ?config demo_old, h1)" for cb
    by (simp add: channel_create_def sh_create_def sh_map_def sys_def os_demo_def demo_config_def
        normalize_name_def channel_total_size_def channel_slot_size_def sizeof_control_def sizeof_slot_def Let_def)
  then obtain c h1 where
    "channel_create os_demo ?config (fresh_control demo_config demo_old) demo_old [] = (Some c, fresh_control ?config demo_old, h1)"
    by blast
  from channel_long_name [OF this, of os_demo "[]"] show ?thesis by simp
qed

section \<open>The slots in the segment\<close>

definition slot_fits :: "channel_config \<Rightarrow> bool" where
  "slot_fits config \<longleftrightarrow> 144 + unat (cc_buffer_size config) * (56 + unat (cc_payload_max config)) < 2 ^ 64"

lemma slot_offset_value:
  assumes "slot_fits config" "cb_slot_size cb = channel_slot_size config" "unat i < unat (cc_buffer_size config)"
  shows "unat (slot_offset cb i) = 144 + unat i * (56 + unat (cc_payload_max config))"
    and "unat (channel_slot_size config) = 56 + unat (cc_payload_max config)"
    and "unat (channel_total_size config) = 144 + unat (cc_buffer_size config) * (56 + unat (cc_payload_max config))"
proof -
  let ?n = "unat (cc_buffer_size config)" and ?s = "56 + unat (cc_payload_max config)"
  have "?s \<le> ?n * ?s" using assms(3) by (cases ?n) simp_all
  with assms(1) have s: "?s < 2 ^ 64" unfolding slot_fits_def by linarith
  then show slot: "unat (channel_slot_size config) = ?s"
    by (simp add: channel_slot_size_def sizeof_slot_def unat_word_ariths)
  have "unat i * ?s \<le> ?n * ?s" using assms(3) by (intro mult_le_mono1) simp
  with assms(1) have i: "144 + unat i * ?s < 2 ^ 64" unfolding slot_fits_def by linarith
  then show "unat (slot_offset cb i) = 144 + unat i * ?s"
    using slot by (simp add: slot_offset_def sizeof_control_def assms(2) unat_word_ariths)
  show "unat (channel_total_size config) = 144 + ?n * ?s"
    using assms(1) slot by (simp add: channel_total_size_def sizeof_control_def slot_fits_def unat_word_ariths)
qed



text \<open>
  The sizes are not checked: for a buffer of 16 messages of nearly \<open>2 ^ 60\<close> bytes the
  product wraps to 0, so \<open>create\<close> succeeds with a segment that holds the control block only, and
  every slot lies outside it.
\<close>

theorem channel_size_wraps:
  "let config = \<lparr>cc_name = name, cc_buffer_size = 16, cc_payload_max = 2 ^ 60 - 56, cc_qos = qos\<rparr> in
     channel_total_size config = sizeof_control \<and>
     (\<forall>old i. i < 16 \<longrightarrow> unat (channel_total_size config) \<le> unat (slot_offset (fresh_control config old) i))"
proof -
  let ?config = "\<lparr>cc_name = name, cc_buffer_size = 16, cc_payload_max = 2 ^ 60 - 56, cc_qos = qos\<rparr>"
  have slot: "channel_slot_size ?config = 2 ^ 60" by (simp add: channel_slot_size_def sizeof_slot_def)
  then have slot': "unat (channel_slot_size ?config) = 2 ^ 60" by simp
  have total: "channel_total_size ?config = sizeof_control"
    unfolding channel_total_size_def slot by simp
  have "unat sizeof_control \<le> unat (slot_offset (fresh_control ?config old) i)" if "i < 16" for old i
  proof -
    have "unat i < 16" using that by (simp add: word_less_nat_alt)
    then have "unat i * 2 ^ 60 + 144 < 2 ^ 64" by simp
    then have "unat (slot_offset (fresh_control ?config old) i) = 144 + unat i * 2 ^ 60"
      using slot' by (simp add: slot_offset_def fresh_control_def sizeof_control_def unat_word_ariths)
    then show ?thesis by (simp add: sizeof_control_def)
  qed
  with total show ?thesis unfolding Let_def by simp
qed

text \<open>Slots are not padded: with an odd payload size the atomics of the second slot are misaligned.\<close>

lemma slot_misaligned:
  "unat (slot_offset (fresh_control (config\<lparr>cc_payload_max := 1\<rparr>) old) 1) mod 8 = 1"
  by (simp add: slot_offset_def fresh_control_def channel_slot_size_def sizeof_slot_def sizeof_control_def)

section \<open>A callback that throws\<close>

text \<open>
  Delivery is at least once: an exception thrown by the callback leaves \<open>consume\<close> before
  the slot is released, so the same message is the first one the next call delivers.
\<close>

theorem consume_exception_redelivers:
  assumes "shm_wf (c, cb)" "0 < pending cb" "\<And>v s. call v s = (Some e, s)"
  shows "channel_consume call c (cb, w) = Some (Inr (Some e, 0, (cb, w))) \<and>
    (\<exists>cb'. channel_consume collect c (cb, []) = Some (Inr (None, of_nat (pending cb), (cb', views cb))))"
proof
  have "consume_pass call (cb, w) = Inr (Raised e, (cb, w))"
    by (simp add: pass_item [OF assms(1,2)] assms(3))
  with assms(1) show "channel_consume call c (cb, w) = Some (Inr (Some e, 0, (cb, w)))"
    by (simp add: channel_consume_def consume_loop.simps shm_wf_def)
  from consume_loop_collect [OF assms(1), of 0 "[]"] assms(1)
  show "\<exists>cb'. channel_consume collect c (cb, []) = Some (Inr (None, of_nat (pending cb), (cb', views cb)))"
    by (auto simp: channel_consume_def shm_wf_def)
qed

theorem consume_exception_redelivers_witness:
  "channel_consume (\<lambda>v s. (Some (), s)) (fst demo_one) (snd demo_one, ()) = Some (Inr (Some (), 0, (snd demo_one, ())))"
  by (rule conjunct1 [OF consume_exception_redelivers [OF demo_one_wf]]) (simp_all add: demo_one_pending)

section \<open>Overlapping consumers\<close>

text \<open>
  A callback during which another consumer takes the oldest message: what happens when two
  consumers overlap, the second between the first one's reading and releasing of the slot.
\<close>

definition overlapped :: "message_view \<Rightarrow> control_block \<times> message_view list \<Rightarrow> unit option \<times> (control_block \<times> message_view list)"
where
  "overlapped v s = (case consume_pass collect s of
      Inr (Passed, (cb, seen)) \<Rightarrow> (None, (cb, seen @ [v]))
    | _ \<Rightarrow> (None, (fst s, snd s @ [v])))"

text \<open>
  The channel supports one consumer only: when two overlap, both are given the same message,
  and it is counted twice as received.
\<close>

theorem overlapping_consumers_duplicate:
  assumes "shm_wf (c, cb)" "0 < pending cb"
  shows "\<exists>cb'. consume_pass overlapped (cb, []) = Inr (Passed, (cb', [hd (views cb), hd (views cb)])) \<and>
    cb_received cb' = cb_received cb + 2 \<and> cb_tail cb' = cb_tail (released cb)"
proof -
  note wf = assms(1) [unfolded shm_wf_def prod.case]
  have b: "tail_n cb < slots_n cb" "head_n cb < slots_n cb" using wf by auto
  have ne: "tail_n cb \<noteq> head_n cb" using assms(2) b by (auto simp: pending_def ring_count_alt)
  have view: "slot_view (cb_slots cb ! tail_n cb) = hd (views cb)"
    using ring_view_pop [OF b ne, of "nth (map slot_view (cb_slots cb))"] wf b by (simp add: views_def)
  have over: "overlapped v (cb, []) = (None, (released cb, [hd (views cb), v]))" for v
    by (simp add: overlapped_def collect_item [OF assms])
  have "slot_ok cb 0" using wf by blast
  then have "cs_state (cb_slots cb ! tail_n cb) = STATE_READY"
    using b assms(2) by (simp add: slot_ok_def)
  moreover have "cb_tail cb \<noteq> cb_head cb" "\<not> length (cb_slots cb) \<le> tail_n cb" using ne wf b by auto
  moreover have "cb_buffer_size (released cb) \<noteq> 0" using b by (auto simp: released_def)
  ultimately show ?thesis
    by (simp add: consume_pass_def Let_def view over slot_state_set_def) (simp add: released_def)
qed

theorem overlapping_consumers_duplicate_witness:
  "\<exists>cb'. consume_pass overlapped (snd demo_one, []) =
     Inr (Passed, (cb', [hd (views (snd demo_one)), hd (views (snd demo_one))]))"
  using overlapping_consumers_duplicate [OF demo_one_wf] by (auto simp: demo_one_pending)

section \<open>The table of channels\<close>

text \<open>
  \<open>ShmTransport\<close> keeps shared pointers, which are positions in a list of the channels made so
  far. \<open>made\<close> is the result of \<open>ShmChannel::create\<close> or \<open>ShmChannel::open\<close>; it is used only when
  the name is not yet in the table.
\<close>

record shm_transport =
  st_channels :: "(string, nat) umap"
  st_made :: "shm_channel list"

definition transport_new :: shm_transport where
  "transport_new = \<lparr>st_channels = [], st_made = []\<rparr>"

definition transport_get :: "string \<Rightarrow> shm_channel option \<Rightarrow> shm_transport \<Rightarrow> nat option \<times> shm_transport" where
  "transport_get name made t =
     (case um_find (st_channels t) name of
        Some p \<Rightarrow> (Some p, t)
      | None \<Rightarrow>
          (case made of
             None \<Rightarrow> (None, t)
           | Some c \<Rightarrow> (Some (length (st_made t)),
               t\<lparr>st_channels := um_put name (length (st_made t)) (st_channels t), st_made := st_made t @ [c]\<rparr>)))"

definition create_publisher :: "channel_config \<Rightarrow> shm_channel option \<Rightarrow> shm_transport \<Rightarrow> nat option \<times> shm_transport" where
  "create_publisher config made t = transport_get (cc_name config) made t"

definition create_subscriber :: "string \<Rightarrow> shm_channel option \<Rightarrow> shm_transport \<Rightarrow> nat option \<times> shm_transport" where
  "create_subscriber name made t = transport_get name made t"

definition list_channels :: "shm_transport \<Rightarrow> string list" where
  "list_channels t = map fst (st_channels t)"

definition destroy_channel :: "string \<Rightarrow> shm_transport \<Rightarrow> shm_transport" where
  "destroy_channel name t = t\<lparr>st_channels := um_erase name (st_channels t)\<rparr>"

definition transport_ok :: "shm_transport \<Rightarrow> bool" where
  "transport_ok t \<longleftrightarrow> umap_ok (st_channels t) \<and> (\<forall>(n, p) \<in> set (st_channels t). p < length (st_made t))"

lemma transport_get_ok [model_inv]: "transport_ok t \<Longrightarrow> transport_ok (snd (transport_get name made t))"
  by (auto simp: transport_ok_def transport_get_def set_um_put split: option.split)

lemma destroy_channel_ok [model_inv]: "transport_ok t \<Longrightarrow> transport_ok (destroy_channel name t)"
  by (auto simp: transport_ok_def destroy_channel_def set_um_erase)

lemma list_channels_destroy: "set (list_channels (destroy_channel name t)) = set (list_channels t) - {name}"
  by (auto simp: list_channels_def destroy_channel_def set_um_erase image_iff)

text \<open>
  A channel is made once per name: whoever asks for a name that is in the table, as
  publisher or subscriber and with whatever configuration, shares the channel that is there.
\<close>

theorem transport_shares:
  assumes "cc_name config = name" "create_subscriber name made t = (Some p, t')"
  shows "create_publisher config made' t' = (Some p, t') \<and> name \<in> set (list_channels t')"
proof -
  have "um_find (st_channels t') name = Some p"
    using assms(2) by (auto simp: create_subscriber_def transport_get_def split: option.splits)
  then show ?thesis
    using assms(1) by (auto simp: create_publisher_def transport_get_def list_channels_def image_iff
        dest!: map_of_SomeD) force
qed

theorem transport_shares_witness:
  "create_publisher demo_config None (snd (create_subscriber ''cam'' (Some demo_channel) transport_new))
     = (Some 0, snd (create_subscriber ''cam'' (Some demo_channel) transport_new))"
proof -
  have "create_subscriber ''cam'' (Some demo_channel) transport_new
      = (Some 0, snd (create_subscriber ''cam'' (Some demo_channel) transport_new))"
    by (simp add: create_subscriber_def transport_get_def transport_new_def)
  from transport_shares [OF _ this, of demo_config None] show ?thesis by (simp add: demo_config_def)
qed

end
