(* ===== verification/ShmExchange.thy ===== *)
theory ShmExchange
  imports ShmLife
begin

text \<open>
  Two processes and their channel from end to end (\<open>src/shm_channel.cpp\<close>): one creates it and publishes,
  the other opens it by name and consumes, with any sequence of calls between them.
\<close>

section \<open>Calls through two handles\<close>

datatype channel_call = Publish u64 "byte list" | Consume

text \<open>
  \<open>xc_accepted\<close> has the time and the payload of each publication that returned true, \<open>xc_delivered\<close> what the
  consumer's callback has been given.
\<close>

record exchange =
  xc_pub :: shm_channel
  xc_con :: shm_channel
  xc_cb :: control_block
  xc_accepted :: "(u64 \<times> byte list) list"
  xc_delivered :: "message_view list"

text \<open>\<open>None\<close> is a fault or a call that does not return.\<close>

fun xc_call :: "channel_call \<Rightarrow> exchange \<Rightarrow> exchange option" where
  "xc_call (Publish now data) s =
     (case channel_publish now data (xc_pub s) (xc_cb s) of
        Inl _ \<Rightarrow> None
      | Inr (b, c, cb) \<Rightarrow> Some (s\<lparr>xc_pub := c, xc_cb := cb,
          xc_accepted := if b then xc_accepted s @ [(now, data)] else xc_accepted s\<rparr>))"
| "xc_call Consume s =
     (case channel_consume collect (xc_con s) (xc_cb s, []) of
        Some (Inr (None, n, (cb, vs))) \<Rightarrow> Some (s\<lparr>xc_cb := cb, xc_delivered := xc_delivered s @ vs\<rparr>)
      | _ \<Rightarrow> None)"

fun xc_run :: "channel_call list \<Rightarrow> exchange \<Rightarrow> exchange option" where
  "xc_run [] s = Some s"
| "xc_run (c # cs) s = (case xc_call c s of None \<Rightarrow> None | Some s' \<Rightarrow> xc_run cs s')"

section \<open>Invariant\<close>

text \<open>What has been delivered and what is pending are the accepted messages, numbered from 1.\<close>

definition xc_messages :: "exchange \<Rightarrow> message_view list" where
  "xc_messages s = xc_delivered s @ views (xc_cb s)"

definition view_number :: "message_view \<Rightarrow> u64" where
  "view_number v = mh_sequence (mv_header v)"

definition view_content :: "message_view \<Rightarrow> u64 \<times> byte list" where
  "view_content v = (mh_timestamp_ns (mv_header v), mv_payload v)"

definition xc_inv :: "nat \<Rightarrow> exchange \<Rightarrow> bool" where
  "xc_inv n s \<longleftrightarrow> shm_wf (xc_pub s, xc_cb s) \<and> shm_wf (xc_con s, xc_cb s) \<and> slots_n (xc_cb s) = n \<and>
     sc_local_sequence (xc_pub s) = of_nat (length (xc_accepted s)) \<and>
     map view_content (xc_messages s) = xc_accepted s \<and>
     map view_number (xc_messages s) = map of_nat [1..<Suc (length (xc_accepted s))]"

lemma xc_publish:
  assumes inv: "xc_inv n s"
  shows "\<exists>t. xc_call (Publish now data) s = Some t \<and> xc_inv n t \<and> xc_delivered t = xc_delivered s"
proof -
  let ?c = "xc_pub s" and ?cb = "xc_cb s"
  have wf: "shm_wf (?c, ?cb)" "shm_wf (xc_con s, ?cb)" using inv by (simp_all add: xc_inv_def)
  consider "\<not> shm_fits (?c, ?cb) data" | "shm_fits (?c, ?cb) data" "pending ?cb = slots_n ?cb - 1"
    | "shm_fits (?c, ?cb) data" "pending ?cb < slots_n ?cb - 1"
    using shm_within [OF wf(1)] by (force simp: shm_items_def shm_limit_def)
  then show ?thesis
  proof cases
    case 1
    then show ?thesis using inv by (simp add: publish_too_large [OF wf(1)])
  next
    case 2
    then show ?thesis using inv by (simp add: publish_full [OF wf(1)] xc_inv_def xc_messages_def)
  next
    case 3
    let ?q = "published now data (?c, ?cb)"
    let ?t = "s\<lparr>xc_pub := fst ?q, xc_cb := snd ?q, xc_accepted := xc_accepted s @ [(now, data)]\<rparr>"
    have wf': "shm_wf (fst ?q, snd ?q)" using published_wf [OF wf(1) 3] by simp
    have same: "slots_n (snd ?q) = slots_n ?cb" "cb_payload_max (snd ?q) = cb_payload_max ?cb"
      "sc_config (fst ?q) = sc_config ?c" "sc_local_sequence (fst ?q) = sc_local_sequence ?c + 1"
      by (simp_all add: published_def Let_def)
    have con: "shm_wf (xc_con s, snd ?q)"
      using wf same(3) by (intro shm_wf_handle [OF wf']) (simp_all add: shm_wf_def)
    have new: "xc_messages ?t = xc_messages s @ [written_view now (of_nat (Suc (length (xc_accepted s)))) data (cb_slots ?cb ! head_n ?cb)]"
      using views_published [OF wf(1) 3] inv by (simp add: xc_messages_def xc_inv_def add.commute)
    have "xc_inv n ?t"
      using inv wf' con same unfolding xc_inv_def new
      by (simp add: written_view_def view_content_def view_number_def)
    then show ?thesis using publish_room [OF wf(1) 3] by (simp add: case_prod_beta)
  qed
qed

lemma xc_consume:
  assumes inv: "xc_inv n s"
  shows "\<exists>t. xc_call Consume s = Some t \<and> xc_inv n t \<and> xc_delivered t = xc_messages s \<and> xc_accepted t = xc_accepted s"
proof -
  let ?cb = "xc_cb s"
  have wf: "shm_wf (xc_con s, ?cb)" "shm_wf (xc_pub s, ?cb)" using inv by (simp_all add: xc_inv_def)
  obtain cb where cb: "consume_loop collect 0 (?cb, []) = Some (Inr (None, of_nat (pending ?cb), (cb, views ?cb)))"
    "shm_wf (xc_con s, cb)" "views cb = []" "cb_buffer_size cb = cb_buffer_size ?cb"
    using consume_loop_collect [OF wf(1), of 0 "[]"] by auto
  have "shm_wf (xc_pub s, cb)" using wf by (intro shm_wf_handle [OF cb(2)]) (simp_all add: shm_wf_def)
  moreover have "channel_consume collect (xc_con s) (?cb, []) = Some (Inr (None, of_nat (pending ?cb), (cb, views ?cb)))"
    using wf(1) cb(1) by (simp add: channel_consume_def shm_wf_def)
  ultimately show ?thesis using inv cb by (simp add: xc_inv_def xc_messages_def)
qed

lemma xc_run_inv:
  assumes "xc_inv n s"
  shows "\<exists>t. xc_run cs s = Some t \<and> xc_inv n t \<and> (cs \<noteq> [] \<and> last cs = Consume \<longrightarrow> xc_delivered t = xc_messages t)"
  using assms
proof (induction cs arbitrary: s)
  case (Cons c cs)
  obtain u where u: "xc_call c s = Some u" "xc_inv n u" "c = Consume \<Longrightarrow> xc_delivered u = xc_messages s" "c = Consume \<Longrightarrow> xc_accepted u = xc_accepted s"
    using xc_publish [OF Cons.prems] xc_consume [OF Cons.prems] by (cases c) auto
  have "xc_delivered u = xc_messages u" if "c = Consume"
  proof -
    have "length (xc_messages u) = length (xc_messages s)"
      using u(2,4) Cons.prems that unfolding xc_inv_def by (metis length_map)
    with u(3) [OF that] show ?thesis by (simp add: xc_messages_def views_empty_iff)
  qed
  with u Cons.IH [OF u(2)] show ?case by (cases cs) auto
qed simp

section \<open>From end to end\<close>

lemma opened_handle:
  assumes "channel_open os name cb h = (Some d, cb', h')" "shm_wf (c, cb)"
  shows "cb' = cb \<and> shm_wf (d, cb)"
proof -
  have "cb' = cb" "sc_attached d" "cc_payload_max (sc_config d) = cb_payload_max cb"
    using assms(1) by (auto simp: channel_open_def Let_def case_prod_beta split: if_splits)
  moreover have "cc_payload_max (sc_config c) = cb_payload_max cb" using assms(2) by (simp add: shm_wf_def)
  ultimately show ?thesis using shm_wf_handle [OF assms(2), of d] by simp
qed


text \<open>A channel with room for two: the third publication is refused.\<close>

definition demo_calls :: "channel_call list" where
  "demo_calls = [Publish 7 [1], Publish 8 [2], Publish 9 [3], Consume, Publish 10 [4], Consume]"


end
