(* ===== verification/Discovery.thy ===== *)
theory Discovery
  imports Interfaces
begin

text \<open>
  \<open>src/discovery/service_discovery.h\<close> and \<open>src/discovery/service_discovery.cpp\<close>: the table of
  known services, the text format of announcements, and what a received announcement does. The
  socket calls are arguments; a datagram is a string.
\<close>

section \<open>Services and the table\<close>

record service_info =
  si_node_name :: string
  si_channel_name :: string
  si_type_name :: string
  si_endpoint :: string
  si_is_transmitter :: bool
  si_timestamp :: int

definition service_default :: service_info where
  "service_default = \<lparr>si_node_name = [], si_channel_name = [], si_type_name = [], si_endpoint = [],
     si_is_transmitter = False, si_timestamp = 0\<rparr>"

record discovery =
  sd_endpoint :: string
  sd_services :: "(string, service_info list) umap"
  sd_has_on_found :: bool
  sd_has_on_lost :: bool
  sd_running :: bool
  sd_socket :: int

definition discovery_new :: "string \<Rightarrow> discovery" where
  "discovery_new endpoint = \<lparr>sd_endpoint = endpoint, sd_services = [], sd_has_on_found = False, sd_has_on_lost = False,
     sd_running = False, sd_socket = -1\<rparr>"

definition sd_bucket :: "discovery \<Rightarrow> string \<Rightarrow> service_info list" where
  "sd_bucket d channel = (case um_find (sd_services d) channel of None \<Rightarrow> [] | Some l \<Rightarrow> l)"

definition sd_push :: "string \<Rightarrow> service_info \<Rightarrow> discovery \<Rightarrow> discovery" where
  "sd_push channel info d = d\<lparr>sd_services := um_put channel (sd_bucket d channel @ [info]) (sd_services d)\<rparr>"

section \<open>Text of an announcement\<close>

function show_nat :: "nat \<Rightarrow> string" where
  "show_nat n = (if n < 10 then [char_of (48 + n)] else show_nat (n div 10) @ [char_of (48 + n mod 10)])"
  by pat_completeness auto
termination by (relation "measure id") auto

declare show_nat.simps [simp del]

definition show_int :: "int \<Rightarrow> string" where
  "show_int i = (if i < 0 then CHR ''-'' # show_nat (nat (- i)) else show_nat (nat i))"

abbreviation bar :: char where "bar \<equiv> CHR 0x7C"

definition announcement :: "service_info \<Rightarrow> string" where
  "announcement info = si_node_name info @ [bar] @ si_channel_name info @ [bar] @ si_type_name info @ [bar] @
     (if si_is_transmitter info then ''TX'' else ''RX'') @ [bar] @ show_int (si_timestamp info)"

text \<open>\<open>std::stoll\<close> and \<open>std::stoi\<close>: white space, a sign, digits; the rest is ignored.\<close>

datatype conv_error = InvalidArgument | OutOfRange

definition is_space :: "char \<Rightarrow> bool" where
  "is_space c \<longleftrightarrow> c = CHR '' '' \<or> (9 \<le> (of_char c :: nat) \<and> (of_char c :: nat) \<le> 13)"

definition is_digit :: "char \<Rightarrow> bool" where
  "is_digit c \<longleftrightarrow> 48 \<le> (of_char c :: nat) \<and> (of_char c :: nat) \<le> 57"

definition digits_value :: "string \<Rightarrow> nat" where
  "digits_value ds = foldl (\<lambda>a c. 10 * a + (of_char c - 48)) 0 ds"

definition parse_int :: "nat \<Rightarrow> string \<Rightarrow> conv_error + int" where
  "parse_int width s =
     (let t = dropWhile is_space s;
          neg = (t \<noteq> [] \<and> hd t = CHR ''-'');
          u = (if t \<noteq> [] \<and> (hd t = CHR ''-'' \<or> hd t = CHR ''+'') then tl t else t);
          ds = takeWhile is_digit u;
          v = (if neg then - int (digits_value ds) else int (digits_value ds))
      in if ds = [] then Inl InvalidArgument
         else if v < - (2 ^ (width - 1)) \<or> 2 ^ (width - 1) \<le> v then Inl OutOfRange
         else Inr v)"

abbreviation stoll :: "string \<Rightarrow> conv_error + int" where "stoll \<equiv> parse_int 64"
abbreviation stoi :: "string \<Rightarrow> conv_error + int" where "stoi \<equiv> parse_int 32"

text \<open>
  The parser of a received buffer, which ends at the first NUL. A \<open>getline\<close> that fails leaves
  the member at its default, and all later ones fail as well.
\<close>

definition parse_announcement :: "string \<Rightarrow> conv_error + service_info" where
  "parse_announcement buffer =
     (let s0 = takeWhile (\<lambda>c. c \<noteq> CHR 0x00) buffer; i0 = service_default in
      case getline bar s0 of None \<Rightarrow> Inr i0 | Some (node, s1) \<Rightarrow>
        (let i1 = i0\<lparr>si_node_name := node\<rparr> in
      case getline bar s1 of None \<Rightarrow> Inr i1 | Some (channel, s2) \<Rightarrow>
        (let i2 = i1\<lparr>si_channel_name := channel\<rparr> in
      case getline bar s2 of None \<Rightarrow> Inr i2 | Some (type, s3) \<Rightarrow>
        (let i3 = i2\<lparr>si_type_name := type\<rparr> in
      case getline bar s3 of None \<Rightarrow> Inr i3 | Some (dir, s4) \<Rightarrow>
        (let i4 = i3\<lparr>si_is_transmitter := (dir = ''TX'')\<rparr> in
      case getline bar s4 of None \<Rightarrow> Inr i4 | Some (ts, _) \<Rightarrow>
        (case stoll ts of Inl e \<Rightarrow> Inl e | Inr t \<Rightarrow> Inr (i4\<lparr>si_timestamp := t\<rparr>)))))))"

section \<open>Operations\<close>

text \<open>The datagrams that an operation sends are part of its result.\<close>

definition sd_register :: "service_info \<Rightarrow> discovery \<Rightarrow> bool \<times> string list \<times> discovery" where
  "sd_register info d = (True,
     if sd_running d \<and> 0 \<le> sd_socket d then [announcement info] else [],
     sd_push (si_channel_name info) info d)"

definition sd_unregister :: "string \<Rightarrow> string \<Rightarrow> discovery \<Rightarrow> bool \<times> discovery" where
  "sd_unregister node channel d =
     (case um_find (sd_services d) channel of
        None \<Rightarrow> (False, d)
      | Some l \<Rightarrow>
          (let rest = filter (\<lambda>i. \<not> si_node_name i = node) l
           in (True, d\<lparr>sd_services := if rest = [] then um_erase channel (sd_services d)
                                       else um_put channel rest (sd_services d)\<rparr>)))"

definition sd_find :: "string \<Rightarrow> discovery \<Rightarrow> service_info list" where
  "sd_find channel d = sd_bucket d channel"

definition sd_get_all :: "discovery \<Rightarrow> service_info list" where
  "sd_get_all d = concat (map snd (sd_services d))"

definition sd_on_found :: "bool \<Rightarrow> discovery \<Rightarrow> discovery" where
  "sd_on_found callable d = d\<lparr>sd_has_on_found := callable\<rparr>"

definition sd_on_lost :: "bool \<Rightarrow> discovery \<Rightarrow> discovery" where
  "sd_on_lost callable d = d\<lparr>sd_has_on_lost := callable\<rparr>"

text \<open>\<open>ProcessAnnouncement\<close>: the first entry of the node is refreshed, else the service is new.\<close>

fun refresh :: "string \<Rightarrow> string \<Rightarrow> int \<Rightarrow> service_info list \<Rightarrow> service_info list option" where
  "refresh node channel ts [] = None"
| "refresh node channel ts (i # is) =
     (if si_node_name i = node \<and> si_channel_name i = channel then Some (i\<lparr>si_timestamp := ts\<rparr> # is)
      else map_option ((#) i) (refresh node channel ts is))"

definition sd_process :: "service_info \<Rightarrow> discovery \<Rightarrow> service_info list \<times> discovery" where
  "sd_process info d =
     (let ch = si_channel_name info; l = sd_bucket d ch in
      case refresh (si_node_name info) ch (si_timestamp info) l of
        Some l' \<Rightarrow> ([], d\<lparr>sd_services := um_put ch l' (sd_services d)\<rparr>)
      | None \<Rightarrow> (if sd_has_on_found d then [info] else [],
          d\<lparr>sd_services := um_put ch (l @ [info]) (sd_services d)\<rparr>))"

text \<open>
  One received datagram: at most 4095 bytes are taken. \<open>Inl\<close> is an exception that leaves the
  listening thread, which ends the program.
\<close>

definition sd_receive :: "string \<Rightarrow> discovery \<Rightarrow> conv_error + (service_info list \<times> discovery)" where
  "sd_receive datagram d =
     (case parse_announcement (take 4095 datagram) of Inl e \<Rightarrow> Inl e | Inr info \<Rightarrow> Inr (sd_process info d))"

definition sd_expire :: "int \<Rightarrow> (string, service_info list) umap \<Rightarrow> (string, service_info list) umap" where
  "sd_expire now m = filter (\<lambda>(_, l). l \<noteq> [])
     (map (\<lambda>(ch, l). (ch, filter (\<lambda>i. \<not> now - si_timestamp i > 30) l)) m)"

definition sd_cleanup :: "int \<Rightarrow> discovery \<Rightarrow> discovery" where
  "sd_cleanup now d = d\<lparr>sd_services := sd_expire now (sd_services d)\<rparr>"

text \<open>
  \<open>endpoint_\<close> is cut at its last colon; without a colon the whole text is both address and port.
\<close>

definition split_endpoint :: "string \<Rightarrow> string \<times> (conv_error + int)" where
  "split_endpoint e =
     (if CHR '':'' \<in> set e
      then let port = rev (takeWhile (\<lambda>c. c \<noteq> CHR '':'') (rev e))
           in (take (length e - length port - 1) e, stoi port)
      else (e, stoi e))"

text \<open>
  \<open>Start\<close>, with the descriptor that \<open>socket\<close> returned and the success of \<open>bind\<close> and of joining
  the group. \<open>Inl\<close> is the exception of \<open>std::stoi\<close>, which leaves the socket open.
\<close>

definition sd_start :: "int \<Rightarrow> bool \<Rightarrow> bool \<Rightarrow> discovery \<Rightarrow> (conv_error + bool) \<times> discovery" where
  "sd_start sock bind_ok join_ok d =
     (if sd_running d then (Inr False, d)
      else if sock < 0 then (Inr False, d\<lparr>sd_socket := sock\<rparr>)
      else case snd (split_endpoint (sd_endpoint d)) of
          Inl e \<Rightarrow> (Inl e, d\<lparr>sd_socket := sock\<rparr>)
        | Inr port \<Rightarrow>
            if \<not> bind_ok then (Inr False, d\<lparr>sd_socket := -1\<rparr>)
            else if \<not> join_ok then (Inr False, d\<lparr>sd_socket := -1\<rparr>)
            else (Inr True, d\<lparr>sd_socket := sock, sd_running := True\<rparr>))"

definition sd_stop :: "discovery \<Rightarrow> discovery" where
  "sd_stop d = (if \<not> sd_running d then d else d\<lparr>sd_running := False, sd_socket := -1\<rparr>)"

definition sd_destroy :: "discovery \<Rightarrow> discovery" where
  "sd_destroy d = sd_stop d"

section \<open>The table as a keyed registry\<close>

definition discovery_ok :: "discovery \<Rightarrow> bool" where
  "discovery_ok d \<longleftrightarrow> umap_ok (sd_services d) \<and>
     (\<forall>(ch, l) \<in> set (sd_services d). l \<noteq> [] \<and> (\<forall>i \<in> set l. si_channel_name i = ch))"

lemma discovery_ok_new [simp]: "discovery_ok (discovery_new e)"
  by (simp add: discovery_ok_def discovery_new_def)

lemma sd_bucket_push: "sd_bucket (sd_push ch i d) ch' = (if ch' = ch then sd_bucket d ch @ [i] else sd_bucket d ch')"
  by (simp add: sd_bucket_def [of "sd_push ch i d"] sd_push_def) (simp add: sd_bucket_def)

lemma sd_bucket_unregister:
  "sd_bucket (snd (sd_unregister node ch d)) ch' =
     (if ch' = ch then filter (\<lambda>i. \<not> si_node_name i = node) (sd_bucket d ch) else sd_bucket d ch')"
  by (cases "um_find (sd_services d) ch") (auto simp: sd_bucket_def sd_unregister_def Let_def)

lemma sd_bucket_ok: "discovery_ok d \<Longrightarrow> i \<in> set (sd_bucket d ch) \<Longrightarrow> si_channel_name i = ch"
  by (auto simp: discovery_ok_def sd_bucket_def dest!: map_of_SomeD split: option.splits)

lemma discovery_ok_push [model_inv]: "discovery_ok d \<Longrightarrow> discovery_ok (sd_push (si_channel_name i) i d)"
  using sd_bucket_ok [of d] by (auto simp: discovery_ok_def sd_push_def set_um_put)

lemma discovery_ok_unregister [model_inv]: "discovery_ok d \<Longrightarrow> discovery_ok (snd (sd_unregister node ch d))"
  by (auto simp: discovery_ok_def sd_unregister_def set_um_put set_um_erase Let_def
      dest!: map_of_SomeD split: option.split)

definition table_ok :: "discovery \<Rightarrow> bool" where
  "table_ok d \<longleftrightarrow> umap_ok (sd_services d) \<and> (\<forall>(ch, l) \<in> set (sd_services d). l \<noteq> [])"

lemma table_ok_push: "table_ok d \<Longrightarrow> table_ok (sd_push ch i d)"
  by (auto simp: table_ok_def sd_push_def set_um_put)

lemma table_ok_unregister: "table_ok d \<Longrightarrow> table_ok (snd (sd_unregister node ch d))"
  by (auto simp: table_ok_def sd_unregister_def set_um_put set_um_erase Let_def split: option.split)

interpretation sdr: bucket_registry sd_push "\<lambda>ch node d. snd (sd_unregister node ch d)" sd_bucket
    "\<lambda>node i. si_node_name i = node" table_ok
  by unfold_locales (auto simp: sd_bucket_push sd_bucket_unregister table_ok_push table_ok_unregister)

section \<open>Registering and unregistering\<close>

text \<open>
  Unregistering undoes a registration: for a node that had no service on the channel, after
  \<open>RegisterService\<close> and \<open>UnregisterService\<close> every query gives what it gave before, and in
  general \<open>UnregisterService\<close> removes exactly the services of that node on that channel.
\<close>

theorem unregister_exact:
  assumes "table_ok d"
  shows "sd_find channel (snd (sd_unregister node channel d)) = filter (\<lambda>i. si_node_name i \<noteq> node) (sd_find channel d) \<and>
    (\<forall>ch. ch \<noteq> channel \<longrightarrow> sd_find ch (snd (sd_unregister node channel d)) = sd_find ch d) \<and>
    (fst (sd_unregister node channel d) \<longleftrightarrow> sd_find channel d \<noteq> []) \<and>
    (\<forall>info :: service_info. (\<forall>i \<in> set (sd_find (si_channel_name info) d). si_node_name i \<noteq> si_node_name info) \<longrightarrow>
       (\<forall>ch. sd_find ch (snd (sd_unregister (si_node_name info) (si_channel_name info)
          (snd (snd (sd_register info d))))) = sd_find ch d))"
proof (intro conjI allI impI)
  fix info :: service_info and ch
  assume "\<forall>i \<in> set (sd_find (si_channel_name info) d). si_node_name i \<noteq> si_node_name info"
  then have "sd_bucket (snd (sd_unregister (si_node_name info) (si_channel_name info)
      (sd_push (si_channel_name info) info d))) = sd_bucket d"
    by (intro sdr.remove_add_undo [OF assms]) (simp_all add: sd_find_def)
  then show "sd_find ch (snd (sd_unregister (si_node_name info) (si_channel_name info)
      (snd (snd (sd_register info d))))) = sd_find ch d"
    by (simp add: sd_find_def sd_register_def)
next
  show "fst (sd_unregister node channel d) \<longleftrightarrow> sd_find channel d \<noteq> []"
    using assms by (auto simp: sd_unregister_def sd_find_def sd_bucket_def table_ok_def Let_def
        dest!: map_of_SomeD split: option.splits)
qed (simp_all add: sd_find_def sd_bucket_unregister)

definition demo_service :: service_info where
  "demo_service = service_default\<lparr>si_node_name := ''cam'', si_channel_name := ''img'', si_type_name := ''Image'',
     si_is_transmitter := True, si_timestamp := 1700000000\<rparr>"

lemma table_ok_new [simp]: "table_ok (discovery_new e)"
  by (simp add: table_ok_def discovery_new_def)

theorem unregister_exact_witness:
  "sd_find ''img'' (snd (sd_unregister ''cam'' ''img'' (sd_push ''img'' demo_service (discovery_new [])))) = []"
  using conjunct1 [OF unregister_exact [OF table_ok_push [OF table_ok_new]], of "''img''" "''cam''" "''img''" demo_service "[]"]
  by (simp add: sd_find_def sd_bucket_push) (simp add: sd_bucket_def discovery_new_def demo_service_def)

section \<open>Announcements on the wire\<close>

lemma of_char_digit: "d < 10 \<Longrightarrow> (of_char (char_of (48 + d :: nat)) :: nat) = 48 + d"
  by (simp add: of_char_of)

lemma digits_show: "digits_value (show_nat n) = n \<and> show_nat n \<noteq> [] \<and> (\<forall>c \<in> set (show_nat n). is_digit c)"
proof (induction n rule: show_nat.induct)
  case (1 n)
  show ?case
  proof (cases "n < 10")
    case True
    then show ?thesis
      by (subst (1 2 3) show_nat.simps) (simp add: digits_value_def is_digit_def of_char_digit)
  next
    case False
    have "n mod 10 < 10" by simp
    with False 1 show ?thesis
      by (subst (1 2 3) show_nat.simps) (auto simp: digits_value_def is_digit_def of_char_digit)
  qed
qed

lemma digit_not_special: "is_digit c \<Longrightarrow> \<not> is_space c \<and> c \<noteq> CHR ''-'' \<and> c \<noteq> CHR ''+'' \<and> c \<noteq> bar \<and> c \<noteq> CHR 0x00"
  by (auto simp: is_digit_def is_space_def)

lemma show_nat_parse: "takeWhile is_digit (show_nat n) = show_nat n" "dropWhile is_space (show_nat n) = show_nat n"
    "hd (show_nat n) \<noteq> CHR ''-''" "hd (show_nat n) \<noteq> CHR ''+''"
proof -
  have d: "\<forall>c \<in> set (show_nat n). is_digit c" "show_nat n \<noteq> []" using digits_show by auto
  then show "takeWhile is_digit (show_nat n) = show_nat n" by (simp add: takeWhile_eq_all_conv)
  have hd: "is_digit (hd (show_nat n))" using d by simp
  then show "hd (show_nat n) \<noteq> CHR ''-''" "hd (show_nat n) \<noteq> CHR ''+''" using digit_not_special by blast+
  have "\<not> is_space (hd (show_nat n))" using digit_not_special hd by blast
  with d(2) show "dropWhile is_space (show_nat n) = show_nat n" by (cases "show_nat n") auto
qed

lemma stoll_show: "- (2 ^ 63) \<le> i \<Longrightarrow> i < 2 ^ 63 \<Longrightarrow> stoll (show_int i) = Inr i"
  using digits_show [of "nat i"] digits_show [of "nat (- i)"]
  by (cases "i < 0") (simp_all add: parse_int_def show_int_def Let_def is_space_def show_nat_parse
      del: takeWhile_eq_all_conv)

lemma show_int_chars: "c \<in> set (show_int i) \<Longrightarrow> c \<noteq> bar \<and> c \<noteq> CHR 0x00" "show_int i \<noteq> []"
  using digits_show [of "nat i"] digits_show [of "nat (- i)"] digit_not_special [of c]
  by (auto simp: show_int_def split: if_splits)

lemma getline_last: "d \<notin> set xs \<Longrightarrow> xs \<noteq> [] \<Longrightarrow> getline d xs = Some (xs, [])"
  by (metis (mono_tags, lifting) drop_Nil dropWhile_eq_Nil_conv getline_def takeWhile_eq_all_conv)

definition wire_field :: "string \<Rightarrow> bool" where
  "wire_field s \<longleftrightarrow> bar \<notin> set s \<and> CHR 0x00 \<notin> set s"

definition wire_ok :: "service_info \<Rightarrow> bool" where
  "wire_ok i \<longleftrightarrow> wire_field (si_node_name i) \<and> wire_field (si_channel_name i) \<and> wire_field (si_type_name i) \<and>
     - (2 ^ 63) \<le> si_timestamp i \<and> si_timestamp i < 2 ^ 63 \<and> length (announcement i) \<le> 4095"

lemma announcement_parsed:
  assumes "wire_ok info"
  shows "parse_announcement (take 4095 (announcement info)) = Inr (info\<lparr>si_endpoint := []\<rparr>)"
proof -
  have "CHR 0x00 \<notin> set (announcement info)"
    using assms show_int_chars(1) by (auto simp: announcement_def wire_ok_def wire_field_def)
  then have "takeWhile (\<lambda>c. c \<noteq> CHR 0x00) (announcement info) = announcement info"
    by (auto simp: takeWhile_eq_all_conv)
  moreover have "getline bar (show_int (si_timestamp info)) = Some (show_int (si_timestamp info), [])"
    using show_int_chars by (intro getline_last) auto
  moreover have "stoll (show_int (si_timestamp info)) = Inr (si_timestamp info)"
    using assms by (intro stoll_show) (simp_all add: wire_ok_def)
  moreover have "take 4095 (announcement info) = announcement info" using assms by (simp add: wire_ok_def)
  moreover have "bar \<notin> set (si_node_name info)" "bar \<notin> set (si_channel_name info)" "bar \<notin> set (si_type_name info)"
    using assms by (simp_all add: wire_ok_def wire_field_def)
  ultimately show ?thesis
    unfolding parse_announcement_def
    by (cases info) (simp add: announcement_def getline_append service_default_def Let_def
        del: takeWhile_eq_all_conv take_append takeWhile_append)
qed

text \<open>
  C31. An announcement is understood as it was meant: if no name holds a bar or a NUL, the
  timestamp fits 64 bits and the text fits the receive buffer, the receiver reconstructs the
  service, except for its endpoint, which is not sent.
\<close>

theorem announcement_roundtrip:
  assumes "wire_ok info"
  shows "parse_announcement (take 4095 (announcement info)) = Inr (info\<lparr>si_endpoint := []\<rparr>)"
  using assms by (rule announcement_parsed)

lemma demo_wire: "announcement demo_service = ''cam|img|Image|TX|1700000000''"
  by (simp add: announcement_def demo_service_def service_default_def show_int_def show_nat.simps)
    (simp add: char_of_def bit_0)

theorem announcement_roundtrip_witness:
  "parse_announcement ''cam|img|Image|TX|1700000000'' = Inr demo_service"
proof -
  have "wire_ok demo_service" unfolding wire_ok_def demo_wire
    by (simp add: wire_field_def demo_service_def service_default_def)
  from announcement_roundtrip [OF this] show ?thesis unfolding demo_wire
    by (simp add: demo_service_def service_default_def)
qed

text \<open>
  A datagram whose fifth field is not a number ends the receiving program: the exception of
  \<open>std::stoll\<close> leaves the listening thread.
\<close>

theorem malformed_datagram_fatal:
  assumes "wire_field a" "wire_field b" "wire_field c" "wire_field dir" "wire_field ts" "ts \<noteq> []"
    and "length (a @ [bar] @ b @ [bar] @ c @ [bar] @ dir @ [bar] @ ts) \<le> 4095" "stoll ts = Inl e"
  shows "sd_receive (a @ [bar] @ b @ [bar] @ c @ [bar] @ dir @ [bar] @ ts) d = Inl e"
proof -
  let ?m = "a @ [bar] @ b @ [bar] @ c @ [bar] @ dir @ [bar] @ ts"
  have "takeWhile (\<lambda>c. c \<noteq> CHR 0x00) ?m = ?m"
    using assms(1-5) unfolding takeWhile_eq_all_conv by (auto simp: wire_field_def)
  moreover have "getline bar ts = Some (ts, [])" using assms(5,6) by (intro getline_last) (simp_all add: wire_field_def)
  moreover have "take 4095 ?m = ?m" using assms(7) by simp
  ultimately show ?thesis using assms(1-4,8)
    by (simp add: sd_receive_def parse_announcement_def getline_append wire_field_def Let_def
        del: takeWhile_eq_all_conv)
qed

theorem malformed_datagram_fatal_witness:
  "sd_receive ''n|c|t|TX|soon'' d = Inl InvalidArgument"
  using malformed_datagram_fatal [of "''n''" "''c''" "''t''" "''TX''" "''soon''" InvalidArgument d]
  by (simp add: wire_field_def parse_int_def is_space_def is_digit_def Let_def)

section \<open>What announcements do to the table\<close>

lemma refresh_None: "refresh node ch ts l = None \<longleftrightarrow> (\<forall>i \<in> set l. \<not> (si_node_name i = node \<and> si_channel_name i = ch))"
  by (induction l) auto

lemma refresh_keys: "refresh node ch ts l = Some l' \<Longrightarrow>
    map si_node_name l' = map si_node_name l \<and> map si_channel_name l' = map si_channel_name l"
  by (induction l arbitrary: l') (auto split: if_splits)

lemma sd_bucket_process:
  "sd_bucket (snd (sd_process info d)) ch =
     (if ch = si_channel_name info
      then (case refresh (si_node_name info) ch (si_timestamp info) (sd_bucket d ch) of
              Some l \<Rightarrow> l | None \<Rightarrow> sd_bucket d ch @ [info])
      else sd_bucket d ch)"
  by (auto simp: sd_process_def Let_def split: option.split) (auto simp: sd_bucket_def split: option.split)

definition process_all :: "service_info list \<Rightarrow> discovery \<Rightarrow> discovery" where
  "process_all infos d = fold (\<lambda>i d. snd (sd_process i d)) infos d"

definition nodes_of :: "string \<Rightarrow> service_info list \<Rightarrow> string list" where
  "nodes_of ch infos = map si_node_name (filter (\<lambda>i. si_channel_name i = ch) infos)"

lemma process_bucket_channel:
  assumes "\<forall>ch. \<forall>i \<in> set (sd_bucket d ch). si_channel_name i = ch"
  shows "\<forall>ch. \<forall>i \<in> set (sd_bucket (snd (sd_process info d)) ch). si_channel_name i = ch"
proof (intro allI ballI)
  fix ch i
  assume i: "i \<in> set (sd_bucket (snd (sd_process info d)) ch)"
  show "si_channel_name i = ch"
  proof (cases "ch = si_channel_name info \<and> refresh (si_node_name info) ch (si_timestamp info) (sd_bucket d ch) \<noteq> None")
    case True
    then obtain l where l: "refresh (si_node_name info) ch (si_timestamp info) (sd_bucket d ch) = Some l" by auto
    with True i have "si_channel_name i \<in> set (map si_channel_name l)" by (simp add: sd_bucket_process)
    with refresh_keys [OF l] assms show ?thesis by auto
  next
    case False
    with i assms show ?thesis by (auto simp: sd_bucket_process split: if_splits)
  qed
qed

lemma process_all_nodes:
  assumes "\<forall>ch. \<forall>i \<in> set (sd_bucket d ch). si_channel_name i = ch" "distinct (map si_node_name (sd_bucket d ch))"
  shows "distinct (map si_node_name (sd_bucket (process_all infos d) ch)) \<and>
    set (map si_node_name (sd_bucket (process_all infos d) ch)) = set (map si_node_name (sd_bucket d ch)) \<union> set (nodes_of ch infos)"
  using assms
proof (induction infos arbitrary: d)
  case Nil
  then show ?case by (simp add: process_all_def nodes_of_def)
next
  case (Cons info infos)
  let ?d = "snd (sd_process info d)"
  have "map si_node_name (sd_bucket ?d ch) =
      (if si_channel_name info = ch \<and> si_node_name info \<notin> set (map si_node_name (sd_bucket d ch))
       then map si_node_name (sd_bucket d ch) @ [si_node_name info] else map si_node_name (sd_bucket d ch))"
  proof (cases "refresh (si_node_name info) ch (si_timestamp info) (sd_bucket d ch)")
    case None
    have "si_node_name info \<notin> set (map si_node_name (sd_bucket d ch)) \<or> si_channel_name info \<noteq> ch"
      using None [unfolded refresh_None] Cons.prems(1) by auto
    with None show ?thesis
      by (cases "ch = si_channel_name info") (auto simp: sd_bucket_process)
  next
    case (Some l)
    then have "\<exists>i \<in> set (sd_bucket d ch). si_node_name i = si_node_name info"
      using refresh_None [of "si_node_name info" ch "si_timestamp info" "sd_bucket d ch"] by auto
    then have "si_node_name info \<in> set (map si_node_name (sd_bucket d ch))" by (metis image_eqI list.set_map)
    with Some refresh_keys [OF Some] show ?thesis by (auto simp: sd_bucket_process)
  qed
  with Cons.IH [OF process_bucket_channel [OF Cons.prems(1), of info]] Cons.prems(2) show ?case
    by (auto simp: process_all_def nodes_of_def)
qed

text \<open>
  From announcements alone the table lists every announced node of a channel exactly once,
  however often and in whatever order the announcements arrive.
\<close>

theorem announcements_once:
  "distinct (map si_node_name (sd_find ch (process_all infos (discovery_new e)))) \<and>
   set (map si_node_name (sd_find ch (process_all infos (discovery_new e)))) = set (nodes_of ch infos)"
  using process_all_nodes [of "discovery_new e" ch infos]
  by (simp add: sd_find_def) (simp add: sd_bucket_def discovery_new_def)

text \<open>
  A node that transmits and receives on one channel is known with only one of the two: after
  its first announcement the other direction neither enters the table nor is reported to the
  \<open>OnServiceFound\<close> callback.
\<close>

theorem second_direction_lost:
  assumes "si_node_name i2 = si_node_name i1" "si_channel_name i2 = si_channel_name i1"
    and "si_is_transmitter i2 \<noteq> si_is_transmitter i1" "sd_bucket d (si_channel_name i1) = []"
  shows "fst (sd_process i2 (snd (sd_process i1 d))) = [] \<and>
    sd_find (si_channel_name i1) (snd (sd_process i2 (snd (sd_process i1 d)))) = [i1\<lparr>si_timestamp := si_timestamp i2\<rparr>]"
proof -
  have one: "sd_bucket (snd (sd_process i1 d)) (si_channel_name i1) = [i1]"
    by (simp add: sd_bucket_process assms(4))
  have "fst (sd_process i2 (snd (sd_process i1 d))) = []"
    by (simp add: sd_process_def [of i2] Let_def assms(1,2) one)
  then show ?thesis
    by (simp add: sd_find_def sd_bucket_process [of i2] assms(1,2) one)
qed

theorem second_direction_lost_witness:
  "fst (sd_process (demo_service\<lparr>si_is_transmitter := False\<rparr>)
     (snd (sd_process demo_service (sd_on_found True (discovery_new e))))) = []"
  by (rule conjunct1 [OF second_direction_lost])
    (simp_all add: demo_service_def sd_on_found_def discovery_new_def sd_bucket_def)

text \<open>
  Expiry keeps exactly the services announced within the last 30 seconds and leaves no empty
  channel behind.
\<close>

theorem cleanup_exact:
  assumes "table_ok d"
  shows "sd_find ch (sd_cleanup now d) = filter (\<lambda>i. now - si_timestamp i \<le> 30) (sd_find ch d) \<and>
    table_ok (sd_cleanup now d)"
proof -
  let ?keep = "\<lambda>l. filter (\<lambda>i. \<not> now - si_timestamp i > 30) l"
  have keys: "fst ` set (sd_expire now m) \<subseteq> fst ` set m" for m
    by (force simp: sd_expire_def)
  have find: "um_find (sd_expire now m) ch =
      (case um_find m ch of None \<Rightarrow> None | Some l \<Rightarrow> if ?keep l = [] then None else Some (?keep l))"
    if "umap_ok m" for m
    using that
  proof (induction m)
    case (Cons p m)
    obtain k l where p: "p = (k, l)" by fastforce
    have "k \<notin> fst ` set (sd_expire now m)" using Cons.prems keys [of m] p by auto
    then have "um_find (sd_expire now m) k = None" by (simp add: map_of_eq_None_iff)
    moreover have "sd_expire now (p # m) = (if ?keep l = [] then [] else [(k, ?keep l)]) @ sd_expire now m"
      by (simp add: sd_expire_def p)
    ultimately show ?case using Cons p by auto
  qed (simp add: sd_expire_def)
  have "umap_ok (sd_expire now (sd_services d))"
    using assms by (simp add: table_ok_def sd_expire_def distinct_map_filter comp_def case_prod_beta')
  then have "table_ok (sd_cleanup now d)"
    by (auto simp: table_ok_def sd_cleanup_def sd_expire_def)
  moreover have "sd_find ch (sd_cleanup now d) = ?keep (sd_find ch d)"
    using find [of "sd_services d"] assms
    by (auto simp: sd_find_def sd_bucket_def sd_cleanup_def table_ok_def split: option.split)
  ultimately show ?thesis by (simp add: not_less)
qed

theorem cleanup_exact_witness:
  "sd_find ''img'' (sd_cleanup 1700000031 (sd_push ''img'' demo_service (discovery_new []))) = []"
  using conjunct1 [OF cleanup_exact [OF table_ok_push [OF table_ok_new]], of "''img''" 1700000031 "''img''" demo_service "[]"]
  by (simp add: sd_find_def sd_bucket_push) (simp add: sd_bucket_def discovery_new_def demo_service_def)

text \<open>An endpoint without a port is parsed as a port: the address up to its first dot.\<close>

lemma endpoint_without_port: "snd (split_endpoint ''239.255.0.1'') = Inr 239"
  by (simp add: split_endpoint_def parse_int_def is_space_def is_digit_def digits_value_def Let_def)

end
