(* ===== verification/ChannelTests.thy ===== *)
theory ChannelTests
  imports ShmExchange Discovery
begin

text \<open>
  \<open>tests/test_shm_channel.cpp\<close>: its test functions as programs over the channel, a publishing and a
  consuming handle in one process. What the operating system answers, the clock and the old contents of
  the segments are arguments; what is printed is reduced to the verdict.
\<close>

section \<open>Publishing without consuming\<close>

text \<open>What one call does to the number of messages, to the room and to the counter of losses.\<close>

lemma xc_publish_effect:
  assumes inv: "xc_inv n s" and fits: "shm_fits (xc_pub s, xc_cb s) data" and t: "xc_call (Publish now data) s = Some t"
  shows "cc_payload_max (sc_config (xc_pub t)) = cc_payload_max (sc_config (xc_pub s)) \<and>
    (if pending (xc_cb s) < n - 1
     then xc_accepted t = xc_accepted s @ [(now, data)] \<and> pending (xc_cb t) = Suc (pending (xc_cb s)) \<and> cb_dropped (xc_cb t) = cb_dropped (xc_cb s)
     else xc_accepted t = xc_accepted s \<and> pending (xc_cb t) = pending (xc_cb s) \<and> cb_dropped (xc_cb t) = cb_dropped (xc_cb s) + 1)"
proof -
  have wf: "shm_wf (xc_pub s, xc_cb s)" "slots_n (xc_cb s) = n" using inv by (simp_all add: xc_inv_def)
  show ?thesis
  proof (cases "pending (xc_cb s) < n - 1")
    case True
    with wf(2) have room: "pending (xc_cb s) < slots_n (xc_cb s) - 1" by simp
    from t True publish_room [OF wf(1) fits room] pending_published [OF wf(1) room] show ?thesis
      by (auto simp: case_prod_beta) (simp_all add: published_def Let_def)
  next
    case False
    with shm_within [OF wf(1)] wf(2) have "pending (xc_cb s) = slots_n (xc_cb s) - 1"
      by (simp add: shm_items_def shm_limit_def)
    from t False publish_full [OF wf(1) fits this] show ?thesis by (auto simp: pending_def)
  qed
qed

text \<open>Of several publications the first ones are accepted, as many as there is room for.\<close>

abbreviation publications :: "(u64 \<times> byte list) list \<Rightarrow> channel_call list" where
  "publications \<equiv> map (\<lambda>(now, data). Publish now data)"

lemma burst:
  assumes "xc_inv n s" "\<forall>(now, data) \<in> set ps. length data \<le> unat (cc_payload_max (sc_config (xc_pub s)))"
  shows "\<exists>t. xc_run (publications ps) s = Some t \<and> xc_inv n t \<and> xc_delivered t = xc_delivered s \<and>
    xc_accepted t = xc_accepted s @ take (n - 1 - pending (xc_cb s)) ps \<and>
    cb_dropped (xc_cb t) = cb_dropped (xc_cb s) + of_nat (length ps - (n - 1 - pending (xc_cb s)))"
  using assms
proof (induction ps arbitrary: s)
  case (Cons p ps)
  obtain now data where p: "p = (now, data)" by fastforce
  obtain u where u: "xc_call (Publish now data) s = Some u" "xc_inv n u" "xc_delivered u = xc_delivered s"
    using xc_publish [OF Cons.prems(1)] by blast
  have "shm_fits (xc_pub s, xc_cb s) data" using Cons.prems(2) p by (simp add: shm_fits_def)
  note eff = xc_publish_effect [OF Cons.prems(1) this u(1)]
  obtain t where t: "xc_run (publications ps) u = Some t" "xc_inv n t" "xc_delivered t = xc_delivered u"
    "xc_accepted t = xc_accepted u @ take (n - 1 - pending (xc_cb u)) ps"
    "cb_dropped (xc_cb t) = cb_dropped (xc_cb u) + of_nat (length ps - (n - 1 - pending (xc_cb u)))"
    using Cons.IH [OF u(2)] eff Cons.prems(2) by auto
  show ?case
  proof (cases "pending (xc_cb s) < n - 1")
    case True
    then have "n - 1 - pending (xc_cb s) = Suc (n - 1 - Suc (pending (xc_cb s)))" by arith
    with True eff t u p show ?thesis by simp
  next
    case False
    with eff t u p show ?thesis by simp
  qed
qed simp

section \<open>The programs\<close>

definition test_config :: "string \<Rightarrow> size_t \<Rightarrow> size_t \<Rightarrow> channel_config" where
  "test_config name buffer_size payload_max =
     config_default\<lparr>cc_name := name, cc_buffer_size := buffer_size, cc_payload_max := payload_max\<rparr>"

text \<open>
  Both handles; \<open>None\<close> is the early return of a test whose channels cannot be made. The wait for the
  initialisation that follows returns at once, since \<open>create\<close> has finished.
\<close>

definition channel_setup :: "os \<Rightarrow> channel_config \<Rightarrow> control_block \<Rightarrow> (nat \<Rightarrow> shm_slot) \<Rightarrow> exchange option" where
  "channel_setup os config cb0 old =
     (let (p, cb1, h1) = channel_create os config cb0 old [];
          (d, cb2, h2) = channel_open os (cc_name config) cb1 h1
      in case (p, d) of
           (Some c, Some e) \<Rightarrow> Some \<lparr>xc_pub = c, xc_con = e, xc_cb = cb2, xc_accepted = [], xc_delivered = []\<rparr>
         | _ \<Rightarrow> None)"

lemma channel_setup_inv:
  assumes "channel_setup os config cb0 old = Some s" "sane_config config old"
  shows "xc_inv (unat (cc_buffer_size config)) s \<and> xc_accepted s = [] \<and> xc_delivered s = [] \<and> pending (xc_cb s) = 0 \<and>
    cb_dropped (xc_cb s) = 0 \<and> cb_sent (xc_cb s) = 0 \<and> sc_config (xc_pub s) = config"
proof -
  obtain c cb h1 e cb2 h2 where made: "channel_create os config cb0 old [] = (Some c, cb, h1)"
      "channel_open os (cc_name config) cb h1 = (Some e, cb2, h2)"
    and s: "s = \<lparr>xc_pub = c, xc_con = e, xc_cb = cb2, xc_accepted = [], xc_delivered = []\<rparr>"
    using assms(1) by (auto simp: channel_setup_def Let_def case_prod_beta split: option.splits) (metis prod.collapse)
  have wf: "shm_wf (c, cb)" "views cb = []" using created_wf [OF made(1) assms(2)] by auto
  have e: "cb2 = cb" "shm_wf (e, cb)" using opened_handle [OF made(2) wf(1)] by auto
  have "cb = fresh_control config old" "sc_local_sequence c = 0" "sc_config c = config"
    using create_memory [OF made(1)] made(1) by (auto simp: channel_create_def Let_def case_prod_beta split: if_splits)
  with wf e s show ?thesis
    by (simp add: xc_inv_def xc_messages_def views_empty_iff) (simp add: fresh_control_def)
qed

text \<open>\<open>test_multiple_messages\<close>: the payloads that were consumed.\<close>

definition multiple_messages :: "(nat \<Rightarrow> u64) \<Rightarrow> exchange \<Rightarrow> byte list list option" where
  "multiple_messages clock s =
     map_option (\<lambda>t. map mv_payload (xc_delivered t))
       (xc_run (publications (map (\<lambda>i. (clock i, text_bytes (''Message #'' @ show_nat i))) [0..<5]) @ [Consume]) s)"

text \<open>\<open>test_buffer_overflow\<close>: how many calls returned true, and the counter of the publisher.\<close>

definition buffer_overflow :: "(nat \<Rightarrow> u64) \<Rightarrow> exchange \<Rightarrow> (nat \<times> u64) option" where
  "buffer_overflow clock s =
     map_option (\<lambda>t. (length (xc_accepted t), messages_dropped (xc_pub t) (xc_cb t)))
       (xc_run (publications (map (\<lambda>i. (clock i, text_bytes (''Msg'' @ show_nat i))) [0..<10])) s)"

text \<open>
  \<open>test_zero_copy_performance\<close>: 10000 publications of 1024 bytes, then calls of \<open>consume\<close> until 10000
  messages have come. A fault ends the loop with \<open>Inl\<close>; \<open>None\<close> is a loop that does not end.
\<close>

definition performance_count :: nat where
  "performance_count = 10000"

partial_function (option) performance_loop :: "exchange \<Rightarrow> (unit + exchange) option" where
  "performance_loop s =
     (if length (xc_delivered s) < performance_count
      then (case xc_call Consume s of None \<Rightarrow> Some (Inl ()) | Some t \<Rightarrow> performance_loop t)
      else Some (Inr s))"

definition performance :: "(nat \<Rightarrow> u64) \<Rightarrow> exchange \<Rightarrow> (unit + exchange) option" where
  "performance clock s =
     (case xc_run (publications (map (\<lambda>i. (clock i, replicate 1024 65)) [0..<performance_count])) s of
        None \<Rightarrow> Some (Inl ()) | Some t \<Rightarrow> performance_loop t)"

section \<open>What the tests do\<close>

lemma length_show_digit: "i < 10 \<Longrightarrow> length (show_nat i) = 1"
  by (simp add: show_nat.simps)

lemma consume_all:
  assumes "xc_run cs s = Some u" "xc_inv n u"
  shows "\<exists>t. xc_run (cs @ [Consume]) s = Some t \<and> xc_inv n t \<and> xc_accepted t = xc_accepted u \<and> xc_delivered t = xc_messages u"
proof -
  have "xc_run (cs @ [Consume]) s = (case xc_run cs s of None \<Rightarrow> None | Some u \<Rightarrow> xc_call Consume u)" for s
    by (induction cs arbitrary: s) (auto split: option.splits)
  with assms xc_consume [OF assms(2)] show ?thesis by auto
qed

text \<open>Five messages through a buffer of eight: all are consumed, in order and unchanged.\<close>

theorem multiple_messages_passes:
  assumes "channel_setup os (test_config ''test_multi'' 8 256) cb0 old = Some s"
    and "sane_config (test_config ''test_multi'' 8 256) old"
  shows "multiple_messages clock s = Some (map (\<lambda>i. text_bytes (''Message #'' @ show_nat i)) [0..<5])"
proof -
  let ?ps = "map (\<lambda>i. (clock i, text_bytes (''Message #'' @ show_nat i))) [0..<5]"
  note s = channel_setup_inv [OF assms]
  then have inv: "xc_inv 8 s" and max: "unat (cc_payload_max (sc_config (xc_pub s))) = 256" by (simp_all add: test_config_def)
  have "\<forall>(now, data) \<in> set ?ps. length data \<le> unat (cc_payload_max (sc_config (xc_pub s)))"
    using max by (auto simp: length_show_digit)
  from burst [OF inv this] s obtain u where u: "xc_run (publications ?ps) s = Some u" "xc_inv 8 u" "xc_accepted u = ?ps"
    by auto
  obtain t where t: "xc_run (publications ?ps @ [Consume]) s = Some t" "xc_accepted t = ?ps" "xc_delivered t = xc_messages u"
    using consume_all [OF u(1,2)] u(3) by auto
  have "map view_content (xc_messages u) = ?ps" using u(2,3) by (simp add: xc_inv_def)
  then have "map snd (map view_content (xc_messages u)) = map snd ?ps" by simp
  then have "map mv_payload (xc_messages u) = map (\<lambda>i. text_bytes (''Message #'' @ show_nat i)) [0..<5]"
    by (simp add: view_content_def comp_def)
  with t show ?thesis by (simp add: multiple_messages_def)
qed

text \<open>Ten messages into a buffer of four: three are accepted and seven counted as dropped.\<close>

theorem buffer_overflow_passes:
  assumes "channel_setup os (test_config ''test_overflow'' 4 64) cb0 old = Some s"
    and "sane_config (test_config ''test_overflow'' 4 64) old"
  shows "buffer_overflow clock s = Some (3, 7)"
proof -
  let ?ps = "map (\<lambda>i. (clock i, text_bytes (''Msg'' @ show_nat i))) [0..<10]"
  note s = channel_setup_inv [OF assms]
  then have inv: "xc_inv 4 s" and max: "unat (cc_payload_max (sc_config (xc_pub s))) = 64" by (simp_all add: test_config_def)
  have "\<forall>(now, data) \<in> set ?ps. length data \<le> unat (cc_payload_max (sc_config (xc_pub s)))"
    using max by (auto simp: length_show_digit)
  from burst [OF inv this] s obtain u where u: "xc_run (publications ?ps) s = Some u" "xc_inv 4 u"
    "length (xc_accepted u) = 3" "cb_dropped (xc_cb u) = 7"
    by auto
  then show ?thesis by (simp add: buffer_overflow_def messages_dropped_def xc_inv_def shm_wf_def)
qed

text \<open>
  The performance test publishes everything before it consumes anything. Its buffer takes 1023 of the
  10000 messages, so the loop that waits for 10000 never ends.
\<close>

lemma performance_loop_stays:
  assumes "xc_inv n s" "length (xc_accepted s) < performance_count"
  shows "performance_loop s = None"
proof (rule ccontr)
  assume "performance_loop s \<noteq> None"
  then obtain r where r: "performance_loop s = Some r" by blast
  let ?P = "\<lambda>s (_ :: unit + exchange). xc_inv n s \<longrightarrow> performance_count \<le> length (xc_accepted s)"
  have "?P s r"
  proof (rule performance_loop.raw_induct [where P = ?P, OF _ r])
    fix loop :: "exchange \<Rightarrow> (unit + exchange) option" and s r
    assume IH: "\<And>s r. loop s = Some r \<Longrightarrow> ?P s r"
      and body: "(if length (xc_delivered s) < performance_count
        then (case xc_call Consume s of None \<Rightarrow> Some (Inl ()) | Some t \<Rightarrow> loop t) else Some (Inr s)) = Some r"
    show "?P s r"
    proof
      assume inv: "xc_inv n s"
      have "length (xc_accepted s) = length (xc_messages s)" using inv unfolding xc_inv_def by (metis length_map)
      then have le: "length (xc_delivered s) \<le> length (xc_accepted s)" by (simp add: xc_messages_def)
      obtain t where t: "xc_call Consume s = Some t" "xc_inv n t" "xc_accepted t = xc_accepted s"
        using xc_consume [OF inv] by blast
      show "performance_count \<le> length (xc_accepted s)"
      proof (cases "length (xc_delivered s) < performance_count")
        case True
        with body t have "loop t = Some r" by simp
        from IH [OF this] t show ?thesis by simp
      qed (use le in simp)
    qed
  qed
  with assms show False by simp
qed

theorem performance_never_ends:
  assumes "channel_setup os (test_config ''test_perf'' 1024 4096) cb0 old = Some s"
    and "sane_config (test_config ''test_perf'' 1024 4096) old"
  shows "performance clock s = None"
proof -
  let ?ps = "map (\<lambda>i. (clock i, replicate 1024 65)) [0..<performance_count]"
  note s = channel_setup_inv [OF assms]
  then have inv: "xc_inv 1024 s" and max: "unat (cc_payload_max (sc_config (xc_pub s))) = 4096" by (simp_all add: test_config_def)
  have "\<forall>(now, data) \<in> set ?ps. length data \<le> unat (cc_payload_max (sc_config (xc_pub s)))"
    using max by auto
  from burst [OF inv this] s obtain u where u: "xc_run (publications ?ps) s = Some u" "xc_inv 1024 u"
    "xc_accepted u = take 1023 ?ps" by auto
  then have "length (xc_accepted u) < performance_count" by (simp add: performance_count_def)
  from performance_loop_stays [OF u(2) this] u(1) show ?thesis by (simp add: performance_def)
qed

definition test_old :: "nat \<Rightarrow> shm_slot" where
  "test_old i = \<lparr>cs_sequence = 0, cs_state = 0, cs_header = header_default, cs_payload = replicate 4096 0\<rparr>"

theorem performance_never_ends_witness:
  "\<exists>s. channel_setup os_demo (test_config ''test_perf'' 1024 4096) cb0 test_old = Some s \<and> performance (\<lambda>_. 0) s = None"
proof -
  have "channel_setup os_demo (test_config ''test_perf'' 1024 4096) cb0 test_old \<noteq> None"
    by (simp add: channel_setup_def channel_create_def channel_open_def sh_create_def sh_open_def sh_map_def sys_def os_demo_def
        test_config_def config_default_def normalize_name_def segment_none_def channel_total_size_def channel_slot_size_def
        sizeof_control_def sizeof_slot_def stored_name_def fresh_control_def Let_def)
  then obtain s where "channel_setup os_demo (test_config ''test_perf'' 1024 4096) cb0 test_old = Some s" by blast
  moreover have "sane_config (test_config ''test_perf'' 1024 4096) test_old"
    by (simp add: sane_config_def test_config_def test_old_def)
  ultimately show ?thesis using performance_never_ends by blast
qed

end
