(* ===== verification/ProtoCodec.thy ===== *)
theory ProtoCodec
  imports Message
begin

text \<open>
  \<open>include/lwipc/proto_codec.hpp\<close> and \<open>src/proto_codec.cpp\<close>. The class \<open>Frame\<close> is generated
  from \<open>proto/lwipc_frame.proto\<close> at build time, so its \<open>SerializeToString\<close> and
  \<open>ParseFromArray\<close> are arguments here; the properties assume of them what the protobuf
  documentation promises, that parsing inverts serialising.
\<close>

record frame =
  fr_topic_id :: u32
  fr_sequence :: u64
  fr_timestamp_ns :: u64
  fr_payload :: "byte list"

datatype proto_error = SerializeFailed | ParseFailed

definition encode_proto :: "(frame \<Rightarrow> byte list option) \<Rightarrow> message_view \<Rightarrow> proto_error + byte list" where
  "encode_proto serialize msg =
     (case serialize \<lparr>fr_topic_id = mh_topic_id (mv_header msg), fr_sequence = mh_sequence (mv_header msg),
             fr_timestamp_ns = mh_timestamp_ns (mv_header msg), fr_payload = mv_payload msg\<rparr> of
        None \<Rightarrow> Inl SerializeFailed
      | Some out \<Rightarrow> Inr out)"

text \<open>Only four fields are set; the others keep their default initialisers.\<close>

definition decode_proto_header :: "(byte list \<Rightarrow> frame option) \<Rightarrow> byte list \<Rightarrow> proto_error + message_header" where
  "decode_proto_header parse data =
     (case parse data of
        None \<Rightarrow> Inl ParseFailed
      | Some f \<Rightarrow> Inr (header_default\<lparr>mh_topic_id := fr_topic_id f, mh_sequence := fr_sequence f,
          mh_timestamp_ns := fr_timestamp_ns f, mh_payload_len := of_nat (length (fr_payload f))\<rparr>))"

text \<open>
  A header survives encoding and decoding in its topic, sequence number and timestamp; the
  length comes from the payload modulo \<open>2 ^ 32\<close>, whatever the header said, and the checksum,
  the flags and the ABI version are not transported: they come back as their defaults.
\<close>

theorem proto_header_roundtrip:
  assumes "\<And>f out. serialize f = Some out \<Longrightarrow> parse out = Some f"
    and "encode_proto serialize msg = Inr out"
  shows "decode_proto_header parse out =
    Inr (header_default\<lparr>mh_topic_id := mh_topic_id (mv_header msg), mh_sequence := mh_sequence (mv_header msg),
      mh_timestamp_ns := mh_timestamp_ns (mv_header msg), mh_payload_len := of_nat (length (mv_payload msg))\<rparr>)"
  using assms by (auto simp: encode_proto_def decode_proto_header_def split: option.splits)

text \<open>A concrete codec for frames whose three numbers fit a byte, to show the hypothesis can hold.\<close>

definition toy_serialize :: "frame \<Rightarrow> byte list option" where
  "toy_serialize f = (if unat (fr_topic_id f) < 256 \<and> unat (fr_sequence f) < 256 \<and> unat (fr_timestamp_ns f) < 256
     then Some (ucast (fr_topic_id f) # ucast (fr_sequence f) # ucast (fr_timestamp_ns f) # fr_payload f) else None)"

fun toy_parse :: "byte list \<Rightarrow> frame option" where
  "toy_parse (a # b # c # p) =
     Some \<lparr>fr_topic_id = ucast a, fr_sequence = ucast b, fr_timestamp_ns = ucast c, fr_payload = p\<rparr>"
| "toy_parse _ = None"

lemma ucast_byte_trip:
  fixes w :: "'a :: len word"
  assumes "unat w < 256" "8 \<le> LENGTH('a)"
  shows "ucast (ucast w :: byte) = w"
proof -
  have "take_bit 8 w = w" using assms
    by (simp add: word_unat_eq_iff unsigned_take_bit_eq take_bit_nat_eq_self)
  then have "bit w n \<longleftrightarrow> n < 8 \<and> bit w n" for n by (metis bit_take_bit_iff)
  then show ?thesis by (intro bit_word_eqI) (auto simp: bit_simps)
qed

lemma toy_inverse: "toy_serialize f = Some out \<Longrightarrow> toy_parse out = Some f"
  by (auto simp: toy_serialize_def ucast_byte_trip split: if_splits)

theorem proto_header_roundtrip_witness:
  "decode_proto_header toy_parse [7, 42, 100, 16, 32, 48] =
     Inr \<lparr>mh_topic_id = 7, mh_sequence = 42, mh_timestamp_ns = 100, mh_payload_len = 3, mh_crc32 = 0,
       mh_flags = 0, mh_abi_version = 1\<rparr>"
proof -
  let ?msg = "\<lparr>mv_header = \<lparr>mh_topic_id = 7, mh_sequence = 42, mh_timestamp_ns = 100, mh_payload_len = 9,
      mh_crc32 = 5, mh_flags = 1, mh_abi_version = 2\<rparr>, mv_payload = [16, 32, 48]\<rparr>"
  have "encode_proto toy_serialize ?msg = Inr [7, 42, 100, 16, 32, 48]"
    by (simp add: encode_proto_def toy_serialize_def)
  from proto_header_roundtrip [OF toy_inverse this] show ?thesis by (simp add: header_default_def)
qed

end
