(* ===== verification/MpmcRing.thy ===== *)
theory MpmcRing
  imports Interfaces
begin

text \<open>
  \<open>include/lwipc/ring_buffer_mpmc.hpp\<close>: the multi-producer multi-consumer ring, whose cells
  carry sequence numbers. Positions and sequence numbers are 64-bit words and are compared as
  in the code, by the signed difference. This theory runs each call alone (no other thread
  moves the positions meanwhile); \<open>MpmcThreads\<close> interleaves the threads.

  \<open>compare_exchange_weak\<close> may fail spuriously: \<open>spur k\<close> says whether the \<open>k\<close>-th attempt
  of a call does. A call that never returns has the value \<open>None\<close>. \<open>Div_by_zero\<close> is the
  trap of \<open>pos % capacity_\<close> at capacity 0.
\<close>

section \<open>Model\<close>

datatype mpmc_fault = Div_by_zero

record 'a mcell =
  mc_sequence :: size_t
  mc_data :: 'a

record 'a mpmc =
  mq_enqueue_pos :: size_t
  mq_dequeue_pos :: size_t
  mq_capacity :: size_t
  mq_buffer :: "'a mcell list"

definition mpmc_new :: "size_t \<Rightarrow> 'a \<Rightarrow> 'a mpmc" where
  "mpmc_new capacity d =
     \<lparr>mq_enqueue_pos = 0, mq_dequeue_pos = 0, mq_capacity = capacity,
      mq_buffer = map (\<lambda>i. \<lparr>mc_sequence = of_nat i, mc_data = d\<rparr>) [0..<unat capacity]\<rparr>"

text \<open>Move construction: the new ring takes the cells, the old one keeps its positions.\<close>

definition mpmc_move :: "'a mpmc \<Rightarrow> 'a mpmc \<times> 'a mpmc" where
  "mpmc_move other = (other, other\<lparr>mq_capacity := 0, mq_buffer := []\<rparr>)"

text \<open>Move assignment; \<open>same\<close> is the test \<open>this != &other\<close> failing.\<close>

definition mpmc_move_assign :: "bool \<Rightarrow> 'a mpmc \<Rightarrow> 'a mpmc \<Rightarrow> 'a mpmc \<times> 'a mpmc" where
  "mpmc_move_assign same this other =
     (if same then (this, other)
      else (\<lparr>mq_enqueue_pos = mq_enqueue_pos other, mq_dequeue_pos = mq_dequeue_pos other,
             mq_capacity = mq_capacity other, mq_buffer = mq_buffer other\<rparr>,
            other\<lparr>mq_capacity := 0, mq_buffer := []\<rparr>))"

definition mq_index :: "'a mpmc \<Rightarrow> size_t \<Rightarrow> nat" where
  "mq_index q pos = unat (pos mod mq_capacity q)"

definition mq_cell :: "'a mpmc \<Rightarrow> size_t \<Rightarrow> 'a mcell" where
  "mq_cell q pos = mq_buffer q ! mq_index q pos"

text \<open>The loop of \<open>try_push\<close>, from a position already loaded.\<close>

partial_function (option) mpmc_push_loop ::
  "(nat \<Rightarrow> bool) \<Rightarrow> nat \<Rightarrow> size_t \<Rightarrow> 'a \<Rightarrow> 'a mpmc \<Rightarrow> (mpmc_fault + bool \<times> 'a mpmc) option"
where
  "mpmc_push_loop spur k pos value q =
     (if mq_capacity q = 0 then Some (Inl Div_by_zero)
      else let seq = mc_sequence (mq_cell q pos);
               diff = sint seq - sint pos
           in if diff = 0 then
                (if mq_enqueue_pos q = pos \<and> \<not> spur k then
                   Some (Inr (True, q\<lparr>mq_enqueue_pos := pos + 1,
                     mq_buffer := (mq_buffer q)[mq_index q pos :=
                       \<lparr>mc_sequence = pos + 1, mc_data = value\<rparr>]\<rparr>))
                 else mpmc_push_loop spur (k + 1) (mq_enqueue_pos q) value q)
              else if diff < 0 then Some (Inr (False, q))
              else mpmc_push_loop spur k (mq_enqueue_pos q) value q)"

definition mpmc_try_push :: "(nat \<Rightarrow> bool) \<Rightarrow> 'a \<Rightarrow> 'a mpmc \<Rightarrow> (mpmc_fault + bool \<times> 'a mpmc) option" where
  "mpmc_try_push spur value q = mpmc_push_loop spur 0 (mq_enqueue_pos q) value q"

text \<open>The loop of \<open>try_pop\<close>; the element is moved out and leaves \<open>moved\<close> of itself.\<close>

partial_function (option) mpmc_pop_loop ::
  "(nat \<Rightarrow> bool) \<Rightarrow> ('a \<Rightarrow> 'a) \<Rightarrow> nat \<Rightarrow> size_t \<Rightarrow> 'a mpmc \<Rightarrow> (mpmc_fault + 'a option \<times> 'a mpmc) option"
where
  "mpmc_pop_loop spur moved k pos q =
     (if mq_capacity q = 0 then Some (Inl Div_by_zero)
      else let seq = mc_sequence (mq_cell q pos);
               diff = sint seq - sint (pos + 1)
           in if diff = 0 then
                (if mq_dequeue_pos q = pos \<and> \<not> spur k then
                   (let value = mc_data (mq_cell q pos)
                    in Some (Inr (Some value, q\<lparr>mq_dequeue_pos := pos + 1,
                         mq_buffer := (mq_buffer q)[mq_index q pos :=
                           \<lparr>mc_sequence = pos + mq_capacity q, mc_data = moved value\<rparr>]\<rparr>)))
                 else mpmc_pop_loop spur moved (k + 1) (mq_dequeue_pos q) q)
              else if diff < 0 then Some (Inr (None, q))
              else mpmc_pop_loop spur moved k (mq_dequeue_pos q) q)"

definition mpmc_try_pop :: "(nat \<Rightarrow> bool) \<Rightarrow> ('a \<Rightarrow> 'a) \<Rightarrow> 'a mpmc \<Rightarrow> (mpmc_fault + 'a option \<times> 'a mpmc) option" where
  "mpmc_try_pop spur moved q = mpmc_pop_loop spur moved 0 (mq_dequeue_pos q) q"

definition mpmc_empty :: "'a mpmc \<Rightarrow> bool" where
  "mpmc_empty q \<longleftrightarrow> mq_dequeue_pos q \<ge> mq_enqueue_pos q"

definition mpmc_size :: "'a mpmc \<Rightarrow> size_t" where
  "mpmc_size q = (if mq_enqueue_pos q \<ge> mq_dequeue_pos q then mq_enqueue_pos q - mq_dequeue_pos q else 0)"

section \<open>Well-formed rings\<close>

text \<open>
  Written positions carry their sequence number plus one, free positions carry their own
  number. \<open>n\<close> further operations keep every counter below \<open>2 ^ 63\<close>.
\<close>

definition mpmc_wf :: "nat \<Rightarrow> 'a mpmc \<Rightarrow> bool" where
  "mpmc_wf n q \<longleftrightarrow>
     (let E = unat (mq_enqueue_pos q); D = unat (mq_dequeue_pos q); C = unat (mq_capacity q)
      in 2 \<le> C \<and> length (mq_buffer q) = C \<and> D \<le> E \<and> E \<le> D + C \<and> E + C + n < 2 ^ 63 \<and>
         (\<forall>p. D \<le> p \<and> p < E \<longrightarrow> unat (mc_sequence (mq_buffer q ! (p mod C))) = Suc p) \<and>
         (\<forall>p. E \<le> p \<and> p < D + C \<longrightarrow> unat (mc_sequence (mq_buffer q ! (p mod C))) = p))"

definition mpmc_items :: "'a mpmc \<Rightarrow> 'a list" where
  "mpmc_items q = map (\<lambda>p. mc_data (mq_buffer q ! (p mod unat (mq_capacity q))))
     [unat (mq_dequeue_pos q)..<unat (mq_enqueue_pos q)]"

definition mpmc_limit :: "'a mpmc \<Rightarrow> nat" where
  "mpmc_limit q = unat (mq_capacity q)"

lemma mq_index_nat: "mq_index q pos = unat pos mod unat (mq_capacity q)"
  by (simp add: mq_index_def unat_mod)

lemma mpmc_wfD:
  assumes "mpmc_wf n q"
  shows "2 \<le> unat (mq_capacity q)" "mq_capacity q \<noteq> 0" "length (mq_buffer q) = unat (mq_capacity q)"
    and "unat (mq_dequeue_pos q) \<le> unat (mq_enqueue_pos q)"
    and "unat (mq_enqueue_pos q) \<le> unat (mq_dequeue_pos q) + unat (mq_capacity q)"
    and "unat (mq_enqueue_pos q) + unat (mq_capacity q) + n < 2 ^ 63"
    and "unat (mq_dequeue_pos q) \<le> p \<Longrightarrow> p < unat (mq_enqueue_pos q) \<Longrightarrow>
       unat (mc_sequence (mq_buffer q ! (p mod unat (mq_capacity q)))) = Suc p"
    and "unat (mq_enqueue_pos q) \<le> p \<Longrightarrow> p < unat (mq_dequeue_pos q) + unat (mq_capacity q) \<Longrightarrow>
       unat (mc_sequence (mq_buffer q ! (p mod unat (mq_capacity q)))) = p"
  using assms by (auto simp: mpmc_wf_def Let_def)

lemma mpmc_length_items [simp]:
  "length (mpmc_items q) = unat (mq_enqueue_pos q) - unat (mq_dequeue_pos q)"
  by (simp add: mpmc_items_def)

lemma mpmc_items_within: "mpmc_wf n q \<Longrightarrow> length (mpmc_items q) \<le> mpmc_limit q"
  using mpmc_wfD(4,5) [of n q] by (simp add: mpmc_limit_def)

text \<open>The signed difference at the current enqueue and dequeue positions.\<close>

lemma mpmc_push_diff:
  assumes "mpmc_wf n q"
  defines "diff \<equiv> sint (mc_sequence (mq_cell q (mq_enqueue_pos q))) - sint (mq_enqueue_pos q)"
  shows "length (mpmc_items q) < mpmc_limit q \<Longrightarrow> diff = 0"
    and "length (mpmc_items q) = mpmc_limit q \<Longrightarrow> diff < 0"
proof -
  let ?E = "unat (mq_enqueue_pos q)" and ?D = "unat (mq_dequeue_pos q)" and ?C = "unat (mq_capacity q)"
  note wf = mpmc_wfD [OF assms(1)]
  have pos: "sint (mq_enqueue_pos q) = int ?E" using wf(6) by (intro sint_small) simp
  have cell: "mq_cell q (mq_enqueue_pos q) = mq_buffer q ! (?E mod ?C)"
    by (simp add: mq_cell_def mq_index_nat)
  show "diff = 0" if "length (mpmc_items q) < mpmc_limit q"
  proof -
    have "unat (mc_sequence (mq_buffer q ! (?E mod ?C))) = ?E"
      using that wf(4,5) by (intro wf(8)) (auto simp: mpmc_limit_def)
    moreover from this have "sint (mc_sequence (mq_buffer q ! (?E mod ?C))) = int ?E"
      using wf(6) by (subst sint_small) auto
    ultimately show ?thesis by (simp add: diff_def cell pos)
  qed
  show "diff < 0" if "length (mpmc_items q) = mpmc_limit q"
  proof -
    have ED: "?E = ?D + ?C" using that wf(4) by (simp add: mpmc_limit_def)
    then have "?E mod ?C = ?D mod ?C" by simp
    moreover have "unat (mc_sequence (mq_buffer q ! (?D mod ?C))) = Suc ?D"
      using wf(1) ED by (intro wf(7)) auto
    ultimately have "sint (mc_sequence (mq_buffer q ! (?E mod ?C))) = int (Suc ?D)"
      using wf(1,6) ED by (subst sint_small) auto
    moreover have "int (Suc ?D) - int ?E < 0" using ED wf(1) by linarith
    ultimately show ?thesis by (simp only: diff_def cell pos)
  qed
qed

lemma mpmc_pop_diff:
  assumes "mpmc_wf n q"
  defines "diff \<equiv> sint (mc_sequence (mq_cell q (mq_dequeue_pos q))) - sint (mq_dequeue_pos q + 1)"
  shows "mpmc_items q \<noteq> [] \<Longrightarrow> diff = 0" and "mpmc_items q = [] \<Longrightarrow> diff < 0"
proof -
  let ?E = "unat (mq_enqueue_pos q)" and ?D = "unat (mq_dequeue_pos q)" and ?C = "unat (mq_capacity q)"
  note wf = mpmc_wfD [OF assms(1)]
  have D: "?D < 2 ^ 63" using wf(4,6) by simp
  have u1: "unat (mq_dequeue_pos q + 1) = Suc ?D" using D by (rule unat_plus1_small)
  have pos: "sint (mq_dequeue_pos q + 1) = int (Suc ?D)"
    using wf(1,4,6) u1 by (subst sint_small) auto
  have cell: "mq_cell q (mq_dequeue_pos q) = mq_buffer q ! (?D mod ?C)"
    by (simp add: mq_cell_def mq_index_nat)
  show "diff = 0" if "mpmc_items q \<noteq> []"
  proof -
    have "unat (mc_sequence (mq_buffer q ! (?D mod ?C))) = Suc ?D"
      using that by (intro wf(7)) (auto simp: mpmc_items_def)
    then have "sint (mc_sequence (mq_buffer q ! (?D mod ?C))) = int (Suc ?D)"
      using wf(1,4,6) by (subst sint_small) auto
    then show ?thesis by (simp add: diff_def cell pos)
  qed
  show "diff < 0" if "mpmc_items q = []"
  proof -
    have "length (mpmc_items q) = 0" using that by simp
    then have "?E = ?D" using wf(4) by simp
    then have "unat (mc_sequence (mq_buffer q ! (?D mod ?C))) = ?D"
      using wf(1) by (intro wf(8)) auto
    then have "sint (mc_sequence (mq_buffer q ! (?D mod ?C))) = int ?D"
      using D by (subst sint_small) auto
    then show ?thesis by (simp add: diff_def cell pos)
  qed
qed

section \<open>One call on a well-formed ring\<close>

definition mpmc_after_push :: "'a \<Rightarrow> 'a mpmc \<Rightarrow> 'a mpmc" where
  "mpmc_after_push value q =
     q\<lparr>mq_enqueue_pos := mq_enqueue_pos q + 1,
       mq_buffer := (mq_buffer q)[mq_index q (mq_enqueue_pos q) :=
         \<lparr>mc_sequence = mq_enqueue_pos q + 1, mc_data = value\<rparr>]\<rparr>"

definition mpmc_after_pop :: "('a \<Rightarrow> 'a) \<Rightarrow> 'a mpmc \<Rightarrow> 'a mpmc" where
  "mpmc_after_pop moved q =
     q\<lparr>mq_dequeue_pos := mq_dequeue_pos q + 1,
       mq_buffer := (mq_buffer q)[mq_index q (mq_dequeue_pos q) :=
         \<lparr>mc_sequence = mq_dequeue_pos q + mq_capacity q,
          mc_data = moved (mc_data (mq_cell q (mq_dequeue_pos q)))\<rparr>]\<rparr>"

text \<open>
  The weak exchange retries until an attempt \<open>k\<close> does not fail spuriously; the state does not
  change meanwhile.
\<close>

lemma mpmc_push_loop_full:
  assumes "mpmc_wf n q" "length (mpmc_items q) = mpmc_limit q"
  shows "mpmc_push_loop spur k (mq_enqueue_pos q) v q = Some (Inr (False, q))"
  using mpmc_push_diff(2) [OF assms] mpmc_wfD(2) [OF assms(1)]
  by (subst mpmc_push_loop.simps) (simp add: Let_def)

lemma mpmc_push_loop_wins:
  assumes "mq_capacity q \<noteq> 0" "sint (mc_sequence (mq_cell q (mq_enqueue_pos q))) - sint (mq_enqueue_pos q) = 0"
    and "k \<le> m" "\<not> spur m"
  shows "mpmc_push_loop spur k (mq_enqueue_pos q) v q = Some (Inr (True, mpmc_after_push v q))"
  using assms(3)
proof (induction "m - k" arbitrary: k)
  case 0
  then show ?case using assms(1,2,4) by (subst mpmc_push_loop.simps) (simp add: Let_def mpmc_after_push_def)
next
  case (Suc d)
  then have "mpmc_push_loop spur (k + 1) (mq_enqueue_pos q) v q = Some (Inr (True, mpmc_after_push v q))"
    by simp
  then show ?case using assms(1,2) by (subst mpmc_push_loop.simps) (simp add: Let_def mpmc_after_push_def)
qed

lemma mpmc_push_loop_room:
  assumes "mpmc_wf n q" "length (mpmc_items q) < mpmc_limit q" "k \<le> m" "\<not> spur m"
  shows "mpmc_push_loop spur k (mq_enqueue_pos q) v q = Some (Inr (True, mpmc_after_push v q))"
  by (rule mpmc_push_loop_wins [where spur = spur and m = m, OF mpmc_wfD(2) [OF assms(1)] mpmc_push_diff(1) [OF assms(1,2)] assms(3,4)])

lemma mpmc_pop_loop_empty:
  assumes "mpmc_wf n q" "mpmc_items q = []"
  shows "mpmc_pop_loop spur mv k (mq_dequeue_pos q) q = Some (Inr (None, q))"
  using mpmc_pop_diff(2) [OF assms] mpmc_wfD(2) [OF assms(1)]
  by (subst mpmc_pop_loop.simps) (simp add: Let_def)

lemma mpmc_pop_loop_wins:
  assumes "mq_capacity q \<noteq> 0" "sint (mc_sequence (mq_cell q (mq_dequeue_pos q))) - sint (mq_dequeue_pos q + 1) = 0"
    and "k \<le> m" "\<not> spur m"
  shows "mpmc_pop_loop spur mv k (mq_dequeue_pos q) q
       = Some (Inr (Some (mc_data (mq_cell q (mq_dequeue_pos q))), mpmc_after_pop mv q))"
  using assms(3)
proof (induction "m - k" arbitrary: k)
  case 0
  then show ?case using assms(1,2,4) by (subst mpmc_pop_loop.simps) (simp add: Let_def mpmc_after_pop_def)
next
  case (Suc d)
  then have "mpmc_pop_loop spur mv (k + 1) (mq_dequeue_pos q) q
      = Some (Inr (Some (mc_data (mq_cell q (mq_dequeue_pos q))), mpmc_after_pop mv q))"
    by simp
  then show ?case using assms(1,2) by (subst mpmc_pop_loop.simps) (simp add: Let_def mpmc_after_pop_def)
qed

lemma mpmc_pop_loop_item:
  assumes "mpmc_wf n q" "mpmc_items q \<noteq> []" "k \<le> m" "\<not> spur m"
  shows "mpmc_pop_loop spur mv k (mq_dequeue_pos q) q
       = Some (Inr (Some (mc_data (mq_cell q (mq_dequeue_pos q))), mpmc_after_pop mv q))"
  by (rule mpmc_pop_loop_wins [where spur = spur and m = m, OF mpmc_wfD(2) [OF assms(1)] mpmc_pop_diff(1) [OF assms(1,2)] assms(3,4)])

lemma mpmc_after_push_props:
  assumes "mpmc_wf (Suc n) q" "length (mpmc_items q) < mpmc_limit q"
  shows "mpmc_wf n (mpmc_after_push v q)" "mpmc_items (mpmc_after_push v q) = mpmc_items q @ [v]"
proof -
  let ?E = "unat (mq_enqueue_pos q)" and ?D = "unat (mq_dequeue_pos q)" and ?C = "unat (mq_capacity q)"
  note wf = mpmc_wfD [OF assms(1)]
  have lt: "?E < ?D + ?C" using assms(2) wf(4) by (simp add: mpmc_limit_def)
  have u: "unat (mq_enqueue_pos q + 1) = Suc ?E" using wf(6) by (intro unat_plus1_small) simp
  have i: "?E mod ?C < length (mq_buffer q)" using wf(1,3) by simp
  have other: "p mod ?C \<noteq> ?E mod ?C" if "?D \<le> p" "p < ?D + ?C" "p \<noteq> ?E" for p
    using mod_window_inj [OF that(1,2) wf(4) lt] that(3) by blast
  let ?b = "mq_buffer (mpmc_after_push v q)"
  have b: "?b = (mq_buffer q)[?E mod ?C := \<lparr>mc_sequence = mq_enqueue_pos q + 1, mc_data = v\<rparr>]"
    by (simp add: mpmc_after_push_def mq_index_nat)
  have written: "unat (mc_sequence (?b ! (p mod ?C))) = Suc p" if "?D \<le> p" "p < Suc ?E" for p
  proof (cases "p = ?E")
    case True
    then show ?thesis using i u by (simp add: b)
  next
    case False
    have "p < ?D + ?C" "p < ?E" using that False lt by simp_all
    with other [OF that(1) this(1) False] have "p mod ?C \<noteq> ?E mod ?C" "p < ?E" by simp_all
    then show ?thesis using wf(7) [OF that(1)] by (simp add: b)
  qed
  have free: "unat (mc_sequence (?b ! (p mod ?C))) = p" if "Suc ?E \<le> p" "p < ?D + ?C" for p
  proof -
    have "p mod ?C \<noteq> ?E mod ?C" using that wf(4) by (intro other) auto
    then show ?thesis using wf(8) [of p] that by (simp add: b)
  qed
  have sel: "mq_enqueue_pos (mpmc_after_push v q) = mq_enqueue_pos q + 1"
    "mq_dequeue_pos (mpmc_after_push v q) = mq_dequeue_pos q"
    "mq_capacity (mpmc_after_push v q) = mq_capacity q" "length ?b = length (mq_buffer q)"
    by (simp_all add: mpmc_after_push_def)
  show "mpmc_wf n (mpmc_after_push v q)"
    unfolding mpmc_wf_def Let_def sel u using wf(1,3,4,6) lt written free by auto
  have "map (\<lambda>p. mc_data (?b ! (p mod ?C))) [?D..<?E] = mpmc_items q"
    unfolding mpmc_items_def
  proof (rule map_cong [OF refl])
    fix p assume "p \<in> set [?D..<?E]"
    with lt have "p mod ?C \<noteq> ?E mod ?C" by (intro other) auto
    then show "mc_data (?b ! (p mod ?C)) = mc_data (mq_buffer q ! (p mod ?C))" by (simp add: b)
  qed
  moreover have "mc_data (?b ! (?E mod ?C)) = v" using i by (simp add: b)
  ultimately show "mpmc_items (mpmc_after_push v q) = mpmc_items q @ [v]"
    using wf(4) by (simp add: mpmc_items_def [of "mpmc_after_push v q"] sel u)
qed

lemma mpmc_after_pop_props:
  assumes "mpmc_wf (Suc n) q" "mpmc_items q \<noteq> []"
  shows "mpmc_wf n (mpmc_after_pop mv q)"
    and "mpmc_items q = mc_data (mq_cell q (mq_dequeue_pos q)) # mpmc_items (mpmc_after_pop mv q)"
proof -
  let ?E = "unat (mq_enqueue_pos q)" and ?D = "unat (mq_dequeue_pos q)" and ?C = "unat (mq_capacity q)"
  note wf = mpmc_wfD [OF assms(1)]
  have lt: "?D < ?E" using assms(2) by (auto simp: mpmc_items_def)
  have u: "unat (mq_dequeue_pos q + 1) = Suc ?D" using wf(4,6) by (intro unat_plus1_small) simp
  have uc: "unat (mq_dequeue_pos q + mq_capacity q) = ?D + ?C"
    using wf(4,6) by (simp add: unat_word_ariths)
  have i: "?D mod ?C < length (mq_buffer q)" using wf(1,3) by simp
  have other: "p mod ?C \<noteq> ?D mod ?C" if "?D < p" "p < ?D + ?C" for p
    using mod_window_inj [of ?D p ?C ?D] that by auto
  let ?b = "mq_buffer (mpmc_after_pop mv q)"
  obtain d where b: "?b = (mq_buffer q)[?D mod ?C :=
      \<lparr>mc_sequence = mq_dequeue_pos q + mq_capacity q, mc_data = d\<rparr>]"
    by (simp add: mpmc_after_pop_def mq_index_nat)
  have written: "unat (mc_sequence (?b ! (p mod ?C))) = Suc p" if "Suc ?D \<le> p" "p < ?E" for p
  proof -
    have "p mod ?C \<noteq> ?D mod ?C" using that wf(5) by (intro other) auto
    then show ?thesis using wf(7) [of p] that by (simp add: b)
  qed
  have free: "unat (mc_sequence (?b ! (p mod ?C))) = p" if "?E \<le> p" "p < Suc ?D + ?C" for p
  proof (cases "p = ?D + ?C")
    case True
    then show ?thesis using i uc by (simp add: b)
  next
    case False
    with that lt have "p mod ?C \<noteq> ?D mod ?C" by (intro other) auto
    then show ?thesis using wf(8) [of p] that False by (simp add: b)
  qed
  have sel: "mq_enqueue_pos (mpmc_after_pop mv q) = mq_enqueue_pos q"
    "mq_dequeue_pos (mpmc_after_pop mv q) = mq_dequeue_pos q + 1"
    "mq_capacity (mpmc_after_pop mv q) = mq_capacity q" "length ?b = length (mq_buffer q)"
    by (simp_all add: mpmc_after_pop_def)
  show "mpmc_wf n (mpmc_after_pop mv q)"
    unfolding mpmc_wf_def Let_def sel u using wf(1,3,5,6) lt written free by auto
  have "map (\<lambda>p. mc_data (?b ! (p mod ?C))) [Suc ?D..<?E]
      = map (\<lambda>p. mc_data (mq_buffer q ! (p mod ?C))) [Suc ?D..<?E]"
  proof (rule map_cong [OF refl])
    fix p assume "p \<in> set [Suc ?D..<?E]"
    with wf(5) have "p mod ?C \<noteq> ?D mod ?C" by (intro other) auto
    then show "mc_data (?b ! (p mod ?C)) = mc_data (mq_buffer q ! (p mod ?C))" by (simp add: b)
  qed
  then show "mpmc_items q = mc_data (mq_cell q (mq_dequeue_pos q)) # mpmc_items (mpmc_after_pop mv q)"
    using lt by (simp add: mpmc_items_def sel u upt_conv_Cons mq_cell_def mq_index_nat)
qed

section \<open>The bounded-queue contract\<close>

text \<open>
  A call seen as an operation of the queue contract: its result, which the lemmas above show
  to exist on a well-formed ring whenever some attempt does not fail spuriously.
\<close>

definition mpmc_enq :: "(nat \<Rightarrow> bool) \<Rightarrow> 'a \<Rightarrow> 'a mpmc \<Rightarrow> bool \<times> 'a mpmc" where
  "mpmc_enq spur v q = (case mpmc_try_push spur v q of Some (Inr r) \<Rightarrow> r | _ \<Rightarrow> (False, q))"

definition mpmc_deq :: "(nat \<Rightarrow> bool) \<Rightarrow> ('a \<Rightarrow> 'a) \<Rightarrow> 'a mpmc \<Rightarrow> 'a option \<times> 'a mpmc" where
  "mpmc_deq spur mv q = (case mpmc_try_pop spur mv q of Some (Inr r) \<Rightarrow> r | _ \<Rightarrow> (None, q))"

definition settles :: "(nat \<Rightarrow> bool) \<Rightarrow> bool" where
  "settles spur \<longleftrightarrow> (\<exists>m. \<not> spur m)"

lemma mpmc_wf_mono: "mpmc_wf (Suc n) q \<Longrightarrow> mpmc_wf n q"
  by (auto simp: mpmc_wf_def Let_def)

lemma mpmc_push_cases:
  assumes "mpmc_wf n q" "settles spur"
  shows "mpmc_try_push spur v q =
    (if length (mpmc_items q) < mpmc_limit q then Some (Inr (True, mpmc_after_push v q))
     else Some (Inr (False, q)))"
proof -
  obtain m where m: "\<not> spur m" using assms(2) by (auto simp: settles_def)
  show ?thesis
    using mpmc_push_loop_room [OF assms(1), of 0 m spur v] m mpmc_push_loop_full [OF assms(1)]
      mpmc_items_within [OF assms(1)]
    by (auto simp: mpmc_try_push_def)
qed

lemma mpmc_pop_cases:
  assumes "mpmc_wf n q" "settles spur"
  shows "mpmc_try_pop spur mv q =
    (if mpmc_items q = [] then Some (Inr (None, q))
     else Some (Inr (Some (mc_data (mq_cell q (mq_dequeue_pos q))), mpmc_after_pop mv q)))"
proof -
  obtain m where m: "\<not> spur m" using assms(2) by (auto simp: settles_def)
  show ?thesis
    using mpmc_pop_loop_item [OF assms(1), of 0 m spur mv] m mpmc_pop_loop_empty [OF assms(1)]
    by (auto simp: mpmc_try_pop_def)
qed

lemma mpmc_after_limit [simp]:
  "mpmc_limit (mpmc_after_push v q) = mpmc_limit q" "mpmc_limit (mpmc_after_pop mv q) = mpmc_limit q"
  by (simp_all add: mpmc_limit_def mpmc_after_push_def mpmc_after_pop_def)

lemma mpmc_bounded_queue:
  assumes "settles spur"
  shows "bounded_queue (mpmc_enq spur) (mpmc_deq spur mv) mpmc_items mpmc_limit mpmc_wf (\<lambda>_ _. True)"
proof
  fix n and q :: "'a mpmc" and x y :: 'a and ys
  show "mpmc_wf n q \<Longrightarrow> length (mpmc_items q) \<le> mpmc_limit q" by (rule mpmc_items_within)
  assume wf: "mpmc_wf (Suc n) q"
  note push = mpmc_push_cases [OF wf assms, of x] and pop = mpmc_pop_cases [OF wf assms, of mv]
  show "length (mpmc_items q) < mpmc_limit q \<Longrightarrow> True \<Longrightarrow>
      fst (mpmc_enq spur x q) \<and> mpmc_items (snd (mpmc_enq spur x q)) = mpmc_items q @ [x]"
    using push mpmc_after_push_props(2) [OF wf] by (simp add: mpmc_enq_def)
  show "length (mpmc_items q) = mpmc_limit q \<or> \<not> True \<Longrightarrow>
      \<not> fst (mpmc_enq spur x q) \<and> mpmc_items (snd (mpmc_enq spur x q)) = mpmc_items q"
    using push by (simp add: mpmc_enq_def)
  show "mpmc_wf n (snd (mpmc_enq spur x q)) \<and> mpmc_limit (snd (mpmc_enq spur x q)) = mpmc_limit q"
    using push mpmc_after_push_props(1) [OF wf] mpmc_wf_mono [OF wf] by (simp add: mpmc_enq_def)
  show "mpmc_items q = [] \<Longrightarrow>
      fst (mpmc_deq spur mv q) = None \<and> mpmc_items (snd (mpmc_deq spur mv q)) = []"
    using pop by (simp add: mpmc_deq_def)
  show "mpmc_items q = y # ys \<Longrightarrow>
      fst (mpmc_deq spur mv q) = Some y \<and> mpmc_items (snd (mpmc_deq spur mv q)) = ys"
    using pop mpmc_after_pop_props(2) [OF wf, of mv] by (simp add: mpmc_deq_def)
  show "mpmc_wf n (snd (mpmc_deq spur mv q)) \<and> mpmc_limit (snd (mpmc_deq spur mv q)) = mpmc_limit q"
    using pop mpmc_after_pop_props(1) [OF wf] mpmc_wf_mono [OF wf] by (simp add: mpmc_deq_def)
qed

text \<open>The instance with exchanges that fail spuriously at every even attempt.\<close>

lemma settles_even: "settles even"
  unfolding settles_def by (rule exI [of _ 1]) simp

interpretation mpq: bounded_queue "mpmc_enq even" "mpmc_deq even mv" mpmc_items mpmc_limit mpmc_wf "\<lambda>_ _. True"
  by (rule mpmc_bounded_queue [OF settles_even])

lemma mpmc_new_wf:
  assumes "2 \<le> unat cap" "2 * unat cap + n < 2 ^ 63"
  shows "mpmc_wf n (mpmc_new cap d)"
  using assms by (auto simp: mpmc_wf_def mpmc_new_def unat_of_nat_small)


abbreviation mpmc_demo :: "size_t \<Rightarrow> size_t \<Rightarrow> (size_t \<times> nat) list \<Rightarrow> nat mpmc" where
  "mpmc_demo e d cells \<equiv> \<lparr>mq_enqueue_pos = e, mq_dequeue_pos = d, mq_capacity = of_nat (length cells),
     mq_buffer = map (\<lambda>(s, x). \<lparr>mc_sequence = s, mc_data = x\<rparr>) cells\<rparr>"

lemma mpmc_demo_wf: "mpmc_wf n (mpmc_demo 0 0 [(0, 0), (1, 0)])" if "n < 1000"
proof -
  have "mpmc_demo 0 0 [(0, 0), (1, 0)] = mpmc_new 2 0"
    by (simp add: mpmc_new_def upt_rec)
  moreover have "mpmc_wf n (mpmc_new 2 0)" using that by (intro mpmc_new_wf) auto
  ultimately show ?thesis by simp
qed

lemmas mpmc_eval = mpmc_enq_def mpmc_deq_def mpmc_try_push_def mpmc_try_pop_def
  mpmc_push_loop.simps mpmc_pop_loop.simps mq_cell_def mq_index_def Let_def


text \<open>
  A call on a well-formed ring always returns: a push reports success exactly when the
  ring has a free place, a pop delivers exactly when it is not empty, and a failed call leaves
  the ring as it was.
\<close>

theorem mpmc_calls_return:
  assumes "settles spur" "mpmc_wf n q"
  shows "(\<exists>b q'. mpmc_try_push spur v q = Some (Inr (b, q')) \<and>
       (b \<longleftrightarrow> length (mpmc_items q) < unat (mq_capacity q)) \<and> (\<not> b \<longrightarrow> q' = q)) \<and>
    (\<exists>r q'. mpmc_try_pop spur mv q = Some (Inr (r, q')) \<and>
       (r = None \<longleftrightarrow> mpmc_items q = []) \<and> (r = None \<longrightarrow> q' = q))"
  using mpmc_push_cases [OF assms(2,1), of v] mpmc_pop_cases [OF assms(2,1), of mv]
  by (auto simp: mpmc_limit_def)

theorem mpmc_calls_return_witness:
  "\<exists>b q'. mpmc_try_push even 5 (mpmc_demo 0 0 [(0, 0), (1, 0)]) = Some (Inr (b, q'))"
  using conjunct1 [OF mpmc_calls_return [OF settles_even mpmc_demo_wf [of 0], of 5 id]] by auto

text \<open>
  On a well-formed ring \<open>size()\<close> is the number of queued values and \<open>empty()\<close> says
  whether it is zero.
\<close>

theorem mpmc_size_exact:
  assumes "mpmc_wf n q"
  shows "unat (mpmc_size q) = length (mpmc_items q) \<and> (mpmc_empty q \<longleftrightarrow> mpmc_items q = [])"
proof
  note wf = mpmc_wfD [OF assms]
  have le: "mq_dequeue_pos q \<le> mq_enqueue_pos q" using wf(4) by (simp add: word_le_nat_alt)
  then show "unat (mpmc_size q) = length (mpmc_items q)" by (simp add: mpmc_size_def unat_sub)
  show "mpmc_empty q \<longleftrightarrow> mpmc_items q = []"
    using wf(4) by (auto simp: mpmc_empty_def mpmc_items_def word_le_nat_alt)
qed

theorem mpmc_size_exact_witness: "unat (mpmc_size (mpmc_demo 0 0 [(0, 0), (1, 0)])) = 0"
  using mpmc_size_exact [OF mpmc_demo_wf [of 0]] by (simp add: mpmc_items_def)

section \<open>A ring of capacity one\<close>

text \<open>A pop that finds the cell of \<open>dequeue_pos_\<close> marked for a later position reloads the same position for ever.\<close>

lemma mpmc_pop_spins:
  assumes "mq_capacity q \<noteq> 0" "0 < sint (mc_sequence (mq_cell q (mq_dequeue_pos q))) - sint (mq_dequeue_pos q + 1)"
  shows "mpmc_pop_loop spur mv k (mq_dequeue_pos q) q = None"
proof (rule ccontr)
  assume "mpmc_pop_loop spur mv k (mq_dequeue_pos q) q \<noteq> None"
  then obtain r where r: "mpmc_pop_loop spur mv k (mq_dequeue_pos q) q = Some r" by blast
  let ?P = "\<lambda>(spur :: nat \<Rightarrow> bool) (mv :: 'a \<Rightarrow> 'a) (k :: nat) (pos :: size_t) (q' :: 'a mpmc) (r :: mpmc_fault + 'a option \<times> 'a mpmc).
    \<not> (pos = mq_dequeue_pos q \<and> q' = q)"
  have "?P spur mv k (mq_dequeue_pos q) q r"
  proof (rule mpmc_pop_loop.raw_induct [where P = ?P, OF _ r])
    fix f and spur :: "nat \<Rightarrow> bool" and mv :: "'a \<Rightarrow> 'a" and k pos q' r
    assume IH: "\<And>spur mv k pos q' r. f spur mv k pos q' = Some r \<Longrightarrow> ?P spur mv k pos q' r"
      and eq: "(if mq_capacity q' = 0 then Some (Inl Div_by_zero)
      else let seq = mc_sequence (mq_cell q' pos);
               diff = sint seq - sint (pos + 1)
           in if diff = 0 then
                (if mq_dequeue_pos q' = pos \<and> \<not> spur k then
                   (let value = mc_data (mq_cell q' pos)
                    in Some (Inr (Some value, q'\<lparr>mq_dequeue_pos := pos + 1,
                         mq_buffer := (mq_buffer q')[mq_index q' pos :=
                           \<lparr>mc_sequence = pos + mq_capacity q', mc_data = mv value\<rparr>]\<rparr>)))
                 else f spur mv (k + 1) (mq_dequeue_pos q') q')
              else if diff < 0 then Some (Inr (None, q'))
              else f spur mv k (mq_dequeue_pos q') q') = Some r"
    show "?P spur mv k pos q' r"
    proof
      assume "pos = mq_dequeue_pos q \<and> q' = q"
      with eq assms have "f spur mv k (mq_dequeue_pos q) q = Some r" by (simp add: Let_def)
      from IH [OF this] show False by simp
    qed
  qed
  then show False by simp
qed

text \<open>
  With one cell the number that marks position \<open>p\<close> as written, \<open>p + 1\<close>, is also the number
  that marks position \<open>p + 1\<close> as free. So a ring of capacity one does not work: two pushes in a row both report success although
  the capacity is one, the first value is overwritten, and the next pop never returns.
\<close>

theorem mpmc_capacity_one_breaks:
  assumes "settles spur"
  shows "\<exists>q1 q2. mpmc_try_push spur a (mpmc_new 1 d) = Some (Inr (True, q1)) \<and>
    mpmc_try_push spur b q1 = Some (Inr (True, q2)) \<and> mpmc_size q2 = 2 \<and>
    map mc_data (mq_buffer q2) = [b] \<and> mpmc_try_pop spur mv q2 = None"
proof -
  obtain m where m: "\<not> spur m" using assms by (auto simp: settles_def)
  let ?q = "\<lambda>p x. \<lparr>mq_enqueue_pos = p, mq_dequeue_pos = 0, mq_capacity = 1,
     mq_buffer = [\<lparr>mc_sequence = p, mc_data = x\<rparr>]\<rparr>"
  have push: "mpmc_push_loop spur 0 p v (?q p x) = Some (Inr (True, ?q (p + 1) v))" for p v x
    using mpmc_push_loop_wins [of "?q p x" 0 m spur v] m
    by (simp add: mq_cell_def mq_index_def mpmc_after_push_def)
  have pop: "mpmc_try_pop spur mv (?q 2 b) = None"
    using mpmc_pop_spins [of "?q 2 b" spur mv 0] by (simp add: mpmc_try_pop_def mq_cell_def mq_index_def)
  have "mpmc_new 1 d = ?q 0 d" by (simp add: mpmc_new_def)
  with push [of 0 a d] push [of 1 b a] pop show ?thesis by (simp add: mpmc_try_push_def mpmc_size_def)
qed

theorem mpmc_capacity_one_breaks_witness:
  "\<exists>q1 q2. mpmc_try_push even (7::nat) (mpmc_new 1 0) = Some (Inr (True, q1)) \<and>
    mpmc_try_push even 8 q1 = Some (Inr (True, q2)) \<and> mpmc_size q2 = 2 \<and>
    map mc_data (mq_buffer q2) = [8] \<and> mpmc_try_pop even id q2 = None"
  by (rule mpmc_capacity_one_breaks [OF settles_even])

end
