(* ===== verification/MpmcThreads.thy ===== *)
theory MpmcThreads
  imports MpmcRing "HOL-Library.Multiset"
begin

text \<open>
  The MPMC ring under any number of threads, interleaved at every atomic access and at the
  plain accesses to a cell's \<open>data\<close>. Positions and sequence numbers are natural numbers here;
  \<open>MpmcWords\<close> has the 64-bit words of the code and proves that they agree with the numbers until
  \<open>2 ^ 63 - capacity\<close> values have been pushed.
  \<open>cap\<close> is \<open>capacity_\<close>. The ghost fields record the value given to each enqueue position
  (\<open>mt_claimed\<close>) and the pairs of position and value that pops have returned (\<open>mt_taken\<close>).
\<close>

section \<open>Threads and steps\<close>

datatype 'a mpmc_pc =
    TIdle
  | PushAt 'a nat
  | PushSeq 'a nat nat
  | PushOwn 'a nat
  | PushStored 'a nat
  | PopAt nat
  | PopSeq nat nat
  | PopOwn nat
  | PopMoved 'a nat

record 'a mpmc_sys =
  mt_enq :: nat
  mt_deq :: nat
  mt_seq :: "nat \<Rightarrow> nat"
  mt_data :: "nat \<Rightarrow> 'a"
  mt_pc :: "nat \<Rightarrow> 'a mpmc_pc"
  mt_claimed :: "'a list"
  mt_taken :: "(nat \<times> 'a) list"

definition mpmc_start :: "nat \<Rightarrow> 'a mpmc_sys \<Rightarrow> bool" where
  "mpmc_start cap s \<longleftrightarrow> 2 \<le> cap \<and> mt_enq s = 0 \<and> mt_deq s = 0 \<and> (\<forall>i < cap. mt_seq s i = i) \<and>
     (\<forall>i. mt_pc s i = TIdle) \<and> mt_claimed s = [] \<and> mt_taken s = []"

abbreviation goto :: "nat \<Rightarrow> 'a mpmc_pc \<Rightarrow> 'a mpmc_sys \<Rightarrow> 'a mpmc_sys" where
  "goto i c s \<equiv> s\<lparr>mt_pc := (mt_pc s)(i := c)\<rparr>"

inductive mpmc_step :: "nat \<Rightarrow> ('a \<Rightarrow> 'a) \<Rightarrow> 'a mpmc_sys \<Rightarrow> 'a mpmc_sys \<Rightarrow> bool" for cap moved where
  push_load: "mt_pc s i = TIdle \<Longrightarrow> mpmc_step cap moved s (goto i (PushAt v (mt_enq s)) s)"
| push_seq: "mt_pc s i = PushAt v p \<Longrightarrow>
     mpmc_step cap moved s (goto i (PushSeq v p (mt_seq s (p mod cap))) s)"
| push_win: "mt_pc s i = PushSeq v p q \<Longrightarrow> q = p \<Longrightarrow> mt_enq s = p \<Longrightarrow>
     mpmc_step cap moved s (goto i (PushOwn v p) (s\<lparr>mt_enq := Suc p, mt_claimed := mt_claimed s @ [v]\<rparr>))"
| push_lose: "mt_pc s i = PushSeq v p q \<Longrightarrow> q = p \<Longrightarrow>
     mpmc_step cap moved s (goto i (PushAt v (mt_enq s)) s)"
| push_full: "mt_pc s i = PushSeq v p q \<Longrightarrow> q < p \<Longrightarrow> mpmc_step cap moved s (goto i TIdle s)"
| push_behind: "mt_pc s i = PushSeq v p q \<Longrightarrow> p < q \<Longrightarrow>
     mpmc_step cap moved s (goto i (PushAt v (mt_enq s)) s)"
| push_data: "mt_pc s i = PushOwn v p \<Longrightarrow>
     mpmc_step cap moved s (goto i (PushStored v p) (s\<lparr>mt_data := (mt_data s)(p mod cap := v)\<rparr>))"
| push_publish: "mt_pc s i = PushStored v p \<Longrightarrow>
     mpmc_step cap moved s (goto i TIdle (s\<lparr>mt_seq := (mt_seq s)(p mod cap := Suc p)\<rparr>))"
| pop_load: "mt_pc s i = TIdle \<Longrightarrow> mpmc_step cap moved s (goto i (PopAt (mt_deq s)) s)"
| pop_seq: "mt_pc s i = PopAt p \<Longrightarrow>
     mpmc_step cap moved s (goto i (PopSeq p (mt_seq s (p mod cap))) s)"
| pop_win: "mt_pc s i = PopSeq p q \<Longrightarrow> q = Suc p \<Longrightarrow> mt_deq s = p \<Longrightarrow>
     mpmc_step cap moved s (goto i (PopOwn p) (s\<lparr>mt_deq := Suc p\<rparr>))"
| pop_lose: "mt_pc s i = PopSeq p q \<Longrightarrow> q = Suc p \<Longrightarrow>
     mpmc_step cap moved s (goto i (PopAt (mt_deq s)) s)"
| pop_empty: "mt_pc s i = PopSeq p q \<Longrightarrow> q < Suc p \<Longrightarrow> mpmc_step cap moved s (goto i TIdle s)"
| pop_behind: "mt_pc s i = PopSeq p q \<Longrightarrow> Suc p < q \<Longrightarrow>
     mpmc_step cap moved s (goto i (PopAt (mt_deq s)) s)"
| pop_move: "mt_pc s i = PopOwn p \<Longrightarrow>
     mpmc_step cap moved s (goto i (PopMoved (mt_data s (p mod cap)) p)
       (s\<lparr>mt_data := (mt_data s)(p mod cap := moved (mt_data s (p mod cap)))\<rparr>))"
| pop_publish: "mt_pc s i = PopMoved v p \<Longrightarrow>
     mpmc_step cap moved s (goto i TIdle (s\<lparr>mt_seq := (mt_seq s)(p mod cap := p + cap),
       mt_taken := mt_taken s @ [(p, v)]\<rparr>))"

section \<open>The invariant\<close>

text \<open>
  Every cell belongs to exactly one of the next \<open>cap\<close> enqueue positions \<open>p\<close>. It is free
  for \<open>p\<close>, or still holds position \<open>p - cap\<close>: being written, or written and not released.
\<close>

definition cell_ok :: "nat \<Rightarrow> 'a mpmc_sys \<Rightarrow> nat \<Rightarrow> bool" where
  "cell_ok cap s p \<longleftrightarrow>
     mt_seq s (p mod cap) = p \<and> (p < cap \<or> p - cap < mt_deq s) \<or>
     cap \<le> p \<and> mt_seq s (p mod cap) = p - cap \<and> mt_deq s \<le> p - cap \<or>
     cap \<le> p \<and> mt_seq s (p mod cap) = Suc (p - cap) \<and>
       (mt_deq s \<le> p - cap \<longrightarrow> mt_data s (p mod cap) = mt_claimed s ! (p - cap))"

text \<open>What a thread that has won a position knows, and that loaded values are old values.\<close>

fun pc_ok :: "nat \<Rightarrow> 'a mpmc_sys \<Rightarrow> 'a mpmc_pc \<Rightarrow> bool" where
  "pc_ok cap s TIdle = True"
| "pc_ok cap s (PushAt v p) = (p \<le> mt_enq s)"
| "pc_ok cap s (PushSeq v p q) = (p \<le> mt_enq s \<and> q \<le> mt_seq s (p mod cap))"
| "pc_ok cap s (PushOwn v p) =
     (p < mt_enq s \<and> mt_enq s \<le> p + cap \<and> mt_deq s \<le> p \<and> mt_seq s (p mod cap) = p \<and> mt_claimed s ! p = v)"
| "pc_ok cap s (PushStored v p) =
     (p < mt_enq s \<and> mt_enq s \<le> p + cap \<and> mt_deq s \<le> p \<and> mt_seq s (p mod cap) = p \<and> mt_claimed s ! p = v \<and>
      mt_data s (p mod cap) = v)"
| "pc_ok cap s (PopAt p) = (p \<le> mt_deq s)"
| "pc_ok cap s (PopSeq p q) = (p \<le> mt_deq s \<and> q \<le> mt_seq s (p mod cap))"
| "pc_ok cap s (PopOwn p) =
     (p < mt_deq s \<and> mt_enq s \<le> p + cap \<and> mt_seq s (p mod cap) = Suc p \<and>
      mt_data s (p mod cap) = mt_claimed s ! p \<and> p \<notin> fst ` set (mt_taken s))"
| "pc_ok cap s (PopMoved v p) =
     (p < mt_deq s \<and> mt_enq s \<le> p + cap \<and> mt_seq s (p mod cap) = Suc p \<and>
      v = mt_claimed s ! p \<and> p \<notin> fst ` set (mt_taken s))"

fun owned :: "'a mpmc_pc \<Rightarrow> nat option" where
  "owned (PushOwn v p) = Some p"
| "owned (PushStored v p) = Some p"
| "owned (PopOwn p) = Some p"
| "owned (PopMoved v p) = Some p"
| "owned _ = None"

fun popping :: "'a mpmc_pc \<Rightarrow> nat option" where
  "popping (PopOwn p) = Some p"
| "popping (PopMoved v p) = Some p"
| "popping _ = None"

definition taken_ok :: "'a mpmc_sys \<Rightarrow> bool" where
  "taken_ok s \<longleftrightarrow> distinct (map fst (mt_taken s)) \<and>
     (\<forall>(p, v) \<in> set (mt_taken s). p < mt_deq s \<and> v = mt_claimed s ! p) \<and>
     (\<forall>p < mt_deq s. p \<in> fst ` set (mt_taken s) \<or> (\<exists>i. popping (mt_pc s i) = Some p))"

definition mpmc_inv :: "nat \<Rightarrow> 'a mpmc_sys \<Rightarrow> bool" where
  "mpmc_inv cap s \<longleftrightarrow> 2 \<le> cap \<and> length (mt_claimed s) = mt_enq s \<and>
     mt_deq s \<le> mt_enq s \<and> mt_enq s \<le> mt_deq s + cap \<and>
     (\<forall>p. mt_enq s \<le> p \<and> p < mt_enq s + cap \<longrightarrow> cell_ok cap s p) \<and>
     (\<forall>i. pc_ok cap s (mt_pc s i)) \<and>
     (\<forall>i j p. owned (mt_pc s i) = Some p \<and> owned (mt_pc s j) = Some p \<longrightarrow> i = j) \<and>
     taken_ok s"

lemma mpmc_invD:
  assumes "mpmc_inv cap s"
  shows "2 \<le> cap" "length (mt_claimed s) = mt_enq s" "mt_deq s \<le> mt_enq s"
    and "mt_enq s \<le> mt_deq s + cap"
    and "mt_enq s \<le> p \<Longrightarrow> p < mt_enq s + cap \<Longrightarrow> cell_ok cap s p"
    and "pc_ok cap s (mt_pc s i)"
    and "owned (mt_pc s i) = Some p \<Longrightarrow> owned (mt_pc s j) = Some p \<Longrightarrow> i = j"
    and "taken_ok s"
  using assms by (auto simp: mpmc_inv_def)

lemma mpmc_invI:
  assumes "\<And>i. pc_ok cap s (mt_pc s i)"
    and "\<And>i j p. owned (mt_pc s i) = Some p \<Longrightarrow> owned (mt_pc s j) = Some p \<Longrightarrow> i = j"
    and "taken_ok s"
    and "\<And>p. mt_enq s \<le> p \<Longrightarrow> p < mt_enq s + cap \<Longrightarrow> cell_ok cap s p"
    and "2 \<le> cap" "length (mt_claimed s) = mt_enq s" "mt_deq s \<le> mt_enq s"
    and "mt_enq s \<le> mt_deq s + cap"
  shows "mpmc_inv cap s"
  unfolding mpmc_inv_def using assms by blast

lemma taken_ok_cong:
  assumes "taken_ok s" "mt_taken t = mt_taken s" "mt_deq t = mt_deq s"
    and "\<And>p. p < mt_deq s \<Longrightarrow> mt_claimed t ! p = mt_claimed s ! p"
    and "\<And>j. popping (mt_pc t j) = popping (mt_pc s j)"
  shows "taken_ok t"
  using assms(1,4) unfolding taken_ok_def assms(2,3,5) by auto

lemma mpmc_start_inv: "mpmc_start cap s \<Longrightarrow> mpmc_inv cap s"
  by (auto simp: mpmc_start_def mpmc_inv_def cell_ok_def taken_ok_def)

text \<open>Two positions won and not yet released share a cell only if they are equal.\<close>

lemma same_cell:
  fixes E :: nat
  assumes "p < E" "E \<le> p + cap" "q < E" "E \<le> q + cap" "p mod cap = q mod cap"
  shows "p = q"
  by (rule mod_window_inj [of "E - cap" p cap q]) (use assms in auto)

lemma held_cell:
  fixes E :: nat
  assumes "q mod cap = p mod cap" "cap \<le> q" "E \<le> q" "q < E + cap" "p < E" "E \<le> p + cap"
  shows "q - cap = p"
proof (rule same_cell)
  show "(q - cap) mod cap = p mod cap" using assms(1,2) by (simp add: le_mod_geq)
qed (use assms in auto)

lemma owned_window:
  assumes "pc_ok cap s c" "mt_deq s \<le> mt_enq s" "owned c = Some p"
  shows "p < mt_enq s" "mt_enq s \<le> p + cap"
  using assms by (cases c; simp)+

lemma owned_seq:
  "pc_ok cap s c \<Longrightarrow> owned c = Some p \<Longrightarrow> mt_seq s (p mod cap) = p \<or> mt_seq s (p mod cap) = Suc p"
  by (cases c) auto

lemma popping_owned: "popping c = Some p \<Longrightarrow> owned c = Some p"
  by (cases c) auto

lemma owned_same_cell:
  assumes "mpmc_inv cap s" "owned (mt_pc s i) = Some p" "owned (mt_pc s j) = Some q"
    and "p mod cap = q mod cap"
  shows "p = q"
  using owned_window [OF mpmc_invD(6,3) [OF assms(1)] assms(2)]
    owned_window [OF mpmc_invD(6,3) [OF assms(1)] assms(3)] assms(4)
  by (blast intro: same_cell)

text \<open>Steps that only move a thread between states without ownership.\<close>

lemma goto_inv:
  assumes "mpmc_inv cap s" "pc_ok cap s c" "owned c = None" "popping (mt_pc s i) = None"
  shows "mpmc_inv cap (goto i c s)"
proof -
  have pc: "pc_ok cap (goto j c' s) d = pc_ok cap s d" for j c' d by (cases d) auto
  have "popping c = None" using assms(3) by (cases c) auto
  then have "taken_ok (goto i c s)"
    using mpmc_invD(8) [OF assms(1)] assms(4) unfolding taken_ok_def
    by (auto split: if_splits) (metis option.discI)
  with assms pc show ?thesis by (auto simp: mpmc_inv_def cell_ok_def)
qed

text \<open>Winning an enqueue position.\<close>

lemma push_win_free:
  assumes "mpmc_inv cap s" "mt_pc s i = PushSeq v p p" "mt_enq s = p"
  shows "mt_seq s (p mod cap) = p" "p < cap \<or> p - cap < mt_deq s"
proof -
  have "cell_ok cap s p" using mpmc_invD(1,5) [OF assms(1)] assms(3) by simp
  moreover have "p \<le> mt_seq s (p mod cap)" using mpmc_invD(6) [OF assms(1), of i] assms(2) by simp
  ultimately show "mt_seq s (p mod cap) = p" "p < cap \<or> p - cap < mt_deq s"
    using mpmc_invD(1) [OF assms(1)] by (auto simp: cell_ok_def)
qed

lemma pc_ok_push_win:
  assumes "pc_ok cap s c" "2 \<le> cap" "length (mt_claimed s) = p" "mt_enq s = p" "mt_deq s \<le> p"
    and "mt_seq s (p mod cap) = p"
  shows "pc_ok cap (goto i d (s\<lparr>mt_enq := Suc p, mt_claimed := mt_claimed s @ [v]\<rparr>)) c"
proof -
  have "mt_seq s (q mod cap) = q \<or> mt_seq s (q mod cap) = Suc q \<Longrightarrow> p \<le> q + cap \<Longrightarrow> Suc p \<le> q + cap" for q
    using assms(2,6) by (cases "p = q + cap") auto
  then show ?thesis using assms by (cases c) (auto simp: nth_append)
qed

lemma push_win_inv:
  assumes "mpmc_inv cap s" "mt_pc s i = PushSeq v p p" "mt_enq s = p"
  shows "mpmc_inv cap (goto i (PushOwn v p) (s\<lparr>mt_enq := Suc p, mt_claimed := mt_claimed s @ [v]\<rparr>))"
    (is "mpmc_inv cap ?t")
proof -
  note inv = mpmc_invD [OF assms(1)] and free = push_win_free [OF assms]
  have pcs: "pc_ok cap ?t (mt_pc ?t j)" for j
    using pc_ok_push_win [OF inv(6) inv(1) _ assms(3) _ free(1)] inv(1,2,3) assms(3) free(1)
    by (auto simp: nth_append)
  have cells: "cell_ok cap ?t q" if "Suc p \<le> q" "q < Suc p + cap" for q
  proof (cases "q = p + cap")
    case True
    then show ?thesis using free(1) inv(3) assms(3) by (simp add: cell_ok_def)
  next
    case False
    with that assms(3) inv(5) [of q] inv(2) show ?thesis by (auto simp: cell_ok_def nth_append)
  qed
  have uniq: "k = j" if "owned (mt_pc ?t k) = Some q" "owned (mt_pc ?t j) = Some q" for k j q
  proof -
    have "owned (mt_pc s l) \<noteq> Some p" for l
      using owned_window(1) [OF inv(6,3), of l p] assms(3) by auto
    with that inv(7) [of k q j] show ?thesis by (cases "k = i"; cases "j = i") auto
  qed
  show ?thesis
  proof (rule mpmc_invI)
    show "taken_ok ?t"
      by (rule taken_ok_cong [OF inv(8)]) (use inv(2,3) assms(2,3) in \<open>auto simp: nth_append\<close>)
  qed (fact pcs, fact uniq, use inv(1,2,3) free(2) assms(3) cells in auto)
qed

text \<open>Writing and publishing the value of a won position.\<close>

lemma push_data_inv:
  assumes "mpmc_inv cap s" "mt_pc s i = PushOwn v p"
  shows "mpmc_inv cap (goto i (PushStored v p) (s\<lparr>mt_data := (mt_data s)(p mod cap := v)\<rparr>))"
    (is "mpmc_inv cap ?t")
proof -
  note inv = mpmc_invD [OF assms(1)]
  have own: "owned (mt_pc s i) = Some p" using assms(2) by simp
  have p: "pc_ok cap s (PushOwn v p)" using inv(6) [of i] assms(2) by simp
  have other: "q mod cap \<noteq> p mod cap" if "owned (mt_pc s j) = Some q" "j \<noteq> i" for j q
    using owned_same_cell [OF assms(1) that(1) own] inv(7) [OF _ own] that by blast
  have pcs: "pc_ok cap ?t (mt_pc ?t j)" for j
    using inv(6) [of j] p other [of j] by (cases "j = i"; cases "mt_pc s j") auto
  have cells: "cell_ok cap ?t q" if "mt_enq s \<le> q" "q < mt_enq s + cap" for q
  proof -
    have "mt_seq s (q mod cap) \<noteq> Suc (q - cap)" if "q mod cap = p mod cap" "cap \<le> q"
      using held_cell [OF that(1) that(2) \<open>mt_enq s \<le> q\<close> \<open>q < mt_enq s + cap\<close>] p that(1) by simp
    with inv(5) [OF that] show ?thesis
      unfolding cell_ok_def by (cases "q mod cap = p mod cap") auto
  qed
  have uniq: "k = j" if "owned (mt_pc ?t k) = Some q" "owned (mt_pc ?t j) = Some q" for k j q
    using that inv(7) [of k q j] own by (cases "k = i"; cases "j = i") auto
  show ?thesis
  proof (rule mpmc_invI)
    show "taken_ok ?t" by (rule taken_ok_cong [OF inv(8)]) (use assms(2) in auto)
  qed (fact pcs, fact uniq, use inv(1,2,3,4) cells in auto)
qed

lemma push_publish_inv:
  assumes "mpmc_inv cap s" "mt_pc s i = PushStored v p"
  shows "mpmc_inv cap (goto i TIdle (s\<lparr>mt_seq := (mt_seq s)(p mod cap := Suc p)\<rparr>))"
    (is "mpmc_inv cap ?t")
proof -
  note inv = mpmc_invD [OF assms(1)]
  have own: "owned (mt_pc s i) = Some p" using assms(2) by simp
  have p: "pc_ok cap s (PushStored v p)" using inv(6) [of i] assms(2) by simp
  have other: "q mod cap \<noteq> p mod cap" if "owned (mt_pc s j) = Some q" "j \<noteq> i" for j q
    using owned_same_cell [OF assms(1) that(1) own] inv(7) [OF _ own] that by blast
  have pcs: "pc_ok cap ?t (mt_pc ?t j)" for j
    using inv(6) [of j] p other [of j] by (cases "j = i"; cases "mt_pc s j") auto
  have cells: "cell_ok cap ?t q" if "mt_enq s \<le> q" "q < mt_enq s + cap" for q
  proof (cases "q mod cap = p mod cap")
    case True
    from inv(5) [OF that] p True have "cap \<le> q" using that by (auto simp: cell_ok_def)
    from held_cell [OF True this that] p have "q - cap = p" by simp
    with p True \<open>cap \<le> q\<close> show ?thesis by (simp add: cell_ok_def)
  next
    case False
    with inv(5) [OF that] show ?thesis by (simp add: cell_ok_def)
  qed
  have uniq: "k = j" if "owned (mt_pc ?t k) = Some q" "owned (mt_pc ?t j) = Some q" for k j q
    using that inv(7) [of k q j] by (cases "k = i"; cases "j = i") auto
  show ?thesis
  proof (rule mpmc_invI)
    show "taken_ok ?t" by (rule taken_ok_cong [OF inv(8)]) (use assms(2) in auto)
  qed (fact pcs, fact uniq, use inv(1,2,3,4) cells in auto)
qed

text \<open>Winning a dequeue position: the value of that position has been published.\<close>

lemma pop_win_published:
  assumes "mpmc_inv cap s" "mt_pc s i = PopSeq p (Suc p)" "mt_deq s = p"
  shows "p < mt_enq s" "mt_seq s (p mod cap) = Suc p" "mt_data s (p mod cap) = mt_claimed s ! p"
proof -
  note inv = mpmc_invD [OF assms(1)]
  have q: "Suc p \<le> mt_seq s (p mod cap)" using inv(6) [of i] assms(2) by simp
  have "p \<noteq> mt_enq s"
    using inv(1) inv(5) [of p] q assms(3) by (auto simp: cell_ok_def)
  with inv(3) assms(3) show "p < mt_enq s" by simp
  with inv(1,4) assms(3) have "cell_ok cap s (p + cap)" by (intro inv(5)) auto
  with q assms(3) show "mt_seq s (p mod cap) = Suc p" "mt_data s (p mod cap) = mt_claimed s ! p"
    by (auto simp: cell_ok_def)
qed

lemma pop_win_inv:
  assumes "mpmc_inv cap s" "mt_pc s i = PopSeq p (Suc p)" "mt_deq s = p"
  shows "mpmc_inv cap (goto i (PopOwn p) (s\<lparr>mt_deq := Suc p\<rparr>))" (is "mpmc_inv cap ?t")
proof -
  note inv = mpmc_invD [OF assms(1)] and pub = pop_win_published [OF assms]
  have fresh: "p \<notin> fst ` set (mt_taken s)" using inv(8) assms(3) by (auto simp: taken_ok_def)
  have "q \<noteq> p" if "mt_seq s (q mod cap) = q" for q using that pub(2) by auto
  then have pcs: "pc_ok cap ?t (mt_pc ?t j)" for j
    using inv(6) [of j] inv(4) pub fresh assms(3)
    by (cases "j = i"; cases "mt_pc s j") (auto simp: Suc_le_eq le_neq_implies_less)
  have cells: "cell_ok cap ?t q" if "mt_enq s \<le> q" "q < mt_enq s + cap" for q
  proof (cases "q = p + cap")
    case True
    with pub show ?thesis by (simp add: cell_ok_def)
  next
    case False
    with inv(5) [OF that] inv(4) assms(3) that show ?thesis
      by (auto simp: cell_ok_def Suc_le_eq le_neq_implies_less)
  qed
  have noown: "owned (mt_pc s l) \<noteq> Some p" for l
    using inv(6) [of l] assms(3) pub(2) by (cases "mt_pc s l") auto
  have uniq: "k = j" if "owned (mt_pc ?t k) = Some q" "owned (mt_pc ?t j) = Some q" for k j q
    using that inv(7) [of k q j] noown by (cases "k = i"; cases "j = i") auto
  have taken: "taken_ok ?t"
  proof -
    have "q \<in> fst ` set (mt_taken s) \<or> (\<exists>l. popping (mt_pc ?t l) = Some q)" if "q < Suc p" for q
    proof (cases "q = p")
      case False
      with that inv(8) assms(3) have "q \<in> fst ` set (mt_taken s) \<or> (\<exists>l. popping (mt_pc s l) = Some q)"
        unfolding taken_ok_def by auto
      then show ?thesis using assms(2) by (metis fun_upd_other mpmc_sys.select_convs(5) mpmc_sys.simps(5)
          mpmc_sys.surjective mpmc_sys.update_convs(2,5) option.distinct(1) popping.simps(9))
    qed (auto intro: exI [of _ i])
    moreover have "q < Suc p \<and> v = mt_claimed s ! q" if "(q, v) \<in> set (mt_taken s)" for q v
      using that inv(8) assms(3) by (fastforce simp: taken_ok_def)
    ultimately show ?thesis using inv(8) by (auto simp: taken_ok_def)
  qed
  show ?thesis
    by (rule mpmc_invI) (fact pcs, fact uniq, fact taken, use inv(1,2) pub(1) inv(4) assms(3) cells in auto)
qed

lemma pop_move_inv:
  assumes "mpmc_inv cap s" "mt_pc s i = PopOwn p"
  shows "mpmc_inv cap (goto i (PopMoved (mt_data s (p mod cap)) p)
     (s\<lparr>mt_data := (mt_data s)(p mod cap := w)\<rparr>))" (is "mpmc_inv cap ?t")
proof -
  note inv = mpmc_invD [OF assms(1)]
  have own: "owned (mt_pc s i) = Some p" using assms(2) by simp
  have p: "pc_ok cap s (PopOwn p)" using inv(6) [of i] assms(2) by simp
  have other: "q mod cap \<noteq> p mod cap" if "owned (mt_pc s j) = Some q" "j \<noteq> i" for j q
    using owned_same_cell [OF assms(1) that(1) own] inv(7) [OF _ own] that by blast
  have pcs: "pc_ok cap ?t (mt_pc ?t j)" for j
    using inv(6) [of j] p other [of j] by (cases "j = i"; cases "mt_pc s j") auto
  have cells: "cell_ok cap ?t q" if "mt_enq s \<le> q" "q < mt_enq s + cap" for q
  proof (cases "q mod cap = p mod cap \<and> cap \<le> q")
    case True
    with held_cell [of q cap p "mt_enq s"] that p inv(3) have "q - cap = p" by auto
    with p inv(5) [OF that] True show ?thesis by (auto simp: cell_ok_def)
  next
    case False
    with inv(5) [OF that] show ?thesis by (cases "q mod cap = p mod cap") (auto simp: cell_ok_def)
  qed
  have uniq: "k = j" if "owned (mt_pc ?t k) = Some q" "owned (mt_pc ?t j) = Some q" for k j q
    using that inv(7) [of k q j] own by (cases "k = i"; cases "j = i") auto
  show ?thesis
  proof (rule mpmc_invI)
    show "taken_ok ?t" by (rule taken_ok_cong [OF inv(8)]) (use assms(2) in auto)
  qed (fact pcs, fact uniq, use inv(1,2,3,4) cells in auto)
qed

lemma pop_publish_inv:
  assumes "mpmc_inv cap s" "mt_pc s i = PopMoved v p"
  shows "mpmc_inv cap (goto i TIdle (s\<lparr>mt_seq := (mt_seq s)(p mod cap := p + cap),
     mt_taken := mt_taken s @ [(p, v)]\<rparr>))" (is "mpmc_inv cap ?t")
proof -
  note inv = mpmc_invD [OF assms(1)]
  have own: "owned (mt_pc s i) = Some p" using assms(2) by simp
  have p: "pc_ok cap s (PopMoved v p)" using inv(6) [of i] assms(2) by simp
  have other: "q mod cap \<noteq> p mod cap" if "owned (mt_pc s j) = Some q" "j \<noteq> i" for j q
    using owned_same_cell [OF assms(1) that(1) own] inv(7) [OF _ own] that by blast
  have ne: "q \<noteq> p" if "owned (mt_pc s j) = Some q" "j \<noteq> i" for j q
    using other [OF that] by blast
  have pcs: "pc_ok cap ?t (mt_pc ?t j)" for j
    using inv(6) [of j] p other [of j] ne [of j] inv(1) by (cases "j = i"; cases "mt_pc s j") auto
  have cells: "cell_ok cap ?t q" if "mt_enq s \<le> q" "q < mt_enq s + cap" for q
  proof (cases "q mod cap = p mod cap")
    case True
    from inv(5) [OF that] p True inv(1) that have "cap \<le> q" by (auto simp: cell_ok_def)
    from held_cell [OF True this that] p inv(3) have "q = p + cap" using \<open>cap \<le> q\<close> by auto
    with p show ?thesis by (simp add: cell_ok_def)
  next
    case False
    with inv(5) [OF that] show ?thesis by (simp add: cell_ok_def)
  qed
  have uniq: "k = j" if "owned (mt_pc ?t k) = Some q" "owned (mt_pc ?t j) = Some q" for k j q
    using that inv(7) [of k q j] by (cases "k = i"; cases "j = i") auto
  have taken: "taken_ok ?t"
  proof -
    have "q \<in> fst ` set (mt_taken ?t) \<or> (\<exists>l. popping (mt_pc ?t l) = Some q)" if "q < mt_deq s" for q
    proof (cases "q = p")
      case False
      from that inv(8) consider "q \<in> fst ` set (mt_taken s)" | l where "popping (mt_pc s l) = Some q"
        unfolding taken_ok_def by blast
      then show ?thesis
      proof cases
        case (2 l)
        with False assms(2) have "l \<noteq> i" by auto
        with 2 have "popping (mt_pc ?t l) = Some q" by simp
        then show ?thesis by blast
      qed simp
    qed simp
    then show ?thesis using inv(8) p by (auto simp: taken_ok_def)
  qed
  show ?thesis
    by (rule mpmc_invI) (fact pcs, fact uniq, fact taken, use inv(1,2,3,4) cells in auto)
qed

lemma mpmc_step_inv [model_inv]: "mpmc_step cap moved s t \<Longrightarrow> mpmc_inv cap s \<Longrightarrow> mpmc_inv cap t"
proof (induction rule: mpmc_step.induct)
  case (push_win s i v p q)
  then show ?case by (intro push_win_inv) auto
next
  case (push_data s i v p)
  then show ?case by (intro push_data_inv) auto
next
  case (push_publish s i v p)
  then show ?case by (intro push_publish_inv) auto
next
  case (pop_win s i p q)
  then show ?case by (intro pop_win_inv) auto
next
  case (pop_move s i p)
  then show ?case by (intro pop_move_inv) auto
next
  case (pop_publish s i v p)
  then show ?case by (intro pop_publish_inv) auto
next
  case (push_seq s i v p)
  then show ?case using mpmc_invD(6) [of cap s i] by (intro goto_inv) auto
next
  case (pop_seq s i p)
  then show ?case using mpmc_invD(6) [of cap s i] by (intro goto_inv) auto
qed (rule goto_inv; simp)+

interpretation mpm: safe_machine "mpmc_start cap" "mpmc_step cap moved" "mpmc_inv cap"
  by unfold_locales (auto intro: mpmc_start_inv mpmc_step_inv)

section \<open>What the threads see\<close>

lemma finished_pops:
  assumes "mpmc_inv cap s" "\<forall>i. popping (mt_pc s i) = None"
  shows "mset (map snd (mt_taken s)) = mset (take (mt_deq s) (mt_claimed s))"
proof -
  note inv = mpmc_invD [OF assms(1)]
  let ?ps = "map fst (mt_taken s)"
  from inv(8) assms(2) have dist: "distinct ?ps" and ps: "set ?ps = {..<mt_deq s}"
    by (auto simp: taken_ok_def)
  have vals: "map snd (mt_taken s) = map ((!) (mt_claimed s)) ?ps"
    using inv(8) by (auto simp: taken_ok_def)
  have "mset ?ps = mset [0..<mt_deq s]"
    using dist ps by (intro set_eq_iff_mset_eq_distinct [THEN iffD1]) auto
  then have "mset (map snd (mt_taken s)) = mset (map ((!) (mt_claimed s)) [0..<mt_deq s])"
    unfolding vals by (metis mset_map)
  also have "map ((!) (mt_claimed s)) [0..<mt_deq s] = take (mt_deq s) (mt_claimed s)"
    using inv(2,3) by (intro nth_equalityI) auto
  finally show ?thesis .
qed

text \<open>
  However many threads push and pop concurrently, each enqueue position is delivered at
  most once and with the value pushed at that position; positions are claimed in order, so a
  consumer never sees an unwritten or overwritten cell, and at most \<open>capacity\<close> values are
  queued.
\<close>

theorem mpmc_threads_exactly_once:
  assumes "mpmc_start cap s" "(mpmc_step cap moved)\<^sup>*\<^sup>* s t"
  shows "distinct (map fst (mt_taken t)) \<and>
    (\<forall>(p, v) \<in> set (mt_taken t). p < mt_deq t \<and> v = mt_claimed t ! p) \<and>
    mt_deq t \<le> mt_enq t \<and> mt_enq t \<le> mt_deq t + cap"
  using mpmc_invD(3,4,8) [OF mpm.reach_inv [OF assms]] by (auto simp: taken_ok_def)

text \<open>
  When no pop is in progress, the values delivered so far are, as a multiset, exactly the
  first \<open>dequeue_pos_\<close> values pushed: concurrent threads neither lose nor duplicate a value.
\<close>

theorem mpmc_threads_no_loss:
  assumes "mpmc_start cap s" "(mpmc_step cap moved)\<^sup>*\<^sup>* s t" "\<forall>i. popping (mt_pc t i) = None"
  shows "mset (map snd (mt_taken t)) = mset (take (mt_deq t) (mt_claimed t))"
  by (rule finished_pops [OF mpm.reach_inv [OF assms(1,2)] assms(3)])

text \<open>
  No two threads work on the same cell at once: threads that have won positions and not
  yet released them hold cells with different indices.
\<close>

theorem mpmc_threads_race_free:
  assumes "mpmc_start cap s" "(mpmc_step cap moved)\<^sup>*\<^sup>* s t" "i \<noteq> j"
    and "owned (mt_pc t i) = Some p" "owned (mt_pc t j) = Some q"
  shows "p mod cap \<noteq> q mod cap"
proof -
  note inv = mpm.reach_inv [OF assms(1,2)]
  have "p \<noteq> q" using mpmc_invD(7) [OF inv assms(4)] assms(3,5) by blast
  then show ?thesis using owned_same_cell [OF inv assms(4,5)] by blast
qed

subsection \<open>A concrete run: one push and one pop by two threads\<close>

definition demo0 :: "nat mpmc_sys" where
  "demo0 = \<lparr>mt_enq = 0, mt_deq = 0, mt_seq = (\<lambda>i. i), mt_data = (\<lambda>_. 0), mt_pc = (\<lambda>_. TIdle),
     mt_claimed = [], mt_taken = []\<rparr>"

definition demo1 :: "nat mpmc_sys" where
  "demo1 = demo0\<lparr>mt_enq := 1, mt_claimed := [7], mt_data := (\<lambda>_. 0)(0 := 7), mt_seq := (\<lambda>i. i)(0 := 1)\<rparr>"

definition demo2 :: "nat mpmc_sys" where
  "demo2 = demo1\<lparr>mt_deq := 1, mt_seq := (\<lambda>i. i)(0 := 2), mt_taken := [(0, 7)]\<rparr>"

lemma demo_start: "mpmc_start 2 demo0"
  by (simp add: mpmc_start_def demo0_def)

lemma demo_push: "(mpmc_step 2 id)\<^sup>*\<^sup>* demo0 demo1"
  unfolding demo0_def demo1_def
  apply (rule converse_rtranclp_into_rtranclp, rule push_load [where i = 0 and v = 7], simp)
  apply (rule converse_rtranclp_into_rtranclp, rule push_seq [where i = 0], simp)
  apply (rule converse_rtranclp_into_rtranclp, rule push_win [where i = 0], simp, simp, simp)
  apply (rule converse_rtranclp_into_rtranclp, rule push_data [where i = 0], simp)
  apply (rule converse_rtranclp_into_rtranclp, rule push_publish [where i = 0], simp)
  apply (rule rtranclp_refl_eq, auto simp: fun_eq_iff)
  done

lemma demo_pop: "(mpmc_step 2 id)\<^sup>*\<^sup>* demo1 demo2"
  unfolding demo0_def demo1_def demo2_def
  apply (rule converse_rtranclp_into_rtranclp, rule pop_load [where i = 1], simp)
  apply (rule converse_rtranclp_into_rtranclp, rule pop_seq [where i = 1], simp)
  apply (rule converse_rtranclp_into_rtranclp, rule pop_win [where i = 1], simp, simp, simp)
  apply (rule converse_rtranclp_into_rtranclp, rule pop_move [where i = 1], simp)
  apply (rule converse_rtranclp_into_rtranclp, rule pop_publish [where i = 1], simp)
  apply (rule rtranclp_refl_eq, auto simp: fun_eq_iff)
  done

lemma demo_run: "(mpmc_step 2 id)\<^sup>*\<^sup>* demo0 demo2"
  using demo_push demo_pop by (rule rtranclp_trans)

theorem mpmc_threads_exactly_once_witness: "(7::nat) = mt_claimed demo2 ! 0"
  using mpmc_threads_exactly_once [OF demo_start demo_run] by (simp add: demo2_def)

theorem mpmc_threads_no_loss_witness: "mset (map snd (mt_taken demo2)) = {#7#}"
proof -
  have "\<forall>i. popping (mt_pc demo2 i) = None" by (simp add: demo2_def demo1_def demo0_def)
  from mpmc_threads_no_loss [OF demo_start demo_run this] show ?thesis
    by (simp add: demo2_def demo1_def demo0_def)
qed

definition demo3 :: "nat mpmc_sys" where
  "demo3 = demo0\<lparr>mt_enq := 2, mt_claimed := [7, 8],
     mt_pc := (\<lambda>_. TIdle)(0 := PushOwn 7 0, 1 := PushOwn 8 1)\<rparr>"

lemma demo_two_owners: "(mpmc_step 2 id)\<^sup>*\<^sup>* demo0 demo3"
  unfolding demo0_def demo3_def
  apply (rule converse_rtranclp_into_rtranclp, rule push_load [where i = 0 and v = 7], simp)
  apply (rule converse_rtranclp_into_rtranclp, rule push_seq [where i = 0], simp)
  apply (rule converse_rtranclp_into_rtranclp, rule push_win [where i = 0], simp, simp, simp)
  apply (rule converse_rtranclp_into_rtranclp, rule push_load [where i = 1 and v = 8], simp)
  apply (rule converse_rtranclp_into_rtranclp, rule push_seq [where i = 1], simp)
  apply (rule converse_rtranclp_into_rtranclp, rule push_win [where i = 1], simp, simp, simp)
  apply (rule rtranclp_refl_eq, auto simp: fun_eq_iff)
  done

theorem mpmc_threads_race_free_witness: "(0::nat) mod 2 \<noteq> 1 mod 2"
  by (rule mpmc_threads_race_free [OF demo_start demo_two_owners, of 0 1]) (simp_all add: demo3_def)

end
