(* ===== verification/DataTests.thy ===== *)
theory DataTests
  imports BagPlayer ProtoCodec MpmcThreads Discovery
begin

text \<open>
  \<open>tests/test_bag.cpp\<close>, \<open>tests/test_proto_codec.cpp\<close> and \<open>tests/test_ringbuffer_mpmc.cpp\<close>: test functions as
  expressions over the model. The bag tests meet the double lock of \<open>BagPlayer::open\<close>.
\<close>

section \<open>Bag files\<close>

text \<open>
  The padding of a header, the times of \<open>start()\<close> and \<open>stop()\<close> and the answer of the mutex to a thread
  that holds it already are arguments. A recorder is default-constructed and then configured.
\<close>

definition test_bag_config :: "string \<Rightarrow> bag_config" where
  "test_bag_config path = bag_config_default\<lparr>gc_output_path := text_bytes path\<rparr>"

definition test_bag_recorder :: "bytes \<Rightarrow> u64 \<Rightarrow> u64 \<Rightarrow> bool" where
  "test_bag_recorder pad t0 t1 =
     (let (b1, r1) = rc_configure (test_bag_config ''/tmp/test_recorder.bag'') (recorder_new bag_config_default pad);
          (b2, r2) = rc_add_topic (text_bytes ''/sensors/imu'') (text_bytes ''sensor_msgs/Imu'') [] r1;
          (b3, r3) = rc_add_topic (text_bytes ''/sensors/lidar'') (text_bytes ''sensor_msgs/PointCloud2'') [] r2;
          (b4, r4) = rc_start True t0 r3;
          (b5, r5) = rc_record (text_bytes ''/sensors/imu'') 1000000000 (text_bytes ''imu_data_1'') r4;
          (b6, r6) = rc_record (text_bytes ''/sensors/lidar'') 1001000000 (text_bytes ''lidar_data_1'') r5;
          (b7, r7) = rc_record (text_bytes ''/sensors/imu'') 1002000000 (text_bytes ''imu_data_2'') r6;
          r8 = rc_stop t1 r7
      in b1 \<and> b2 \<and> b3 \<and> b4 \<and> rc_recording r4 \<and> b5 \<and> b6 \<and> b7 \<and> rc_message_count r7 = 3 \<and> \<not> rc_recording r8)"

lemma test_bag_recorder_passes: "test_bag_recorder pad t0 t1"
  by (simp add: test_bag_recorder_def rc_configure_def test_bag_config_def bag_config_default_def recorder_new_def
      rc_add_topic_def rc_start_def rc_record_def rc_stop_def rc_message_count_def Let_def)

text \<open>The file of a session: one topic, the messages, and \<open>stop()\<close>.\<close>

definition recorded_bag :: "string \<Rightarrow> string \<Rightarrow> string \<Rightarrow> bag_message list \<Rightarrow> bytes \<Rightarrow> u64 \<Rightarrow> u64 \<Rightarrow> bytes" where
  "recorded_bag path topic type ms pad t0 t1 =
     (let r1 = snd (rc_configure (test_bag_config path) (recorder_new bag_config_default pad));
          r2 = snd (rc_add_topic (text_bytes topic) (text_bytes type) [] r1)
      in rc_file (rc_stop t1 (record_all ms (snd (rc_start True t0 r2)))))"

definition player_messages :: "bag_message list" where
  "player_messages = map (\<lambda>i. \<lparr>bm_timestamp = 1000000000 + of_nat i * 1000000, bm_topic = text_bytes ''/test/topic'',
     bm_data = text_bytes (''message_'' @ show_nat i)\<rparr>) [0..<5]"

text \<open>The verdict of a test, or \<open>None\<close> when it does not come back. \<open>waits\<close> is the timing of the playback.\<close>

definition test_bag_player :: "bool \<Rightarrow> (nat \<Rightarrow> bool) \<Rightarrow> bytes \<Rightarrow> u64 \<Rightarrow> u64 \<Rightarrow> bool option" where
  "test_bag_player relock waits pad t0 t1 =
     (case bp_open relock (Some (recorded_bag ''/tmp/test_player.bag'' ''/test/topic'' ''std_msgs/String'' player_messages pad t0 t1))
         (player_new pad) of
        None \<Rightarrow> None
      | Some (opened, p) \<Rightarrow>
          (case bp_play waits (\<lambda>_. False) [] (bp_set_callback True p) of
             None \<Rightarrow> None
           | Some (_, delivered, _) \<Rightarrow> Some (opened = Inr True \<and>
               take 8 (bh_magic (pl_header p)) = text_bytes ''LWIPC001'' \<and> bh_message_count (pl_header p) = 5 \<and>
               bh_topic_count (pl_header p) = 1 \<and> map bt_name (pl_topics p) = [text_bytes ''/test/topic''] \<and>
               length delivered = 5)))"

definition test_bag_pause_resume :: "bool \<Rightarrow> bytes \<Rightarrow> u64 \<Rightarrow> u64 \<Rightarrow> bool option" where
  "test_bag_pause_resume relock pad t0 t1 =
     (case bp_open relock (Some (recorded_bag ''/tmp/test_pause.bag'' ''/test'' ''test''
           [\<lparr>bm_timestamp = 1000, bm_topic = text_bytes ''/test'', bm_data = text_bytes ''data''\<rparr>] pad t0 t1)) (player_new pad) of
        None \<Rightarrow> None
      | Some (opened, p) \<Rightarrow> Some (opened = Inr True \<and> \<not> bp_is_paused p \<and> bp_is_paused (bp_pause p) \<and>
          \<not> bp_is_paused (bp_resume (bp_pause p))))"

definition test_invalid_file :: "bool \<Rightarrow> bytes \<Rightarrow> bool option" where
  "test_invalid_file relock pad =
     (case bp_open relock None (player_new pad) of
        None \<Rightarrow> None
      | Some (opened, p) \<Rightarrow>
          (case bp_open relock (Some (text_bytes ''This is not a valid bag file'')) p of
             None \<Rightarrow> None
           | Some (opened', _) \<Rightarrow> Some (opened = Inr False \<and> opened' = Inr False)))"

text \<open>Opening the file of a session.\<close>

lemma open_recorded_bag:
  assumes "length pad = 3" "length topic < 2 ^ 32" "length type < 2 ^ 32" "path \<noteq> []"
  shows "\<exists>p'. bp_open True (Some (recorded_bag path topic type ms pad t0 t1)) p = Some (Inr True, p') \<and>
    bh_magic (pl_header p') = magic \<and> bh_message_count (pl_header p') = of_nat (length ms) \<and>
    bh_topic_count (pl_header p') = 1 \<and> map bt_name (pl_topics p') = [text_bytes topic] \<and>
    pl_file p' = Some (concat (map write_message ms), True) \<and> \<not> bp_is_paused p'"
proof -
  define r where "r = snd (rc_add_topic (text_bytes topic) (text_bytes type) []
    (snd (rc_configure (test_bag_config path) (recorder_new bag_config_default pad))))"
  define r1 where "r1 = snd (rc_start True t0 r)"
  define r2 where "r2 = rc_stop t1 (record_all ms r1)"
  have ok: "recorder_ok r" unfolding r_def using assms(1)
    by (intro recorder_ok_add_topic) (simp add: rc_configure_def recorder_new_def recorder_ok_def header_ok_def bag_header_new_def)
  have topics: "rc_topics r = [\<lparr>bt_name = text_bytes topic, bt_type = text_bytes type, bt_schema = [], bt_message_count = 0\<rparr>]"
    by (simp add: r_def rc_add_topic_def rc_configure_def recorder_new_def Let_def)
  have start: "rc_start True t0 r = (True, r1)" using assms(4)
    by (simp add: r1_def r_def rc_start_def rc_add_topic_def rc_configure_def recorder_new_def test_bag_config_def
        bag_config_default_def Let_def)
  note rec = recording_file [OF ok start, where fin = t1 and ms = ms, folded r2_def]
  have count: "bh_topic_count (rc_header r2) = 1"
    using rec(2) start_recording [OF start] topics by simp
  have "bp_load (Some (rc_file r2)) (bp_close p) = (Inr True, (bp_close p)\<lparr>pl_header := rc_header r2,
      pl_file := Some (concat (map write_message ms), True),
      pl_topics := map (\<lambda>t. t\<lparr>bt_message_count := 0\<rparr>) (rc_topics r)\<rparr>)"
    using rec(3) assms(2,3) unfolding rec(1) recorder_ok_def
    by (intro bp_load_recorded) (auto simp: count topics topic_ok_def short_def)
  then show ?thesis
    using rec(2,3) count by (simp add: bp_open_def recorded_bag_def r2_def [symmetric] r1_def [symmetric] r_def [symmetric]
        topics recorder_ok_def bp_is_paused_def bp_close_def)
qed

text \<open>
  With a mutex that lets its owner in again the three tests pass; with one that blocks, as
  \<open>std::mutex\<close> may, none of them comes back from \<open>open()\<close>.
\<close>

theorem bag_tests_pass:
  assumes "length pad = 3"
  shows "test_bag_player True waits pad t0 t1 = Some True \<and> test_bag_pause_resume True pad t0 t1 = Some True \<and>
    test_invalid_file True pad = Some True"
proof (intro conjI)
  have ok: "\<forall>m \<in> set player_messages. message_ok m" and len: "length player_messages = 5"
    by (auto simp: player_messages_def message_ok_def short_def show_nat.simps)
  have magic: "take 8 magic = text_bytes ''LWIPC001''" by (simp add: magic_def text_bytes_def)
  obtain p where p: "bp_open True (Some (recorded_bag ''/tmp/test_player.bag'' ''/test/topic'' ''std_msgs/String'' player_messages pad t0 t1))
        (player_new pad) = Some (Inr True, p)" "bh_magic (pl_header p) = magic"
      "bh_message_count (pl_header p) = of_nat (length player_messages)" "bh_topic_count (pl_header p) = 1"
      "map bt_name (pl_topics p) = [text_bytes ''/test/topic'']"
      "pl_file p = Some (concat (map write_message player_messages), True)"
    using open_recorded_bag [OF assms, of "''/test/topic''" "''std_msgs/String''" "''/tmp/test_player.bag''"
      player_messages t0 t1 "player_new pad"] by auto
  then show "test_bag_player True waits pad t0 t1 = Some True"
    by (simp add: test_bag_player_def bp_play_def bp_set_callback_def play_loop_all [OF ok] len magic)
  show "test_bag_pause_resume True pad t0 t1 = Some True"
    using open_recorded_bag [OF assms, of "''/test''" "''test''" "''/tmp/test_pause.bag''"
      "[\<lparr>bm_timestamp = 1000, bm_topic = text_bytes ''/test'', bm_data = text_bytes ''data''\<rparr>]" t0 t1 "player_new pad"]
    by (auto simp: test_bag_pause_resume_def bp_is_paused_def bp_pause_def bp_resume_def)
  show "test_invalid_file True pad = Some True"
    by (simp add: test_invalid_file_def bp_open_def bp_load_def read_def Let_def)
qed

theorem bag_tests_pass_witness: "test_invalid_file True [0, 0, 0] = Some True"
  using bag_tests_pass [of "[0, 0, 0]" "\<lambda>_. True" 0 0] by simp

theorem bag_tests_hang:
  "test_bag_player False waits pad t0 t1 = None \<and> test_bag_pause_resume False pad t0 t1 = None \<and> test_invalid_file False pad = None"
  by (simp add: test_bag_player_def test_bag_pause_resume_def test_invalid_file_def bp_open_def)

section \<open>Protobuf\<close>

definition proto_test_message :: message_view where
  "proto_test_message = \<lparr>mv_header = header_default\<lparr>mh_topic_id := 7, mh_sequence := 42, mh_timestamp_ns := 1000, mh_payload_len := 3\<rparr>,
     mv_payload = [0x10, 0x20, 0x30]\<rparr>"

definition test_proto_codec :: "(frame \<Rightarrow> byte list option) \<Rightarrow> (byte list \<Rightarrow> frame option) \<Rightarrow> proto_error + bool" where
  "test_proto_codec serialize parse =
     (case encode_proto serialize proto_test_message of
        Inl e \<Rightarrow> Inl e
      | Inr out \<Rightarrow>
          (case decode_proto_header parse out of
             Inl e \<Rightarrow> Inl e
           | Inr d \<Rightarrow> Inr (mh_topic_id d = 7 \<and> mh_sequence d = 42 \<and> mh_timestamp_ns d = 1000 \<and> mh_payload_len d = 3)))"

lemma test_proto_codec_result:
  assumes "\<And>f out. serialize f = Some out \<Longrightarrow> parse out = Some f"
  shows "test_proto_codec serialize parse = Inr True \<or> test_proto_codec serialize parse = Inl SerializeFailed"
  by (auto simp: test_proto_codec_def encode_proto_def decode_proto_header_def proto_test_message_def header_default_def
      split: option.splits dest!: assms)

section \<open>The ring of many threads\<close>

text \<open>Calls that must succeed: pushes of the values, and pops that return them; \<open>None\<close> is a failed assertion.\<close>

fun push_each :: "(nat \<Rightarrow> bool) \<Rightarrow> 'a list \<Rightarrow> 'a mpmc \<Rightarrow> 'a mpmc option" where
  "push_each spur [] q = Some q"
| "push_each spur (v # vs) q =
     (case mpmc_try_push spur v q of Some (Inr (True, q')) \<Rightarrow> push_each spur vs q' | _ \<Rightarrow> None)"

fun pop_each :: "(nat \<Rightarrow> bool) \<Rightarrow> ('a \<Rightarrow> 'a) \<Rightarrow> 'a list \<Rightarrow> 'a mpmc \<Rightarrow> 'a mpmc option" where
  "pop_each spur moved [] q = Some q"
| "pop_each spur moved (v # vs) q =
     (case mpmc_try_pop spur moved q of
        Some (Inr (Some w, q')) \<Rightarrow> if w = v then pop_each spur moved vs q' else None
      | _ \<Rightarrow> None)"

definition test_basic_functionality :: "(nat \<Rightarrow> bool) \<Rightarrow> (int \<Rightarrow> int) \<Rightarrow> int \<Rightarrow> bool" where
  "test_basic_functionality spur moved d =
     (let q0 = mpmc_new 8 d
      in mpmc_empty q0 \<and> mpmc_size q0 = 0 \<and> mpmc_try_pop spur moved q0 = Some (Inr (None, q0)) \<and>
        (case push_each spur [42] q0 of None \<Rightarrow> False | Some q1 \<Rightarrow> \<not> mpmc_empty q1 \<and> mpmc_size q1 = 1 \<and>
        (case pop_each spur moved [42] q1 of None \<Rightarrow> False | Some q2 \<Rightarrow> mpmc_empty q2 \<and>
        (case push_each spur (map (\<lambda>i. int i * 10) [0..<5]) q2 of None \<Rightarrow> False | Some q3 \<Rightarrow> mpmc_size q3 = 5 \<and>
         pop_each spur moved (map (\<lambda>i. int i * 10) [0..<5]) q3 \<noteq> None))))"

lemma push_each_fits:
  assumes "settles spur" "mpmc_wf (length vs + n) q" "length (mpmc_items q) + length vs \<le> mpmc_limit q"
  shows "\<exists>q'. push_each spur vs q = Some q' \<and> mpmc_wf n q' \<and> mpmc_items q' = mpmc_items q @ vs \<and> mpmc_limit q' = mpmc_limit q"
  using assms(2,3)
proof (induction vs arbitrary: q)
  case (Cons v vs)
  then have wf: "mpmc_wf (Suc (length vs + n)) q" and room: "length (mpmc_items q) < mpmc_limit q" by simp_all
  note after = mpmc_after_push_props [OF wf room, of v]
  have "\<exists>q'. push_each spur vs (mpmc_after_push v q) = Some q' \<and> mpmc_wf n q' \<and>
      mpmc_items q' = mpmc_items (mpmc_after_push v q) @ vs \<and> mpmc_limit q' = mpmc_limit (mpmc_after_push v q)"
    using Cons.prems(2) by (intro Cons.IH after(1)) (simp add: after(2) del: mpmc_length_items)
  then show ?case using mpmc_push_cases [OF wf assms(1), of v] room by (auto simp: after(2) simp del: mpmc_length_items)
qed simp

lemma pop_each_items:
  assumes "settles spur" "mpmc_wf (length vs + n) q" "mpmc_items q = vs @ rest"
  shows "\<exists>q'. pop_each spur moved vs q = Some q' \<and> mpmc_wf n q' \<and> mpmc_items q' = rest \<and> mpmc_limit q' = mpmc_limit q"
  using assms(2,3)
proof (induction vs arbitrary: q)
  case (Cons v vs)
  then have wf: "mpmc_wf (Suc (length vs + n)) q" and some: "mpmc_items q \<noteq> []" by simp_all
  note after = mpmc_after_pop_props [OF wf some, where mv = moved]
  from after(2) Cons.prems(2) have v: "mc_data (mq_cell q (mq_dequeue_pos q)) = v" "mpmc_items (mpmc_after_pop moved q) = vs @ rest"
    by simp_all
  from Cons.IH [OF after(1) v(2)] show ?case
    using mpmc_pop_cases [OF wf assms(1), of moved] some v(1) by auto
qed simp

lemma test_basic_functionality_passes:
  assumes "settles spur"
  shows "test_basic_functionality spur moved d"
proof -
  let ?q0 = "mpmc_new 8 d" and ?vs = "map (\<lambda>i. int i * 10) [0..<5]"
  have wf: "mpmc_wf n ?q0" if "n < 1000" for n using that by (intro mpmc_new_wf) auto
  have q0: "mpmc_items ?q0 = []" "mpmc_limit ?q0 = 8" by (simp_all add: mpmc_items_def mpmc_new_def mpmc_limit_def)
  obtain q1 where q1: "push_each spur [42] ?q0 = Some q1" "mpmc_wf 11 q1" "mpmc_items q1 = [42]" "mpmc_limit q1 = 8"
    using push_each_fits [OF assms, of "[42]" 11 ?q0] wf [of 12] q0 by (auto simp del: push_each.simps)
  obtain q2 where q2: "pop_each spur moved [42] q1 = Some q2" "mpmc_wf 10 q2" "mpmc_items q2 = []" "mpmc_limit q2 = 8"
    using pop_each_items [OF assms, of "[42]" 10 q1 "[]" moved] q1 by (auto simp del: pop_each.simps)
  obtain q3 where q3: "push_each spur ?vs q2 = Some q3" "mpmc_wf 5 q3" "mpmc_items q3 = ?vs"
    using push_each_fits [OF assms, of ?vs 5 q2] q2 by (auto simp del: push_each.simps mpmc_length_items)
  obtain q4 where q4: "pop_each spur moved ?vs q3 = Some q4"
    using pop_each_items [OF assms, of ?vs 0 q3 "[]" moved] q3 by (auto simp del: pop_each.simps)
  have sizes: "unat (mpmc_size q1) = 1" "unat (mpmc_size q3) = 5" "unat (mpmc_size ?q0) = 0"
    using mpmc_size_exact [OF q1(2)] mpmc_size_exact [OF q3(2)] mpmc_size_exact [OF wf [of 0]]
    by (simp_all add: q1(3) q3(3) q0 del: mpmc_length_items)
  then have "mpmc_size q1 = 1" "mpmc_size q3 = 5" "mpmc_size ?q0 = 0"
    by (simp_all add: word_unat_eq_iff)
  then show ?thesis
    using mpmc_pop_cases [OF wf [of 0] assms, of moved] q0(1) q1(1,3) q2(1,3) q3(1) q4
      mpmc_size_exact [OF wf [of 0]] mpmc_size_exact [OF q1(2)] mpmc_size_exact [OF q2(2)]
    by (simp add: test_basic_functionality_def del: push_each.simps pop_each.simps)
qed

text \<open>
  The four tests with threads compare a sum: once every pop has returned and no value is left, the sum of
  what was delivered is the sum of what was pushed, in any interleaving.
\<close>

theorem concurrent_sum:
  fixes s t :: "int mpmc_sys"
  assumes "mpmc_start cap s" "(mpmc_step cap moved)\<^sup>*\<^sup>* s t" "\<forall>i. popping (mt_pc t i) = None" "mt_enq t \<le> mt_deq t"
  shows "sum_list (map snd (mt_taken t)) = sum_list (mt_claimed t)"
proof -
  note inv = mpm.reach_inv [OF assms(1,2)]
  have "take (mt_deq t) (mt_claimed t) = mt_claimed t" using mpmc_invD(2) [OF inv] assms(4) by simp
  with finished_pops [OF inv assms(3)] show ?thesis by (metis sum_mset_sum_list)
qed

theorem concurrent_sum_witness:
  "sum_list (map snd (mt_taken (\<lparr>mt_enq = 0, mt_deq = 0, mt_seq = (\<lambda>i. i), mt_data = (\<lambda>_. 0 :: int),
     mt_pc = (\<lambda>_. TIdle), mt_claimed = [], mt_taken = []\<rparr>))) = 0"
  using concurrent_sum [where cap = 2 and moved = id, OF _ rtranclp.rtrancl_refl, of "\<lparr>mt_enq = 0, mt_deq = 0, mt_seq = (\<lambda>i. i),
     mt_data = (\<lambda>_. 0 :: int), mt_pc = (\<lambda>_. TIdle), mt_claimed = [], mt_taken = []\<rparr>"]
  by (simp add: mpmc_start_def)

end
