(* ===== verification/DiscoveryState.thy ===== *)
theory DiscoveryState
  imports Discovery
begin

text \<open>
  The state of \<open>ServiceDiscovery\<close> (\<open>src/discovery/service_discovery.cpp\<close>) under arbitrary sequences
  of its operations, received datagrams and expiry included.
\<close>

section \<open>Calls\<close>

datatype discovery_call =
    DRegister service_info | DUnregister string string | DReceive string | DCleanup int
  | DStart int bool bool | DStop | DOnFound bool | DOnLost bool

text \<open>A datagram whose timestamp cannot be read ends the program; there is no later state to speak of.\<close>

fun sd_call :: "discovery_call \<Rightarrow> discovery \<Rightarrow> discovery" where
  "sd_call (DRegister info) d = snd (snd (sd_register info d))"
| "sd_call (DUnregister node ch) d = snd (sd_unregister node ch d)"
| "sd_call (DReceive datagram) d = (case sd_receive datagram d of Inl _ \<Rightarrow> d | Inr (_, d') \<Rightarrow> d')"
| "sd_call (DCleanup now) d = sd_cleanup now d"
| "sd_call (DStart sock bind_ok join_ok) d = snd (sd_start sock bind_ok join_ok d)"
| "sd_call DStop d = sd_stop d"
| "sd_call (DOnFound callable) d = sd_on_found callable d"
| "sd_call (DOnLost callable) d = sd_on_lost callable d"

section \<open>Well-formedness\<close>

definition discovery_wf :: "discovery \<Rightarrow> bool" where
  "discovery_wf d \<longleftrightarrow> discovery_ok d \<and> \<not> (sd_running d \<and> sd_socket d < 0)"

lemma discovery_ok_cong: "sd_services d = sd_services d' \<Longrightarrow> discovery_ok d = discovery_ok d'"
  by (simp add: discovery_ok_def)

lemma discovery_ok_process [model_inv]:
  assumes "discovery_ok d"
  shows "discovery_ok (snd (sd_process info d))"
proof -
  have channel: "\<forall>ch. \<forall>i \<in> set (sd_bucket (snd (sd_process info d)) ch). si_channel_name i = ch"
    by (rule process_bucket_channel) (use sd_bucket_ok [OF assms] in blast)
  have "umap_ok (sd_services (snd (sd_process info d)))"
    using assms by (auto simp: discovery_ok_def sd_process_def Let_def split: option.split)
  moreover have "l \<noteq> []" if "(ch, l) \<in> set (sd_services (snd (sd_process info d)))" for ch l
    using that assms refresh_keys [of "si_node_name info" "si_channel_name info" "si_timestamp info" "[]"]
    by (auto simp: discovery_ok_def sd_process_def Let_def set_um_put split: option.splits)
      (metis list.map_disc_iff refresh.simps(1) refresh_keys option.distinct(1))+
  moreover have "\<forall>i \<in> set l. si_channel_name i = ch" if "(ch, l) \<in> set (sd_services (snd (sd_process info d)))" for ch l
    using that calculation(1) channel by (auto simp: sd_bucket_def um_find_in_set split: option.splits)
  ultimately show ?thesis by (auto simp: discovery_ok_def)
qed

lemma discovery_ok_cleanup [model_inv]: "discovery_ok d \<Longrightarrow> discovery_ok (sd_cleanup now d)"
  by (auto simp: discovery_ok_def sd_cleanup_def sd_expire_def distinct_map_filter comp_def case_prod_beta')

lemma discovery_wf_call [model_inv]: "discovery_wf d \<Longrightarrow> discovery_wf (sd_call c d)"
proof (cases c)
  case (DRegister info)
  then show "discovery_wf d \<Longrightarrow> ?thesis"
    using discovery_ok_push [of d info] by (simp add: discovery_wf_def sd_register_def) (simp add: sd_push_def)
next
  case (DUnregister node ch)
  then show "discovery_wf d \<Longrightarrow> ?thesis"
    using discovery_ok_unregister [of d node ch]
    by (auto simp: discovery_wf_def) (auto simp: sd_unregister_def Let_def split: option.splits)
next
  case (DReceive t)
  have "discovery_wf d \<Longrightarrow> discovery_wf (snd (sd_process i d))" for i
    using discovery_ok_process [of d i]
    by (auto simp: discovery_wf_def) (auto simp: sd_process_def Let_def split: option.splits)
  then show "discovery_wf d \<Longrightarrow> ?thesis"
    using DReceive by (auto simp: sd_receive_def split: sum.split prod.split) (metis snd_conv)
next
  case (DCleanup now)
  then show "discovery_wf d \<Longrightarrow> ?thesis"
    using discovery_ok_cleanup [of d now] by (simp add: discovery_wf_def) (simp add: sd_cleanup_def)
next
  case (DStart sock b j)
  then show "discovery_wf d \<Longrightarrow> ?thesis"
    by (auto simp: discovery_wf_def sd_start_def discovery_ok_def split: sum.split)
qed (simp_all add: discovery_wf_def sd_stop_def sd_on_found_def sd_on_lost_def discovery_ok_def)

lemma discovery_wf_run: "discovery_wf d \<Longrightarrow> discovery_wf (fold sd_call cs d)"
  by (induction cs arbitrary: d) (simp_all add: discovery_wf_call)

lemma discovery_wf_new: "discovery_wf (discovery_new e)"
  by (simp add: discovery_wf_def) (simp add: discovery_new_def)

text \<open>
  C33. Whatever is called and received in whatever order, the table stays well formed: one entry
  per channel, none of them empty, every service under its own channel, so that
  \<open>GetAllServices\<close> lists exactly what \<open>FindServices\<close> finds; and a running discovery has a socket.
\<close>

theorem discovery_wellformed:
  fixes cs :: "discovery_call list" and e :: string
  defines "d \<equiv> fold sd_call cs (discovery_new e)"
  shows "distinct (map fst (sd_services d)) \<and> [] \<notin> set (map snd (sd_services d)) \<and>
    set (map si_channel_name (sd_find ch d)) \<subseteq> {ch} \<and> set (sd_get_all d) = (\<Union>c. set (sd_find c d)) \<and>
    \<not> (sd_running d \<and> sd_socket d < 0)"
proof -
  have wf: "discovery_ok d" "\<not> (sd_running d \<and> sd_socket d < 0)"
    using discovery_wf_run [OF discovery_wf_new, of cs e] by (simp_all add: d_def discovery_wf_def)
  then have keys: "umap_ok (sd_services d)" by (simp add: discovery_ok_def)
  have "set (sd_get_all d) = (\<Union>c. set (sd_find c d))"
    using keys by (auto simp: sd_get_all_def sd_find_def sd_bucket_def um_find_in_set split: option.splits)
      (metis map_of_SomeD option.sel)+
  with wf keys sd_bucket_ok [OF wf(1)] show ?thesis by (auto simp: discovery_ok_def sd_find_def)
qed

end
