(* ===== verification/DiscoveryNet.thy ===== *)
theory DiscoveryNet
  imports DiscoveryState
begin

text \<open>
  The two ends of the multicast group in \<open>src/discovery/service_discovery.cpp\<close>:
  \<open>SendAnnouncement\<close> and the loop of the listening thread, and what the announcements of some nodes
  do to another node that listens.
\<close>

section \<open>Sending\<close>

text \<open>
  Address, port and text of the datagram, if one is sent; \<open>Inl\<close> is the exception of \<open>std::stoi\<close>.
  \<open>htons\<close> takes the port modulo \<open>2 ^ 16\<close>.
\<close>

definition sd_send :: "service_info \<Rightarrow> discovery \<Rightarrow> conv_error + (string \<times> int \<times> string) option" where
  "sd_send info d = (if sd_socket d < 0 then Inr None
     else case split_endpoint (sd_endpoint d) of
         (ip, Inl e) \<Rightarrow> Inl e
       | (ip, Inr port) \<Rightarrow> Inr (Some (ip, port mod 2 ^ 16, announcement info)))"

definition endpoint_ok :: "discovery \<Rightarrow> bool" where
  "endpoint_ok d \<longleftrightarrow> (sd_running d \<longrightarrow> (\<exists>port. snd (split_endpoint (sd_endpoint d)) = Inr port))"

lemma sd_call_endpoint: "sd_endpoint (sd_call c d) = sd_endpoint d"
  by (cases c) (auto simp: sd_register_def sd_push_def sd_unregister_def Let_def sd_receive_def sd_process_def
      sd_cleanup_def sd_start_def sd_stop_def sd_on_found_def sd_on_lost_def split: option.split sum.split)

lemma sd_call_running:
  "sd_running (sd_call c d) \<Longrightarrow> sd_running d \<or> (\<exists>port. snd (split_endpoint (sd_endpoint d)) = Inr port)"
  by (cases c) (auto simp: sd_register_def sd_push_def sd_unregister_def Let_def sd_receive_def sd_process_def
      sd_cleanup_def sd_start_def sd_stop_def sd_on_found_def sd_on_lost_def
      split: option.splits sum.splits if_splits)

lemma endpoint_ok_call [model_inv]: "endpoint_ok d \<Longrightarrow> endpoint_ok (sd_call c d)"
  using sd_call_running [of c d] by (auto simp: endpoint_ok_def sd_call_endpoint)

lemma endpoint_ok_run: "endpoint_ok d \<Longrightarrow> endpoint_ok (fold sd_call cs d) \<and> sd_endpoint (fold sd_call cs d) = sd_endpoint d"
  by (induction cs arbitrary: d) (auto simp: endpoint_ok_call sd_call_endpoint)

text \<open>
  Registering never throws: a discovery that runs has an endpoint with a port, so the exception of
  \<open>std::stoi\<close> can only leave \<open>Start\<close>, and the announcement goes to the address of the endpoint.
\<close>

theorem register_sends:
  assumes "sd_running (fold sd_call cs (discovery_new e))"
  shows "\<exists>port. sd_send info (fold sd_call cs (discovery_new e)) = Inr (Some (fst (split_endpoint e), port, announcement info)) \<and>
    fst (snd (sd_register info (fold sd_call cs (discovery_new e)))) = [announcement info]"
proof -
  let ?d = "fold sd_call cs (discovery_new e)"
  have "endpoint_ok (discovery_new e)" by (simp add: endpoint_ok_def discovery_new_def)
  from endpoint_ok_run [OF this, of cs] obtain port where "split_endpoint e = (fst (split_endpoint e), Inr port)"
    using assms by (auto simp: endpoint_ok_def discovery_new_def prod_eq_iff)
  moreover have "sd_endpoint ?d = e"
    using endpoint_ok_run [OF \<open>endpoint_ok (discovery_new e)\<close>, of cs] by (simp add: discovery_new_def)
  moreover have "\<not> sd_socket ?d < 0"
    using discovery_wf_run [OF discovery_wf_new, of cs e] assms by (simp add: discovery_wf_def)
  ultimately show ?thesis using assms by (auto simp: sd_send_def sd_register_def split: prod.split)
qed

section \<open>Listening\<close>

text \<open>
  What one pass of the loop meets before \<open>stop_flag_\<close> is seen: \<open>select\<close> times out or fails, \<open>recv\<close>
  fails, or a datagram. An empty datagram is skipped like a failure.
\<close>

datatype poll = NoAnswer | RecvFails | Datagram string

fun sd_listen :: "poll list \<Rightarrow> discovery \<Rightarrow> conv_error + (service_info list \<times> discovery)" where
  "sd_listen [] d = Inr ([], d)"
| "sd_listen (NoAnswer # ps) d = sd_listen ps d"
| "sd_listen (RecvFails # ps) d = sd_listen ps d"
| "sd_listen (Datagram t # ps) d =
     (if t = [] then sd_listen ps d
      else case sd_receive t d of
          Inl e \<Rightarrow> Inl e
        | Inr (found, d') \<Rightarrow>
            (case sd_listen ps d' of Inl e \<Rightarrow> Inl e | Inr (later, d'') \<Rightarrow> Inr (found @ later, d'')))"

fun datagrams :: "poll list \<Rightarrow> string list" where
  "datagrams [] = []"
| "datagrams (Datagram t # ps) = t # datagrams ps"
| "datagrams (_ # ps) = datagrams ps"

definition service_key :: "service_info \<Rightarrow> string \<times> string" where
  "service_key i = (si_channel_name i, si_node_name i)"

definition known :: "discovery \<Rightarrow> (string \<times> string) set" where
  "known d = {(ch, si_node_name i) | ch i. i \<in> set (sd_find ch d)}"

text \<open>What is sent loses its endpoint only.\<close>

definition as_heard :: "service_info \<Rightarrow> service_info" where
  "as_heard info = info\<lparr>si_endpoint := []\<rparr>"

lemma service_key_heard [simp]: "service_key (as_heard info) = service_key info"
  by (simp add: service_key_def as_heard_def)

lemma announcement_nonempty: "announcement info \<noteq> []"
  by (simp add: announcement_def)

lemma listen_announcement:
  "wire_ok info \<Longrightarrow> sd_receive (announcement info) d = Inr (sd_process (as_heard info) d)"
  by (simp add: sd_receive_def announcement_parsed as_heard_def)

lemma process_has_on_found: "sd_has_on_found (snd (sd_process info d)) = sd_has_on_found d"
  by (simp add: sd_process_def Let_def split: option.split)

lemma nodes_of_heard: "nodes_of ch (map as_heard infos) = nodes_of ch infos"
  by (induction infos) (auto simp: nodes_of_def as_heard_def)

text \<open>A service is reported exactly when it was not known.\<close>

lemma process_reports:
  assumes "discovery_ok d" "sd_has_on_found d"
  shows "fst (sd_process info d) = (if service_key info \<in> known d then [] else [info]) \<and>
    known (snd (sd_process info d)) = insert (service_key info) (known d)"
proof -
  let ?ch = "si_channel_name info" and ?d = "snd (sd_process info d)"
  have channel: "\<forall>ch. \<forall>i \<in> set (sd_bucket d ch). si_channel_name i = ch" using sd_bucket_ok [OF assms(1)] by blast
  have seen: "service_key info \<in> known d \<longleftrightarrow> refresh (si_node_name info) ?ch (si_timestamp info) (sd_bucket d ?ch) \<noteq> None"
    using channel by (simp add: known_def sd_find_def service_key_def refresh_None) metis
  have names: "si_node_name ` set (sd_bucket ?d ch) =
      si_node_name ` set (sd_bucket d ch) \<union> (if ch = ?ch then {si_node_name info} else {})" for ch
  proof (cases "ch = ?ch")
    case True
    show ?thesis
    proof (cases "refresh (si_node_name info) ?ch (si_timestamp info) (sd_bucket d ?ch)")
      case None
      then show ?thesis by (simp add: sd_bucket_process True)
    next
      case (Some l)
      then have "si_node_name info \<in> si_node_name ` set (sd_bucket d ?ch)"
        using refresh_None [of "si_node_name info" ?ch "si_timestamp info" "sd_bucket d ?ch"]
        by (metis imageI option.distinct(1))
      moreover have "si_node_name ` set l = si_node_name ` set (sd_bucket d ?ch)"
        using refresh_keys [OF Some] by (metis list.set_map)
      ultimately show ?thesis by (auto simp: sd_bucket_process True Some)
    qed
  qed (simp add: sd_bucket_process)
  have "known e = {(ch, n). n \<in> si_node_name ` set (sd_bucket e ch)}" for e
    by (auto simp: known_def sd_find_def)
  then have "known ?d = insert (service_key info) (known d)"
    using names by (auto simp: service_key_def split: if_splits)
  moreover have "fst (sd_process info d) = (if service_key info \<in> known d then [] else [info])"
    using assms(2) seen by (auto simp: sd_process_def Let_def split: option.split)
  ultimately show ?thesis by blast
qed

lemma listen_reports:
  assumes "discovery_ok d" "sd_has_on_found d" "\<forall>i \<in> set infos. wire_ok i" "datagrams ps = map announcement infos"
  shows "\<exists>found d'. sd_listen ps d = Inr (found, d') \<and> d' = process_all (map as_heard infos) d \<and>
    distinct (map service_key found) \<and> set (map service_key found) = service_key ` set infos - known d"
  using assms
proof (induction ps arbitrary: d infos rule: datagrams.induct)
  case (2 t ps)
  then obtain info rest where infos: "infos = info # rest" "t = announcement info" "datagrams ps = map announcement rest"
    by (cases infos) auto
  let ?d = "snd (sd_process (as_heard info) d)"
  note step = process_reports [OF "2.prems"(1,2), of "as_heard info"]
  obtain found d' where rec: "sd_listen ps ?d = Inr (found, d')" "d' = process_all (map as_heard rest) ?d"
    "distinct (map service_key found)" "set (map service_key found) = service_key ` set rest - known ?d"
    using "2.IH" [of ?d rest] "2.prems" infos discovery_ok_process process_has_on_found by (metis list.set_intros(2))
  have "sd_listen (Datagram t # ps) d = Inr (fst (sd_process (as_heard info) d) @ found, d')"
    using rec(1) "2.prems"(3) infos 
    by (cases "sd_process (as_heard info) d") (simp add: announcement_nonempty listen_announcement)
  moreover have "d' = process_all (map as_heard infos) d" by (simp add: rec(2) infos(1) process_all_def)
  moreover have "distinct (map service_key (fst (sd_process (as_heard info) d) @ found))"
    using rec(3,4) step by auto
  moreover have "set (map service_key (fst (sd_process (as_heard info) d) @ found)) = service_key ` set infos - known d"
    using rec(4) step infos(1) by auto
  ultimately show ?case by blast
qed (simp_all add: process_all_def)

text \<open>
  C30. A node that listens from the start, on whatever mixture of time-outs, failures and
  announcements, lists every announced node of a channel exactly once and calls \<open>OnServiceFound\<close> exactly
  once for every pair of node and channel, provided that the announced names and times can be sent;
  the listening thread does not fail.
\<close>

theorem announcements_heard:
  assumes "sd_services d = []" "sd_has_on_found d" "\<forall>i \<in> set infos. wire_ok i" "datagrams ps = map announcement infos"
  shows "\<exists>found d'. sd_listen ps d = Inr (found, d') \<and>
    distinct (map service_key found) \<and> set (map service_key found) = service_key ` set infos \<and>
    (\<forall>ch. distinct (map si_node_name (sd_find ch d')) \<and> set (map si_node_name (sd_find ch d')) = set (nodes_of ch infos))"
proof -
  have empty: "sd_bucket d = (\<lambda>ch. [])" using assms(1) by (auto simp: sd_bucket_def)
  have "discovery_ok d" "known d = {}" using assms(1) empty by (auto simp: discovery_ok_def known_def sd_find_def)
  with listen_reports [OF _ assms(2-4)] obtain found d' where *: "sd_listen ps d = Inr (found, d')"
    "d' = process_all (map as_heard infos) d" "distinct (map service_key found)"
    "set (map service_key found) = service_key ` set infos" by auto
  have "distinct (map si_node_name (sd_find ch d')) \<and> set (map si_node_name (sd_find ch d')) = set (nodes_of ch infos)" for ch
    using process_all_nodes [of d ch "map as_heard infos"] by (simp add: sd_find_def *(2) empty nodes_of_heard)
  with * show ?thesis by blast
qed

definition demo_listener :: discovery where
  "demo_listener = snd (sd_start 5 True True (sd_on_found True (discovery_new ''239.255.0.1:8888'')))"

definition demo_polls :: "poll list" where
  "demo_polls = [NoAnswer, Datagram ''cam|img|Image|TX|1700000000'', RecvFails, Datagram ''cam|img|Image|TX|1700000000'']"

lemma demo_listener_running: "sd_running demo_listener \<and> sd_services demo_listener = [] \<and> sd_has_on_found demo_listener"
  by (simp add: demo_listener_def sd_start_def sd_on_found_def discovery_new_def split_endpoint_def parse_int_def
      is_space_def is_digit_def digits_value_def Let_def)

lemma demo_wire_ok: "wire_ok demo_service"
  unfolding wire_ok_def demo_wire by (simp add: wire_field_def demo_service_def service_default_def)

lemma distinct_singleton: "distinct xs \<Longrightarrow> set xs = {x} \<Longrightarrow> xs = [x]"
  by (cases xs; cases "tl xs") auto

theorem announcements_heard_witness:
  "\<exists>found d'. sd_listen demo_polls demo_listener = Inr (found, d') \<and> map si_node_name (sd_find ''img'' d') = [''cam'']"
proof -
  let ?infos = "[demo_service, demo_service]"
  have polls: "datagrams demo_polls = map announcement ?infos" by (simp add: demo_polls_def demo_wire)
  have wire: "\<forall>i \<in> set ?infos. wire_ok i" using demo_wire_ok by simp
  have nodes: "set (nodes_of ''img'' ?infos) = {''cam''}" by (simp add: nodes_of_def demo_service_def)
  from announcements_heard [OF _ _ wire polls, of demo_listener] demo_listener_running
  obtain found d' where run: "sd_listen demo_polls demo_listener = Inr (found, d')"
    and lists: "\<And>ch. distinct (map si_node_name (sd_find ch d')) \<and>
      set (map si_node_name (sd_find ch d')) = set (nodes_of ch ?infos)" by metis
  from lists [of "''img''"] have "map si_node_name (sd_find ''img'' d') = [''cam'']"
    unfolding nodes by (intro distinct_singleton) simp_all
  with run show ?thesis by iprover
qed

end
