(* ===== verification/DiscoveryThreads.thy ===== *)
theory DiscoveryThreads
  imports DiscoveryNet
begin

text \<open>
  \<open>ServiceDiscovery\<close> of \<open>src/discovery/service_discovery.cpp\<close> with its threads: any number of threads that
  register, unregister and look up services, one that calls \<open>Start\<close> and \<open>Stop\<close>, and the listening thread,
  which calls \<open>on_found_\<close> while it holds the mutex. The callbacks are set while the discovery is off; \<open>running_\<close>
  is not atomic in the code, here every access is one step.
\<close>

section \<open>Steps\<close>

text \<open>What the callback does: return, throw, call an operation that locks the mutex, or call \<open>Stop\<close>.\<close>

datatype callback = Returns | Throws | Looks | Stops

text \<open>
  The listening thread: not there; at the test of \<open>stop_flag_\<close>; in \<open>select\<close> or \<open>recv\<close>; with a datagram; before
  the mutex; in the callback; in the callback, waiting for the mutex that it holds; at its end.
\<close>

datatype listener =
    LOff | LTest | LSelect | LGot string | LProcess service_info | LCalls service_info | LWaits service_info | LEnd

text \<open>The caller of \<open>Stop\<close>: after setting \<open>stop_flag_\<close>, after clearing \<open>running_\<close>, after the join.\<close>

datatype controller = Off | On | Flagged | Joining | Closing

record dthreads =
  dt_disc :: discovery
  dt_stop_flag :: bool
  dt_locked :: bool
  dt_listener :: listener
  dt_ctl :: controller
  dt_found :: "service_info list"
  dt_crashed :: bool

definition dt_start :: "dthreads \<Rightarrow> bool" where
  "dt_start s \<longleftrightarrow> sd_services (dt_disc s) = [] \<and> \<not> sd_running (dt_disc s) \<and> \<not> dt_stop_flag s \<and> \<not> dt_locked s \<and>
     dt_listener s = LOff \<and> dt_ctl s = Off \<and> dt_found s = [] \<and> \<not> dt_crashed s"

inductive api_step :: "dthreads \<Rightarrow> dthreads \<Rightarrow> bool" where
  dt_register: "\<not> dt_locked s \<Longrightarrow> api_step s (s\<lparr>dt_disc := snd (snd (sd_register info (dt_disc s)))\<rparr>)"
| dt_unregister: "\<not> dt_locked s \<Longrightarrow> api_step s (s\<lparr>dt_disc := snd (sd_unregister node ch (dt_disc s))\<rparr>)"
| dt_look: "\<not> dt_locked s \<Longrightarrow> api_step s s"
| dt_set_callback: "dt_ctl s = Off \<Longrightarrow> api_step s (s\<lparr>dt_disc := sd_on_found callable (dt_disc s)\<rparr>)"
| dt_begin: "dt_ctl s = Off \<Longrightarrow> sd_start sock bind_ok join_ok (dt_disc s) = (Inr True, d) \<Longrightarrow>
     api_step s (s\<lparr>dt_disc := d, dt_stop_flag := False, dt_ctl := On, dt_listener := LTest\<rparr>)"
| dt_begin_fails: "dt_ctl s = Off \<Longrightarrow> sd_start sock bind_ok join_ok (dt_disc s) = (r, d) \<Longrightarrow> r \<noteq> Inr True \<Longrightarrow>
     api_step s (s\<lparr>dt_disc := d\<rparr>)"
| dt_begin_stop: "dt_ctl s = On \<Longrightarrow> api_step s (s\<lparr>dt_stop_flag := True, dt_ctl := Flagged\<rparr>)"

inductive stop_step :: "dthreads \<Rightarrow> dthreads \<Rightarrow> bool" where
  dt_clear: "dt_ctl s = Flagged \<Longrightarrow> stop_step s (s\<lparr>dt_disc := (dt_disc s)\<lparr>sd_running := False\<rparr>, dt_ctl := Joining\<rparr>)"
| dt_join: "dt_ctl s = Joining \<Longrightarrow> dt_listener s = LEnd \<Longrightarrow> stop_step s (s\<lparr>dt_listener := LOff, dt_ctl := Closing\<rparr>)"
| dt_close: "dt_ctl s = Closing \<Longrightarrow> stop_step s (s\<lparr>dt_disc := (dt_disc s)\<lparr>sd_socket := -1\<rparr>, dt_ctl := Off\<rparr>)"

inductive listener_step :: "(service_info \<Rightarrow> callback) \<Rightarrow> dthreads \<Rightarrow> dthreads \<Rightarrow> bool" for behave where
  dt_ends: "dt_listener s = LTest \<Longrightarrow> dt_stop_flag s \<Longrightarrow> listener_step behave s (s\<lparr>dt_listener := LEnd\<rparr>)"
| dt_goes_on: "dt_listener s = LTest \<Longrightarrow> \<not> dt_stop_flag s \<Longrightarrow> listener_step behave s (s\<lparr>dt_listener := LSelect\<rparr>)"
| dt_nothing: "dt_listener s = LSelect \<Longrightarrow> listener_step behave s (s\<lparr>dt_listener := LTest\<rparr>)"
| dt_datagram: "dt_listener s = LSelect \<Longrightarrow> t \<noteq> [] \<Longrightarrow> listener_step behave s (s\<lparr>dt_listener := LGot t\<rparr>)"
| dt_malformed: "dt_listener s = LGot t \<Longrightarrow> parse_announcement (take 4095 t) = Inl e \<Longrightarrow>
     listener_step behave s (s\<lparr>dt_crashed := True\<rparr>)"
| dt_parsed: "dt_listener s = LGot t \<Longrightarrow> parse_announcement (take 4095 t) = Inr info \<Longrightarrow>
     listener_step behave s (s\<lparr>dt_listener := LProcess info\<rparr>)"
| dt_known: "dt_listener s = LProcess info \<Longrightarrow> \<not> dt_locked s \<Longrightarrow> sd_process info (dt_disc s) = ([], d) \<Longrightarrow>
     listener_step behave s (s\<lparr>dt_disc := d, dt_listener := LTest\<rparr>)"
| dt_new: "dt_listener s = LProcess info \<Longrightarrow> \<not> dt_locked s \<Longrightarrow> sd_process info (dt_disc s) = ([info], d) \<Longrightarrow>
     listener_step behave s (s\<lparr>dt_disc := d, dt_locked := True, dt_listener := LCalls info, dt_found := dt_found s @ [info]\<rparr>)"
| dt_returns: "dt_listener s = LCalls info \<Longrightarrow> behave info = Returns \<or> behave info = Stops \<and> \<not> sd_running (dt_disc s) \<Longrightarrow>
     listener_step behave s (s\<lparr>dt_locked := False, dt_listener := LTest\<rparr>)"
| dt_throws: "dt_listener s = LCalls info \<Longrightarrow> behave info = Throws \<or> behave info = Stops \<and> sd_running (dt_disc s) \<Longrightarrow>
     listener_step behave s (s\<lparr>dt_crashed := True\<rparr>)"
| dt_looks: "dt_listener s = LCalls info \<Longrightarrow> behave info = Looks \<Longrightarrow>
     listener_step behave s (s\<lparr>dt_listener := LWaits info\<rparr>)"

text \<open>
  An exception that leaves the listening thread ends the program, and so does joining it from itself.
  A thread in \<open>LWaits\<close> would go on if the mutex were free.
\<close>

definition dt_step :: "(service_info \<Rightarrow> callback) \<Rightarrow> dthreads \<Rightarrow> dthreads \<Rightarrow> bool" where
  "dt_step behave s t \<longleftrightarrow> \<not> dt_crashed s \<and> (api_step s t \<or> stop_step s t \<or> listener_step behave s t)"

definition dt_progress :: "(service_info \<Rightarrow> callback) \<Rightarrow> dthreads \<Rightarrow> dthreads \<Rightarrow> bool" where
  "dt_progress behave s t \<longleftrightarrow> \<not> dt_crashed s \<and> (stop_step s t \<or> listener_step behave s t)"

inductive_cases api_stepE: "api_step s t"
inductive_cases stop_stepE: "stop_step s t"
inductive_cases listener_stepE: "listener_step behave s t"

section \<open>Invariant\<close>

fun in_callback :: "listener \<Rightarrow> bool" where
  "in_callback (LCalls info) = True"
| "in_callback (LWaits info) = True"
| "in_callback _ = False"

fun ctl_ok :: "dthreads \<Rightarrow> controller \<Rightarrow> bool" where
  "ctl_ok s Off = (dt_listener s = LOff \<and> \<not> sd_running (dt_disc s))"
| "ctl_ok s On = (dt_listener s \<noteq> LOff \<and> dt_listener s \<noteq> LEnd \<and> sd_running (dt_disc s) \<and> 0 \<le> sd_socket (dt_disc s) \<and> \<not> dt_stop_flag s)"
| "ctl_ok s Flagged = (dt_listener s \<noteq> LOff \<and> sd_running (dt_disc s) \<and> 0 \<le> sd_socket (dt_disc s) \<and> dt_stop_flag s)"
| "ctl_ok s Joining = (dt_listener s \<noteq> LOff \<and> \<not> sd_running (dt_disc s) \<and> dt_stop_flag s)"
| "ctl_ok s Closing = (dt_listener s = LOff \<and> \<not> sd_running (dt_disc s))"

definition dt_inv :: "dthreads \<Rightarrow> bool" where
  "dt_inv s \<longleftrightarrow> discovery_ok (dt_disc s) \<and> (dt_locked s \<longleftrightarrow> in_callback (dt_listener s)) \<and> ctl_ok s (dt_ctl s)"

lemma discovery_ok_start: "sd_start sock bind_ok join_ok d = (r, d') \<Longrightarrow> discovery_ok d' = discovery_ok d"
  by (rule discovery_ok_cong) (auto simp: sd_start_def split: if_splits sum.splits)

lemma api_step_inv: "api_step s t \<Longrightarrow> dt_inv s \<Longrightarrow> dt_inv t"
proof (induction rule: api_step.induct)
  case (dt_register s info)
  then show ?case
    by (cases "dt_ctl s") (simp_all add: dt_inv_def sd_register_def discovery_ok_push, simp_all add: sd_push_def)
next
  case (dt_unregister s node ch)
  have "sd_running (snd (sd_unregister node ch (dt_disc s))) = sd_running (dt_disc s)"
    "sd_socket (snd (sd_unregister node ch (dt_disc s))) = sd_socket (dt_disc s)"
    by (simp_all add: sd_unregister_def Let_def split: option.split)
  with dt_unregister show ?case by (cases "dt_ctl s") (simp_all add: dt_inv_def discovery_ok_unregister)
next
  case (dt_set_callback s)
  then show ?case by (simp add: dt_inv_def sd_on_found_def discovery_ok_def)
next
  case (dt_begin s sock bind_ok join_ok d)
  from discovery_ok_start [OF this(2)] this show ?case
    by (auto simp: dt_inv_def sd_start_def split: if_splits sum.splits)
next
  case (dt_begin_fails s sock bind_ok join_ok r d)
  from discovery_ok_start [OF this(2)] this show ?case
    by (auto simp: dt_inv_def sd_start_def split: if_splits sum.splits)
next
  case (dt_begin_stop s)
  then show ?case by (simp add: dt_inv_def)
qed simp

lemma stop_step_inv: "stop_step s t \<Longrightarrow> dt_inv s \<Longrightarrow> dt_inv t"
  by (induction rule: stop_step.induct) (simp_all add: dt_inv_def discovery_ok_def)

lemma sd_process_flags:
  "sd_process info d = (r, d') \<Longrightarrow> sd_running d' = sd_running d \<and> sd_socket d' = sd_socket d"
  by (auto simp: sd_process_def Let_def split: option.splits)

lemma listener_step_inv: "listener_step behave s t \<Longrightarrow> dt_inv s \<Longrightarrow> dt_inv t"
proof (induction rule: listener_step.induct)
  case (dt_known s info d)
  with discovery_ok_process [of "dt_disc s" info] sd_process_flags [OF dt_known(3)] show ?case
    by (cases "dt_ctl s") (auto simp: dt_inv_def)
next
  case (dt_new s info d)
  with discovery_ok_process [of "dt_disc s" info] sd_process_flags [OF dt_new(3)] show ?case
    by (cases "dt_ctl s") (auto simp: dt_inv_def)
qed (auto simp: dt_inv_def elim!: ctl_ok.elims)

lemma dt_step_inv [model_inv]: "dt_step behave s t \<Longrightarrow> dt_inv s \<Longrightarrow> dt_inv t"
  using api_step_inv stop_step_inv listener_step_inv unfolding dt_step_def by blast

lemma dt_start_inv: "dt_start s \<Longrightarrow> dt_inv s"
  by (simp add: dt_start_def dt_inv_def discovery_ok_def)

interpretation dtm: safe_machine dt_start "dt_step behave" dt_inv
  by unfold_locales (erule dt_start_inv, erule (1) dt_step_inv [rotated])

section \<open>Stopping\<close>

text \<open>The steps that the listening thread and \<open>Stop\<close> still take once \<open>stop_flag_\<close> is set.\<close>

fun listener_weight :: "listener \<Rightarrow> nat" where
  "listener_weight LSelect = 5"
| "listener_weight (LGot t) = 4"
| "listener_weight (LProcess info) = 3"
| "listener_weight (LCalls info) = 2"
| "listener_weight LTest = 1"
| "listener_weight _ = 0"

fun ctl_weight :: "controller \<Rightarrow> nat" where
  "ctl_weight Flagged = 3"
| "ctl_weight Joining = 2"
| "ctl_weight Closing = 1"
| "ctl_weight _ = 0"

definition dt_fuel :: "dthreads \<Rightarrow> nat" where
  "dt_fuel s = (if dt_crashed s then 0 else 1 + listener_weight (dt_listener s) + ctl_weight (dt_ctl s))"

definition stopping :: "(service_info \<Rightarrow> callback) \<Rightarrow> dthreads \<Rightarrow> bool" where
  "stopping behave s \<longleftrightarrow> dt_inv s \<and> (dt_ctl s = Flagged \<or> dt_ctl s = Joining \<or> dt_ctl s = Closing \<or> dt_ctl s = Off) \<and>
     (\<forall>info. behave info = Returns) \<and> (\<forall>info. dt_listener s \<noteq> LWaits info)"

lemma progress_stopping: "stopping behave s \<Longrightarrow> dt_progress behave s t \<Longrightarrow> stopping behave t"
  unfolding dt_progress_def
proof (elim conjE disjE)
  assume s: "stopping behave s" and step: "stop_step s t"
  then have "dt_inv t" using stop_step_inv by (auto simp: stopping_def)
  with step s show ?thesis by cases (auto simp: stopping_def)
next
  assume s: "stopping behave s" and step: "listener_step behave s t"
  then have "dt_inv t" using listener_step_inv by (auto simp: stopping_def)
  with step s show ?thesis by cases (auto simp: stopping_def)
qed

lemma progress_fuel: "stopping behave s \<Longrightarrow> dt_progress behave s t \<Longrightarrow> dt_fuel t < dt_fuel s"
  unfolding dt_progress_def
proof (elim conjE disjE)
  assume "stopping behave s" "\<not> dt_crashed s" "stop_step s t"
  from this(3,1,2) show ?thesis by cases (auto simp: stopping_def dt_fuel_def)
next
  assume "stopping behave s" "\<not> dt_crashed s" "listener_step behave s t"
  from this(3,1,2) show ?thesis by cases (auto simp: stopping_def dt_fuel_def dt_inv_def)
qed

interpretation dtb: bounded_machine "dt_progress behave" "stopping behave" dt_fuel
  by unfold_locales (auto dest: progress_stopping progress_fuel)

lemma stopping_stuck:
  assumes "stopping behave s" "\<nexists>t. dt_progress behave s t" "\<not> dt_crashed s"
  shows "dt_ctl s = Off"
proof (rule ccontr)
  assume ctl: "dt_ctl s \<noteq> Off"
  have s: "dt_inv s" "behave info = Returns" for info using assms(1) by (simp_all add: stopping_def)
  have none: "\<not> stop_step s t" "\<not> listener_step behave s t" for t using assms(2,3) by (auto simp: dt_progress_def)
  have ctl': "dt_ctl s = Joining" "dt_listener s \<noteq> LEnd"
    using none(1) assms(1) ctl by (auto simp: stopping_def intro: stop_step.intros)
  show False
  proof (cases "dt_listener s")
    case LOff
    with s(1) ctl' show False by (simp add: dt_inv_def)
  next
    case LTest
    with none(2) dt_ends dt_goes_on show False by blast
  next
    case LSelect
    with none(2) dt_nothing show False by blast
  next
    case (LGot t)
    with none(2) dt_malformed dt_parsed show False by (cases "parse_announcement (take 4095 t)") blast+
  next
    case (LProcess info)
    then have "\<not> dt_locked s" using s(1) by (simp add: dt_inv_def)
    moreover have "fst (sd_process info (dt_disc s)) = [] \<or> fst (sd_process info (dt_disc s)) = [info]"
      by (simp add: sd_process_def Let_def split: option.split)
    ultimately show False using none(2) LProcess dt_known dt_new by (metis prod.collapse)
  next
    case (LCalls info)
    with none(2) s(2) dt_returns show False by blast
  next
    case (LWaits info)
    with assms(1) show False by (simp add: stopping_def)
  qed (use ctl' in simp)
qed

lemma dt_fuel_le: "dt_fuel s \<le> 9"
proof -
  have "listener_weight (dt_listener s) \<le> 5" by (cases "dt_listener s") simp_all
  moreover have "ctl_weight (dt_ctl s) \<le> 3" by (cases "dt_ctl s") simp_all
  ultimately show ?thesis by (simp add: dt_fuel_def)
qed

lemma no_waiting:
  assumes "(dt_step behave)\<^sup>*\<^sup>* s t" "dt_start s" "\<forall>info. behave info = Returns"
  shows "dt_listener t \<noteq> LWaits info"
  using assms(1)
proof (induction rule: rtranclp_induct)
  case base
  with assms(2) show ?case by (simp add: dt_start_def)
next
  case (step t u)
  then show ?case using assms(3)
    by (auto simp: dt_step_def elim!: api_stepE stop_stepE listener_stepE)
qed

text \<open>
  C13. In every interleaving of the threads the table stays well formed, the mutex is held exactly
  while a callback runs, and when \<open>Stop\<close> has returned the listening thread is gone, so that no callback
  runs or will run until the next \<open>Start\<close>. If the callbacks only return, \<open>Stop\<close> does: within nine steps of
  its own and of the listening thread, unless the program has been ended by a malformed datagram.
\<close>

theorem discovery_stop:
  assumes "dt_start s" "(dt_step behave)\<^sup>*\<^sup>* s t"
  shows "discovery_ok (dt_disc t) \<and> (dt_locked t \<longleftrightarrow> in_callback (dt_listener t)) \<and>
    (dt_ctl t = Off \<longrightarrow> dt_listener t = LOff \<and> \<not> sd_running (dt_disc t)) \<and>
    ((\<forall>info. behave info = Returns) \<and> dt_ctl t \<in> {Flagged, Joining, Closing} \<longrightarrow>
      (\<forall>n u. (dt_progress behave ^^ n) t u \<longrightarrow>
        n \<le> 9 \<and> ((\<nexists>v. dt_progress behave u v) \<longrightarrow> dt_crashed u \<or> dt_ctl u = Off)))"
proof -
  have inv: "dt_inv t" by (rule dtm.reach_inv [OF assms])
  then have "dt_ctl t = Off \<Longrightarrow> dt_listener t = LOff \<and> \<not> sd_running (dt_disc t)" by (simp add: dt_inv_def)
  moreover have "n \<le> 9 \<and> ((\<nexists>v. dt_progress behave u v) \<longrightarrow> dt_crashed u \<or> dt_ctl u = Off)"
    if returns: "\<forall>info. behave info = Returns" and ctl: "dt_ctl t \<in> {Flagged, Joining, Closing}"
      and run: "(dt_progress behave ^^ n) t u" for n u
  proof -
    have "stopping behave t"
      using inv ctl returns no_waiting [OF assms(2,1) returns] by (auto simp: stopping_def)
    from dtb.run_bound [OF run this] stopping_stuck [of behave u] dt_fuel_le [of t] show ?thesis by auto
  qed
  ultimately show ?thesis using inv by (simp add: dt_inv_def)
qed

text \<open>
  A callback that looks something up in the discovery waits for the mutex that its own thread holds:
  from then on no registration, no lookup and no call of \<open>Stop\<close> ever returns.
\<close>

lemma waits_forever: "dt_step behave s t \<Longrightarrow> dt_inv s \<Longrightarrow> dt_listener s = LWaits info \<Longrightarrow>
    dt_listener t = LWaits info \<and> sd_services (dt_disc t) = sd_services (dt_disc s)"
  by (auto simp: dt_step_def dt_inv_def elim!: api_stepE stop_stepE listener_stepE)

theorem callback_deadlock:
  assumes "dt_start s" "(dt_step behave)\<^sup>*\<^sup>* s t" "dt_listener t = LWaits info" "(dt_step behave)\<^sup>*\<^sup>* t u"
  shows "dt_listener u = LWaits info \<and> dt_locked u \<and> dt_ctl u \<noteq> Off \<and> sd_services (dt_disc u) = sd_services (dt_disc t)"
proof -
  have inv: "dt_inv t" by (rule dtm.reach_inv [OF assms(1,2)])
  have "dt_inv u \<and> dt_listener u = LWaits info \<and> sd_services (dt_disc u) = sd_services (dt_disc t)"
    using assms(4)
  proof (induction rule: rtranclp_induct)
    case base
    with inv assms(3) show ?case by simp
  next
    case (step u v)
    with waits_forever [of behave u v info] dt_step_inv show ?case by simp
  qed
  then show ?thesis by (auto simp: dt_inv_def)
qed

section \<open>A run\<close>

text \<open>A node starts listening and hears of a service.\<close>

definition dt_demo :: "discovery \<Rightarrow> bool \<Rightarrow> bool \<Rightarrow> listener \<Rightarrow> controller \<Rightarrow> service_info list \<Rightarrow> dthreads" where
  "dt_demo d flag locked l c found = \<lparr>dt_disc = d, dt_stop_flag = flag, dt_locked = locked, dt_listener = l, dt_ctl = c,
     dt_found = found, dt_crashed = False\<rparr>"

abbreviation dt_fresh :: discovery where
  "dt_fresh \<equiv> (discovery_new ''h:1'')\<lparr>sd_has_on_found := True\<rparr>"

abbreviation dt_up :: discovery where
  "dt_up \<equiv> dt_fresh\<lparr>sd_socket := 5, sd_running := True\<rparr>"

lemma dt_demo_start: "dt_start (dt_demo dt_fresh False False LOff Off [])"
  by (simp add: dt_start_def dt_demo_def discovery_new_def)

lemma dt_demo_begins: "sd_start 5 True True dt_fresh = (Inr True, dt_up)"
  by (simp add: sd_start_def discovery_new_def split_endpoint_def parse_int_def is_space_def is_digit_def digits_value_def Let_def)

abbreviation dt_told :: discovery where
  "dt_told \<equiv> dt_up\<lparr>sd_services := [(''img'', [demo_service])]\<rparr>"

lemma dt_demo_hears:
  "parse_announcement (take 4095 (announcement demo_service)) = Inr demo_service"
  "sd_process demo_service dt_up = ([demo_service], dt_told)"
  using announcement_parsed [OF demo_wire_ok]
  by (simp_all add: demo_service_def service_default_def sd_process_def sd_bucket_def discovery_new_def Let_def)

lemma dt_demo_run: "(dt_step behave)\<^sup>*\<^sup>* (dt_demo dt_fresh False False LOff Off [])
    (dt_demo dt_told False True (LCalls demo_service) On [demo_service])"
proof -
  let ?d = "\<lambda>l. dt_demo dt_up False False l On []"
  have "api_step (dt_demo dt_fresh False False LOff Off []) (?d LTest)"
    using dt_begin [OF _ , of "dt_demo dt_fresh False False LOff Off []" 5 True True dt_up] dt_demo_begins
    by (simp add: dt_demo_def)
  moreover have "listener_step behave (?d LTest) (?d LSelect)"
    using dt_goes_on [of "?d LTest"] by (simp add: dt_demo_def)
  moreover have "listener_step behave (?d LSelect) (?d (LGot (announcement demo_service)))"
    using dt_datagram [of "?d LSelect" "announcement demo_service"] announcement_nonempty [of demo_service] by (simp add: dt_demo_def)
  moreover have "listener_step behave (?d (LGot (announcement demo_service))) (?d (LProcess demo_service))"
    using dt_parsed [OF _ dt_demo_hears(1), of "?d (LGot (announcement demo_service))"] by (simp add: dt_demo_def)
  moreover have "listener_step behave (?d (LProcess demo_service)) (dt_demo dt_told False True (LCalls demo_service) On [demo_service])"
    using dt_new [of "?d (LProcess demo_service)" demo_service dt_told] dt_demo_hears(2) by (simp add: dt_demo_def)
  ultimately have "dt_step behave (dt_demo dt_fresh False False LOff Off []) (?d LTest)" "dt_step behave (?d LTest) (?d LSelect)"
    "dt_step behave (?d LSelect) (?d (LGot (announcement demo_service)))"
    "dt_step behave (?d (LGot (announcement demo_service))) (?d (LProcess demo_service))"
    "dt_step behave (?d (LProcess demo_service)) (dt_demo dt_told False True (LCalls demo_service) On [demo_service])"
    unfolding dt_step_def by (simp_all add: dt_demo_def)
  then show ?thesis by (iprover intro: converse_rtranclp_into_rtranclp rtranclp.rtrancl_refl)
qed

theorem discovery_stop_witness:
  "\<exists>t. (dt_step (\<lambda>_. Returns))\<^sup>*\<^sup>* (dt_demo dt_fresh False False LOff Off []) t \<and> dt_ctl t = Flagged \<and> dt_found t = [demo_service] \<and>
    dt_locked t \<and> (\<forall>n u. (dt_progress (\<lambda>_. Returns) ^^ n) t u \<longrightarrow> n \<le> 9)"
proof -
  let ?s = "dt_demo dt_told False True (LCalls demo_service) On [demo_service]"
  let ?t = "dt_demo dt_told True True (LCalls demo_service) Flagged [demo_service]"
  have "api_step ?s ?t" using dt_begin_stop [of ?s] by (simp add: dt_demo_def)
  then have "dt_step (\<lambda>_. Returns) ?s ?t" by (simp add: dt_step_def dt_demo_def)
  with dt_demo_run have run: "(dt_step (\<lambda>_. Returns))\<^sup>*\<^sup>* (dt_demo dt_fresh False False LOff Off []) ?t" by (rule rtranclp.rtrancl_into_rtrancl)
  have ctl: "dt_ctl ?t = Flagged" "dt_found ?t = [demo_service]" "dt_locked ?t" by (simp_all add: dt_demo_def)
  then have "dt_ctl ?t \<in> {Flagged, Joining, Closing}" by simp
  with discovery_stop [OF dt_demo_start run] have "\<forall>n u. (dt_progress (\<lambda>_. Returns) ^^ n) ?t u \<longrightarrow> n \<le> 9" by blast
  with run ctl show ?thesis by blast
qed

theorem callback_deadlock_witness:
  "\<exists>t. (dt_step (\<lambda>_. Looks))\<^sup>*\<^sup>* (dt_demo dt_fresh False False LOff Off []) t \<and>
    (\<forall>u. (dt_step (\<lambda>_. Looks))\<^sup>*\<^sup>* t u \<longrightarrow> dt_locked u)"
proof -
  let ?s = "dt_demo dt_told False True (LCalls demo_service) On [demo_service]"
  let ?t = "dt_demo dt_told False True (LWaits demo_service) On [demo_service]"
  have "listener_step (\<lambda>_. Looks) ?s ?t" using dt_looks [of ?s demo_service "\<lambda>_. Looks"] by (simp add: dt_demo_def)
  then have "dt_step (\<lambda>_. Looks) ?s ?t" by (simp add: dt_step_def dt_demo_def)
  with dt_demo_run have run: "(dt_step (\<lambda>_. Looks))\<^sup>*\<^sup>* (dt_demo dt_fresh False False LOff Off []) ?t" by (rule rtranclp.rtrancl_into_rtrancl)
  have "dt_listener ?t = LWaits demo_service" by (simp add: dt_demo_def)
  from callback_deadlock [OF dt_demo_start run this] run show ?thesis by blast
qed

end
