(* ===== verification/NodeApi.thy ===== *)
theory NodeApi
  imports Discovery Message
begin

text \<open>
  \<open>src/node\<close>: the \<open>Node\<close> facade with its transmitters and receivers. Their transport is the
  header \<open>../transport/shm_channel.h\<close>, which the repository does not contain, so what it does is
  an argument. The maps of a node hold its transmitters and receivers themselves, since the
  objects are shared with the callers.
\<close>

section \<open>Transmitter\<close>

record transmitter =
  tx_channel :: string
  tx_qos :: qos_profile
  tx_initialized :: bool

definition transmitter_new :: "string \<Rightarrow> qos_profile \<Rightarrow> transmitter" where
  "transmitter_new channel qos = \<lparr>tx_channel = channel, tx_qos = qos, tx_initialized = False\<rparr>"

definition tx_init :: "transmitter \<Rightarrow> bool \<times> transmitter" where
  "tx_init t = (if tx_initialized t then (True, t) else (True, t\<lparr>tx_initialized := True\<rparr>))"

definition tx_shutdown :: "transmitter \<Rightarrow> transmitter" where
  "tx_shutdown t = (if \<not> tx_initialized t then t else t\<lparr>tx_initialized := False\<rparr>)"

definition tx_destroy :: "transmitter \<Rightarrow> transmitter" where
  "tx_destroy t = tx_shutdown t"

text \<open>\<open>write key data\<close>: whether the channel of that key has room and takes the data.\<close>

definition tx_send_raw :: "(string \<Rightarrow> byte list \<Rightarrow> bool) \<Rightarrow> byte list \<Rightarrow> transmitter \<Rightarrow> bool" where
  "tx_send_raw write data t = (if \<not> tx_initialized t then False else write (''/lwipc_'' @ tx_channel t) data)"

text \<open>\<open>Send\<close> of a message: \<open>bytes_of msg\<close> is its object representation.\<close>

definition tx_send :: "(string \<Rightarrow> byte list \<Rightarrow> bool) \<Rightarrow> ('m \<Rightarrow> byte list) \<Rightarrow> 'm \<Rightarrow> transmitter \<Rightarrow> bool" where
  "tx_send write bytes_of msg t = tx_send_raw write (bytes_of msg) t"

section \<open>Receiver\<close>

text \<open>\<open>rx_polling\<close> says that a polling thread has been started.\<close>

record receiver =
  rx_channel :: string
  rx_qos :: qos_profile
  rx_has_callback :: bool
  rx_initialized :: bool
  rx_polling :: bool

definition receiver_new :: "string \<Rightarrow> qos_profile \<Rightarrow> receiver" where
  "receiver_new channel qos = \<lparr>rx_channel = channel, rx_qos = qos, rx_has_callback = False, rx_initialized = False,
     rx_polling = False\<rparr>"

definition rx_init :: "receiver \<Rightarrow> bool \<times> receiver" where
  "rx_init r = (if rx_initialized r then (True, r) else (True, r\<lparr>rx_initialized := True\<rparr>))"

definition rx_shutdown :: "receiver \<Rightarrow> receiver" where
  "rx_shutdown r = (if \<not> rx_initialized r then r else r\<lparr>rx_initialized := False\<rparr>)"

definition rx_destroy :: "receiver \<Rightarrow> receiver" where
  "rx_destroy r = rx_shutdown r"

lemma rx_shutdown_off [simp]: "\<not> rx_initialized (rx_shutdown r)"
  by (simp add: rx_shutdown_def)

definition rx_set_callback :: "bool \<Rightarrow> receiver \<Rightarrow> receiver" where
  "rx_set_callback callable r =
     (let r' = r\<lparr>rx_has_callback := callable\<rparr>
      in if callable \<and> rx_initialized r' then r'\<lparr>rx_polling := True\<rparr> else r')"

definition MAX_MSG_SIZE :: nat where
  "MAX_MSG_SIZE = 65536"

text \<open>
  \<open>latest key\<close> is the newest message of the channel, if it can be opened and has one. The result
  is the size that is reported and the bytes that are copied.
\<close>

definition rx_poll :: "(string \<Rightarrow> byte list option) \<Rightarrow> receiver \<Rightarrow> (nat \<times> byte list) option" where
  "rx_poll latest r = (if \<not> rx_initialized r then None
     else case latest (''/lwipc_'' @ rx_channel r) of
        None \<Rightarrow> None
      | Some data \<Rightarrow> Some (length data, take (min (length data) MAX_MSG_SIZE) data))"

section \<open>Node\<close>

record node_options =
  no_node_name :: string
  no_namespace :: string
  no_qos :: qos_profile
  no_discovery :: bool
  no_endpoint :: string

record node =
  nd_name :: string
  nd_namespace :: string
  nd_full_name :: string
  nd_options :: node_options
  nd_discovery :: "discovery option"
  nd_transmitters :: "(string, transmitter) umap"
  nd_receivers :: "(string, receiver) umap"
  nd_running :: bool

definition strip_slash :: "string \<Rightarrow> string" where
  "strip_slash s = (if s \<noteq> [] \<and> last s = CHR ''/'' then butlast s else s)"

definition in_namespace :: "string \<Rightarrow> string \<Rightarrow> string" where
  "in_namespace ns name = (if ns = [] then name else ns @ ''/'' @ name)"

definition node_new :: "node_options \<Rightarrow> node" where
  "node_new o' = (let ns = strip_slash (no_namespace o') in
     \<lparr>nd_name = no_node_name o', nd_namespace = ns, nd_full_name = in_namespace ns (no_node_name o'),
      nd_options = o', nd_discovery = (if no_discovery o' then Some (discovery_new (no_endpoint o')) else None),
      nd_transmitters = [], nd_receivers = [], nd_running = False\<rparr>)"

text \<open>Announcing a new endpoint; the timestamp keeps its default.\<close>

definition node_announce :: "string \<Rightarrow> string \<Rightarrow> bool \<Rightarrow> node \<Rightarrow> node" where
  "node_announce channel type is_tx n =
     (case nd_discovery n of
        None \<Rightarrow> n
      | Some d \<Rightarrow>
          if no_discovery (nd_options n)
          then n\<lparr>nd_discovery := Some (snd (snd (sd_register (service_default\<lparr>si_node_name := nd_name n,
                  si_channel_name := channel, si_type_name := type, si_is_transmitter := is_tx\<rparr>) d)))\<rparr>
          else n)"

definition create_transmitter :: "string \<Rightarrow> string \<Rightarrow> node \<Rightarrow> transmitter \<times> node" where
  "create_transmitter type name n =
     (let full = in_namespace (nd_namespace n) name in
      case um_find (nd_transmitters n) full of
        Some t \<Rightarrow> (t, n)
      | None \<Rightarrow>
          (let t = transmitter_new full (no_qos (nd_options n))
           in (t, node_announce full type True (n\<lparr>nd_transmitters := um_put full t (nd_transmitters n)\<rparr>))))"

definition create_receiver :: "string \<Rightarrow> string \<Rightarrow> node \<Rightarrow> receiver \<times> node" where
  "create_receiver type name n =
     (let full = in_namespace (nd_namespace n) name in
      case um_find (nd_receivers n) full of
        Some r \<Rightarrow> (r, n)
      | None \<Rightarrow>
          (let r = rx_set_callback True (receiver_new full (no_qos (nd_options n)))
           in (r, node_announce full type False (n\<lparr>nd_receivers := um_put full r (nd_receivers n)\<rparr>))))"

definition map_values :: "('v \<Rightarrow> 'v) \<Rightarrow> ('k, 'v) umap \<Rightarrow> ('k, 'v) umap" where
  "map_values f m = map (\<lambda>(k, v). (k, f v)) m"

text \<open>The socket results are passed on to the discovery; an exception of its \<open>Start\<close> goes through.\<close>

definition node_start :: "int \<Rightarrow> bool \<Rightarrow> bool \<Rightarrow> node \<Rightarrow> (conv_error + bool) \<times> node" where
  "node_start sock bind_ok join_ok n =
     (if nd_running n then (Inr False, n)
      else let n1 = n\<lparr>nd_running := True, nd_transmitters := map_values (\<lambda>t. snd (tx_init t)) (nd_transmitters n),
                 nd_receivers := map_values (\<lambda>r. snd (rx_init r)) (nd_receivers n)\<rparr>
        in case nd_discovery n1 of
             None \<Rightarrow> (Inr True, n1)
           | Some d \<Rightarrow>
               (case sd_start sock bind_ok join_ok d of
                  (Inl e, d') \<Rightarrow> (Inl e, n1\<lparr>nd_discovery := Some d'\<rparr>)
                | (Inr _, d') \<Rightarrow> (Inr True, n1\<lparr>nd_discovery := Some d'\<rparr>)))"

definition node_stop :: "node \<Rightarrow> bool \<times> node" where
  "node_stop n =
     (if \<not> nd_running n then (False, n)
      else (True, n\<lparr>nd_running := False, nd_discovery := map_option sd_stop (nd_discovery n),
        nd_receivers := map_values rx_shutdown (nd_receivers n),
        nd_transmitters := map_values tx_shutdown (nd_transmitters n)\<rparr>))"

text \<open>The destructor stops the node; receivers and transmitters that callers share with it live on as they are then.\<close>

definition node_destroy :: "node \<Rightarrow> node" where
  "node_destroy n = snd (node_stop n)"

definition node_on_service_found :: "bool \<Rightarrow> node \<Rightarrow> node" where
  "node_on_service_found callable n = n\<lparr>nd_discovery := map_option (sd_on_found callable) (nd_discovery n)\<rparr>"

definition node_on_service_lost :: "bool \<Rightarrow> node \<Rightarrow> node" where
  "node_on_service_lost callable n = n\<lparr>nd_discovery := map_option (sd_on_lost callable) (nd_discovery n)\<rparr>"

section \<open>Reachable nodes\<close>

inductive node_step :: "node \<Rightarrow> node \<Rightarrow> bool" where
  nd_create_tx: "node_step n (snd (create_transmitter type name n))"
| nd_create_rx: "node_step n (snd (create_receiver type name n))"
| nd_start: "node_step n (snd (node_start sock bind_ok join_ok n))"
| nd_stop: "node_step n (snd (node_stop n))"
| nd_found: "node_step n (node_on_service_found callable n)"
| nd_lost: "node_step n (node_on_service_lost callable n)"

lemma set_map_values: "set (map_values f m) = (\<lambda>(k, v). (k, f v)) ` set m"
  by (simp add: map_values_def)

lemma um_find_map_values: "um_find (map_values f m) k = map_option f (um_find m k)"
  by (induction m) (auto simp: map_values_def)

lemma announce_maps [simp]: "nd_receivers (node_announce c ty b n) = nd_receivers n"
  "nd_transmitters (node_announce c ty b n) = nd_transmitters n" "nd_running (node_announce c ty b n) = nd_running n"
  "nd_namespace (node_announce c ty b n) = nd_namespace n"
  by (simp_all add: node_announce_def split: option.split)

definition node_inv :: "node \<Rightarrow> bool" where
  "node_inv n \<longleftrightarrow> (\<forall>(c, r) \<in> set (nd_receivers n). \<not> rx_polling r \<and> rx_channel r = c) \<and>
     (\<forall>(c, t) \<in> set (nd_transmitters n). tx_channel t = c) \<and>
     (\<not> nd_running n \<longrightarrow> (\<forall>(c, t) \<in> set (nd_transmitters n). \<not> tx_initialized t) \<and>
        (\<forall>(c, r) \<in> set (nd_receivers n). \<not> rx_initialized r))"

lemma create_tx_inv: "node_inv n \<Longrightarrow> node_inv (snd (create_transmitter type name n))"
  by (auto simp: node_inv_def create_transmitter_def Let_def transmitter_new_def split: option.split
      dest!: subsetD [OF set_um_put_subset])

lemma create_rx_inv: "node_inv n \<Longrightarrow> node_inv (snd (create_receiver type name n))"
  by (auto simp: node_inv_def create_receiver_def Let_def receiver_new_def rx_set_callback_def split: option.split
      dest!: subsetD [OF set_um_put_subset])

lemma node_start_inv: "node_inv n \<Longrightarrow> node_inv (snd (node_start sock b j n))"
  by (auto simp: node_inv_def node_start_def Let_def set_map_values tx_init_def rx_init_def
      split: option.split prod.split sum.split)

lemma node_stop_inv: "node_inv n \<Longrightarrow> node_inv (snd (node_stop n))"
  by (auto simp: node_inv_def node_stop_def set_map_values tx_shutdown_def rx_shutdown_def split: if_splits)

lemma node_step_inv [model_inv]: "node_step n n' \<Longrightarrow> node_inv n \<Longrightarrow> node_inv n'"
proof (induction rule: node_step.induct)
  case (nd_found n)
  then show ?case by (simp add: node_inv_def node_on_service_found_def)
next
  case (nd_lost n)
  then show ?case by (simp add: node_inv_def node_on_service_lost_def)
qed (simp_all add: create_tx_inv create_rx_inv node_start_inv node_stop_inv)

interpretation ndm: safe_machine "\<lambda>n. n = node_new o'" node_step node_inv
  by unfold_locales (simp add: node_new_def node_inv_def Let_def, erule (1) node_step_inv [rotated])

text \<open>
  A receiver made through a node never polls: its callback is set before it is initialised,
  and only \<open>SetCallback\<close> on an initialised receiver starts the polling thread. So whatever is
  created, started and stopped, no callback given to \<open>CreateReceiver\<close> is ever called.
\<close>

theorem node_receivers_never_poll:
  assumes "node_step\<^sup>*\<^sup>* (node_new o') n" "um_find (nd_receivers n) c = Some r"
  shows "\<not> rx_polling r \<and> rx_channel r = c"
  using ndm.reach_inv [OF refl assms(1)] map_of_SomeD [OF assms(2)] by (auto simp: node_inv_def)

definition demo_options :: node_options where
  "demo_options = \<lparr>no_node_name = ''n'', no_namespace = ''/robot/'', no_qos = qos_default, no_discovery = False, no_endpoint = []\<rparr>"

definition demo_node :: node where
  "demo_node = snd (node_start 3 True True (snd (create_receiver ''T'' ''cam'' (node_new demo_options))))"

lemma demo_node_reach: "node_step\<^sup>*\<^sup>* (node_new demo_options) demo_node"
  unfolding demo_node_def
  by (rule converse_rtranclp_into_rtranclp, rule nd_create_rx, rule converse_rtranclp_into_rtranclp, rule nd_start)
    (rule rtranclp.rtrancl_refl)

lemma demo_node_receiver:
  "um_find (nd_receivers demo_node) ''/robot/cam'' = Some \<lparr>rx_channel = ''/robot/cam'', rx_qos = qos_default,
     rx_has_callback = True, rx_initialized = True, rx_polling = False\<rparr>"
  by (simp add: demo_node_def create_receiver_def node_new_def demo_options_def strip_slash_def in_namespace_def
      node_announce_def node_start_def receiver_new_def rx_set_callback_def rx_init_def map_values_def Let_def)

theorem node_receivers_never_poll_witness:
  "\<exists>r. um_find (nd_receivers demo_node) ''/robot/cam'' = Some r \<and> rx_initialized r \<and> rx_has_callback r \<and> \<not> rx_polling r"
  using node_receivers_never_poll [OF demo_node_reach demo_node_receiver] demo_node_receiver by simp



text \<open>
  A message longer than the buffer is reported with its full size although only 65536 bytes
  are copied, so a callback that trusts the size reads past the buffer.
\<close>

theorem poll_overreports:
  assumes "rx_initialized r" "latest (''/lwipc_'' @ rx_channel r) = Some data" "MAX_MSG_SIZE < length data"
  shows "\<exists>n copied. rx_poll latest r = Some (n, copied) \<and> MAX_MSG_SIZE < n \<and> length copied = MAX_MSG_SIZE"
  using assms by (simp add: rx_poll_def)

theorem poll_overreports_witness:
  "\<exists>n copied. rx_poll (\<lambda>_. Some (replicate 65537 0)) ((receiver_new ''c'' qos_default)\<lparr>rx_initialized := True\<rparr>) = Some (n, copied)
     \<and> MAX_MSG_SIZE < n \<and> length copied = MAX_MSG_SIZE"
proof (rule poll_overreports)
  have "length (replicate 65537 (0 :: byte)) = 65537" by (rule length_replicate)
  then show "MAX_MSG_SIZE < length (replicate 65537 (0 :: byte))" unfolding MAX_MSG_SIZE_def by linarith
qed simp_all

end
