(* ===== verification/ExamplePrograms.thy ===== *)
theory ExamplePrograms
  imports Broker NodeApi BagFormat
begin

text \<open>
  Two programs that put the parts together: \<open>examples/example_pubsub.cpp\<close>, a publishing thread and
  a subscriber on one broker, and \<open>examples/example_node_factory.cpp\<close>, two nodes that are to talk
  over a channel.
\<close>

section \<open>Publish and subscribe\<close>

text \<open>
  The message of the program: 16 bytes without gaps. How a \<open>float\<close> is stored is left to the
  functions \<open>fbits\<close> and \<open>fval\<close>; its values are the exact numbers.
\<close>

record sample =
  sp_timestamp :: u64
  sp_value :: rat
  sp_sensor_id :: u32

definition sample_bytes :: "(rat \<Rightarrow> bytes) \<Rightarrow> sample \<Rightarrow> bytes" where
  "sample_bytes fbits s = write_u64 (sp_timestamp s) @ fbits (sp_value s) @ write_u32 (sp_sensor_id s)"

text \<open>
  What the subscriber's \<open>reinterpret_cast\<close> reads: the first 16 bytes of the payload, whose length it
  does not look at; \<open>None\<close> is a read past the end.
\<close>

definition sample_of :: "(bytes \<Rightarrow> rat) \<Rightarrow> bytes \<Rightarrow> sample option" where
  "sample_of fval bs = (if length bs < 16 then None
     else Some \<lparr>sp_timestamp = of_nat (le_value (take 8 bs)), sp_value = fval (take 4 (drop 8 bs)),
       sp_sensor_id = of_nat (le_value (take 4 (drop 12 bs)))\<rparr>)"

text \<open>The subscriber prints the sample; \<open>'w\<close> is what has been printed.\<close>

definition print_sample ::
  "(bytes \<Rightarrow> rat) \<Rightarrow> unit \<Rightarrow> message_view \<Rightarrow> unit broker \<times> sample option list \<Rightarrow> unit option \<times> (unit broker \<times> sample option list)"
where
  "print_sample fval cb m s = (None, (fst s, snd s @ [sample_of fval (mv_payload m)]))"

definition nth_sample :: "(nat \<Rightarrow> u64) \<Rightarrow> nat \<Rightarrow> sample" where
  "nth_sample clock i = \<lparr>sp_timestamp = clock i, sp_value = of_nat i * (3 / 2), sp_sensor_id = 42\<rparr>"

definition nth_view :: "(nat \<Rightarrow> u64) \<Rightarrow> (rat \<Rightarrow> bytes) \<Rightarrow> nat \<Rightarrow> message_view" where
  "nth_view clock fbits i = \<lparr>mv_header = header_default\<lparr>mh_topic_id := 1, mh_sequence := of_nat i,
       mh_timestamp_ns := clock i * 1000, mh_payload_len := 16\<rparr>,
     mv_payload = sample_bytes fbits (nth_sample clock i)\<rparr>"

text \<open>The publishing thread from pass \<open>i\<close> with \<open>k\<close> to go; \<open>go i\<close> is \<open>running\<close> at the test.\<close>

fun publish_loop where
  "publish_loop call p go clock fbits i 0 s = (None, s)"
| "publish_loop call p go clock fbits i (Suc k) s =
     (if \<not> go i then (None, s)
      else case publisher_publish call p (nth_view clock fbits i) s of
          (Some e, s') \<Rightarrow> (Some e, s')
        | (None, s') \<Rightarrow> publish_loop call p go clock fbits (i + 1) k s')"

definition sensor_topic :: string where
  "sensor_topic = ''/sensor/data''"

definition pubsub_main where
  "pubsub_main go clock fbits fval =
     (let qos = qos_default\<lparr>qos_reliability := Reliable\<rparr>;
          p = \<lparr>pb_topic = sensor_topic, pb_qos = qos\<rparr>;
          (h, b) = subscriber_new sensor_topic qos () broker_new;
          (e, b', printed) = publish_loop (print_sample fval) p go clock fbits 0 10 (b, [])
      in (e, printed, subscriber_destroy h b'))"

text \<open>The storage of a \<open>float\<close>: four bytes that give back the value, for the ten values used.\<close>

definition stores_floats :: "(rat \<Rightarrow> bytes) \<Rightarrow> (bytes \<Rightarrow> rat) \<Rightarrow> bool" where
  "stores_floats fbits fval \<longleftrightarrow> (\<forall>i < 10. length (fbits (of_nat i * (3 / 2))) = 4 \<and> fval (fbits (of_nat i * (3 / 2))) = of_nat i * (3 / 2))"

lemma sample_trip:
  assumes "stores_floats fbits fval" "i < 10"
  shows "sample_of fval (sample_bytes fbits (nth_sample clock i)) = Some (nth_sample clock i)"
  using assms by (simp add: sample_of_def sample_bytes_def nth_sample_def stores_floats_def)

lemma publish_loop_prints:
  assumes "stores_floats fbits fval" "br_bucket b (pb_topic p) = [\<lparr>sub_id = n, sub_callback = ()\<rparr>]" "i + k \<le> 10"
  shows "publish_loop (print_sample fval) p go clock fbits i k (b, out) =
    (None, b, out @ map (\<lambda>j. Some (nth_sample clock j)) (takeWhile go [i..<i + k]))"
  using assms(3)
proof (induction k arbitrary: i out)
  case (Suc k)
  have subs: "um_find (br_subscriptions b) (pb_topic p) = Some [\<lparr>sub_id = n, sub_callback = ()\<rparr>]"
    using assms(2) by (auto simp: br_bucket_def split: option.splits)
  have "publisher_publish (print_sample fval) p (nth_view clock fbits i) (b, out)
      = (None, b, out @ [Some (nth_sample clock i)])"
    using sample_trip [OF assms(1), of i clock] Suc.prems
    by (simp add: publisher_publish_def br_publish_def subs print_sample_def nth_view_def)
  moreover have "[i..<i + Suc k] = i # [Suc i..<Suc i + k]" by (simp add: upt_conv_Cons)
  ultimately show ?case using Suc by simp
qed simp

text \<open>
  C35. The subscriber prints exactly the samples that were published, in order and with their
  values, up to the first pass that finds \<open>running\<close> cleared; nothing throws, and afterwards the
  broker holds no subscription.
\<close>

theorem pubsub_delivers:
  assumes "stores_floats fbits fval"
  shows "\<exists>b. pubsub_main go clock fbits fval = (None, map (\<lambda>i. Some (nth_sample clock i)) (takeWhile go [0..<10]), b) \<and>
    (\<forall>t. br_bucket b t = [])"
proof -
  let ?qos = "qos_default\<lparr>qos_reliability := Reliable\<rparr>"
  let ?b = "br_push sensor_topic \<lparr>sub_id = 1, sub_callback = ()\<rparr> (broker_new\<lparr>br_next_id := 2\<rparr>)"
  have new: "subscriber_new sensor_topic ?qos () broker_new = (\<lparr>sr_topic = sensor_topic, sr_qos = ?qos, sr_id = 1\<rparr>, ?b)"
    by (simp add: subscriber_new_def br_subscribe_def Let_def) (simp add: broker_new_def)
  have empty: "br_bucket broker_new t = []" for t by (simp add: br_bucket_def broker_new_def)
  have "br_bucket ?b sensor_topic = [\<lparr>sub_id = 1, sub_callback = ()\<rparr>]" by (simp add: br_bucket_push empty)
  then have "publish_loop (print_sample fval) \<lparr>pb_topic = sensor_topic, pb_qos = ?qos\<rparr> go clock fbits 0 10 (?b, []) =
      (None, ?b, map (\<lambda>i. Some (nth_sample clock i)) (takeWhile go [0..<10]))"
    using publish_loop_prints [OF assms, of ?b "\<lparr>pb_topic = sensor_topic, pb_qos = ?qos\<rparr>" 1 0 10 go clock "[]"] by simp
  moreover have "br_bucket (subscriber_destroy \<lparr>sr_topic = sensor_topic, sr_qos = ?qos, sr_id = 1\<rparr> ?b) t = []" for t
    by (simp add: subscriber_destroy_def br_bucket_unsubscribe br_bucket_push empty)
  ultimately show ?thesis by (simp add: pubsub_main_def new)
qed

text \<open>A storage of the ten values, twice the value in one byte, and a thread that is stopped after three passes.\<close>

definition demo_fbits :: "rat \<Rightarrow> bytes" where
  "demo_fbits v = [of_int \<lfloor>v * 2\<rfloor>, 0, 0, 0]"

definition demo_fval :: "bytes \<Rightarrow> rat" where
  "demo_fval bs = of_nat (unat (hd bs)) / 2"

lemma demo_stores: "stores_floats demo_fbits demo_fval"
proof -
  have "demo_fval (demo_fbits (of_nat i * (3 / 2))) = of_nat i * (3 / 2)" if "i < 10" for i
  proof -
    have "of_nat i * (3 / 2) * 2 = (of_nat (3 * i) :: rat)" by simp
    then have "demo_fbits (of_nat i * (3 / 2)) = [of_nat (3 * i), 0, 0, 0]"
      unfolding demo_fbits_def by (metis floor_of_nat of_int_of_nat_eq)
    moreover have "unat (of_nat (3 * i) :: byte) = 3 * i" by (rule unat_of_nat_small) (use that in simp)
    ultimately show ?thesis unfolding demo_fval_def by simp
  qed
  then show ?thesis by (simp add: stores_floats_def) (simp add: demo_fbits_def)
qed

theorem pubsub_delivers_witness:
  "fst (snd (pubsub_main (\<lambda>i. i < 3) of_nat demo_fbits demo_fval)) = map (\<lambda>i. Some (nth_sample of_nat i)) [0, 1, 2]"
  using pubsub_delivers [OF demo_stores, of "\<lambda>i. i < 3" of_nat] by (auto simp: upt_rec numeral_2_eq_2)

section \<open>Two nodes\<close>

text \<open>
  The datagrams that creating an endpoint sends; \<open>node_announce\<close> makes the same registration.
\<close>

definition create_datagrams :: "string \<Rightarrow> string \<Rightarrow> bool \<Rightarrow> node \<Rightarrow> string list" where
  "create_datagrams channel type is_tx n =
     (case nd_discovery n of
        None \<Rightarrow> []
      | Some d \<Rightarrow> if no_discovery (nd_options n)
          then fst (snd (sd_register (service_default\<lparr>si_node_name := nd_name n,
                  si_channel_name := channel, si_type_name := type, si_is_transmitter := is_tx\<rparr>) d))
          else [])"

definition factory_options :: "string \<Rightarrow> reliability \<Rightarrow> node_options" where
  "factory_options name rel = \<lparr>no_node_name = name, no_namespace = ''/sensors'',
     no_qos = qos_default\<lparr>qos_reliability := rel\<rparr>, no_discovery = True, no_endpoint = ''239.255.0.1:8888''\<rparr>"

record factory_run =
  fa_sent :: "bool list"
  fa_announced :: "string list"
  fa_services :: "service_info list"
  fa_receiver :: "receiver option"

text \<open>
  \<open>main\<close>, up to the two nodes stopping. \<open>write\<close> is whether the channel takes a message, \<open>pose i\<close> the
  memory of the message of pass \<open>i\<close>, \<open>type\<close> the name of its type; the sockets of both nodes work. The
  announcements sent by the publishing node before it is started, and the results of \<open>Send\<close>, are
  recorded. \<open>ReliabilityPolicy::RELIABLE\<close>, a name the library does not have, is taken for \<open>Reliable\<close>.
\<close>

definition factory_main :: "(string \<Rightarrow> byte list \<Rightarrow> bool) \<Rightarrow> (nat \<Rightarrow> byte list) \<Rightarrow> string \<Rightarrow> factory_run" where
  "factory_main write pose type =
     (let pub0 = node_new (factory_options ''pose_publisher'' Reliable);
          sub0 = node_on_service_found True (node_new (factory_options ''pose_subscriber'' BestEffort));
          (tx, pub1) = create_transmitter type ''pose'' pub0;
          (rx, sub1) = create_receiver type ''pose'' sub0;
          (ok1, pub2) = node_start 3 True True pub1;
          (ok2, sub2) = node_start 4 True True sub1
      in \<lparr>fa_sent = map (\<lambda>i. case um_find (nd_transmitters pub2) (tx_channel tx) of
              None \<Rightarrow> False | Some t \<Rightarrow> tx_send write pose i t) [0..<10],
          fa_announced = create_datagrams (tx_channel tx) type True pub0 @ create_datagrams (rx_channel rx) type False sub0,
          fa_services = (case nd_discovery sub2 of None \<Rightarrow> [] | Some d \<Rightarrow> sd_get_all d),
          fa_receiver = um_find (nd_receivers sub2) (rx_channel rx)\<rparr>)"

text \<open>
  The program cannot do what it is for. Every message is handed to the channel, but the
  subscriber's receiver never polls, although it has a callback and is initialised; no endpoint
  is ever announced, because announcements are sent for running nodes only and both endpoints
  are created before; so the subscriber finds only its own receiver.
\<close>

theorem factory_silent:
  "fa_sent (factory_main write pose type) = map (\<lambda>i. write ''/lwipc_/sensors/pose'' (pose i)) [0..<10] \<and>
   fa_announced (factory_main write pose type) = [] \<and>
   map si_node_name (fa_services (factory_main write pose type)) = [''pose_subscriber''] \<and>
   (\<exists>r. fa_receiver (factory_main write pose type) = Some r \<and> rx_has_callback r \<and> rx_initialized r \<and> \<not> rx_polling r)"
proof -
  have port: "snd (split_endpoint ''239.255.0.1:8888'') = Inr 8888"
    by (simp add: split_endpoint_def parse_int_def is_space_def is_digit_def digits_value_def Let_def)
  let ?pub = "node_new (factory_options ''pose_publisher'' Reliable)"
  let ?sub = "node_on_service_found True (node_new (factory_options ''pose_subscriber'' BestEffort))"
  note defs = node_new_def factory_options_def strip_slash_def in_namespace_def discovery_new_def Let_def
    node_on_service_found_def sd_on_found_def
  have pub: "nd_discovery ?pub = Some (discovery_new ''239.255.0.1:8888'')" "no_discovery (nd_options ?pub)"
    and sub: "nd_discovery ?sub = Some (sd_on_found True (discovery_new ''239.255.0.1:8888''))" "no_discovery (nd_options ?sub)"
    by (simp_all add: defs)
  have silent: "create_datagrams c type b ?pub = []" "create_datagrams c type b ?sub = []" for c b
    by (simp_all add: create_datagrams_def pub sub sd_register_def) (simp_all add: discovery_new_def sd_on_found_def)
  show ?thesis
    by (simp add: factory_main_def create_transmitter_def create_receiver_def silent)
      (simp add: defs node_announce_def node_start_def sd_start_def port sd_register_def sd_push_def sd_bucket_def
        map_values_def tx_init_def rx_init_def transmitter_new_def receiver_new_def rx_set_callback_def tx_send_def tx_send_raw_def
        sd_get_all_def)
qed

end
