(* ===== verification/Executor.thy ===== *)
theory Executor
  imports Interfaces
begin

text \<open>
  \<open>include/lwipc/executor.hpp\<close> and \<open>src/executor.cpp\<close>: one worker thread that runs posted
  tasks. The critical sections under \<open>mutex_\<close> are single steps; the notifications after them
  are steps of their own, so that a notification can arrive late, and the worker's wait can
  wake up without reason. \<open>ex_accepted\<close> and \<open>ex_done\<close> record the history and are not state of
  the program.
\<close>

section \<open>State and steps\<close>

text \<open>
  The worker holds the lock and is about to test the wait predicate, sleeps in \<open>cv_.wait\<close>,
  runs a task, or has left \<open>run()\<close>.
\<close>

datatype 't worker = WTest | WSleep | WRun 't | WDone

text \<open>The thread that called \<open>stop()\<close>: about to notify, in \<open>join()\<close>, or returned.\<close>

datatype stopper = SNone | SNotify | SJoin | SReturned

record 't executor =
  ex_tasks :: "'t list"
  ex_stopping :: bool
  ex_worker :: "'t worker"
  ex_stop :: stopper
  ex_notes :: nat
  ex_accepted :: "'t list"
  ex_done :: "'t list"

definition executor_new :: "'t executor" where
  "executor_new = \<lparr>ex_tasks = [], ex_stopping = False, ex_worker = WTest, ex_stop = SNone, ex_notes = 0,
     ex_accepted = [], ex_done = []\<rparr>"

text \<open>The locked part of \<open>post\<close>: a task posted after \<open>stop()\<close> is dropped silently.\<close>

definition ex_post :: "'t \<Rightarrow> 't executor \<Rightarrow> 't executor" where
  "ex_post t s = (if ex_stopping s then s
     else s\<lparr>ex_tasks := ex_tasks s @ [t], ex_notes := ex_notes s + 1, ex_accepted := ex_accepted s @ [t]\<rparr>)"

text \<open>A notification wakes the worker if it sleeps.\<close>

definition ex_wake :: "'t executor \<Rightarrow> 't executor" where
  "ex_wake s = (case ex_worker s of WSleep \<Rightarrow> s\<lparr>ex_worker := WTest\<rparr> | _ \<Rightarrow> s)"

text \<open>The locked part of \<open>stop\<close>: a second call returns at once.\<close>

definition ex_request_stop :: "'t executor \<Rightarrow> 't executor" where
  "ex_request_stop s = (if ex_stopping s then s else s\<lparr>ex_stopping := True, ex_stop := SNotify\<rparr>)"

definition ex_destroy :: "'t executor \<Rightarrow> 't executor" where
  "ex_destroy s = ex_request_stop s"

text \<open>
  \<open>stop()\<close> called by the task that is running: a second call returns, but the first one joins the
  worker with itself, which throws; nothing catches that, and the program ends. \<open>None\<close> is this
  end. In the steps below \<open>stop()\<close> is called by other threads only.
\<close>

definition ex_stop_in_task :: "'t executor \<Rightarrow> 't executor option" where
  "ex_stop_in_task s = (if ex_stopping s then Some s else None)"

text \<open>One pass of the worker under the lock: sleep, leave, or take the oldest task.\<close>

definition ex_test :: "'t executor \<Rightarrow> 't executor" where
  "ex_test s = (if \<not> (ex_stopping s \<or> ex_tasks s \<noteq> []) then s\<lparr>ex_worker := WSleep\<rparr>
     else if ex_stopping s \<and> ex_tasks s = [] then s\<lparr>ex_worker := WDone\<rparr>
     else s\<lparr>ex_worker := WRun (hd (ex_tasks s)), ex_tasks := tl (ex_tasks s)\<rparr>)"

text \<open>Steps that the executor owes its callers: they happen sooner or later.\<close>

inductive ex_progress :: "'t executor \<Rightarrow> 't executor \<Rightarrow> bool" where
  ex_notify: "0 < ex_notes s \<Longrightarrow> ex_progress s (ex_wake (s\<lparr>ex_notes := ex_notes s - 1\<rparr>))"
| ex_worker_test: "ex_worker s = WTest \<Longrightarrow> ex_progress s (ex_test s)"
| ex_finish: "ex_worker s = WRun t \<Longrightarrow> ex_progress s (s\<lparr>ex_worker := WTest, ex_done := ex_done s @ [t]\<rparr>)"
| ex_notify_all: "ex_stop s = SNotify \<Longrightarrow> ex_progress s (ex_wake (s\<lparr>ex_stop := SJoin\<rparr>))"
| ex_joined: "ex_stop s = SJoin \<Longrightarrow> ex_worker s = WDone \<Longrightarrow> ex_progress s (s\<lparr>ex_stop := SReturned\<rparr>)"

text \<open>All steps: those, the calls of other threads, posts by the running task, spurious wake-ups.\<close>

inductive ex_step :: "'t executor \<Rightarrow> 't executor \<Rightarrow> bool" where
  ex_own: "ex_progress s s' \<Longrightarrow> ex_step s s'"
| ex_call_post: "ex_step s (ex_post t s)"
| ex_call_stop: "ex_step s (ex_request_stop s)"
| ex_spurious: "ex_worker s = WSleep \<Longrightarrow> ex_step s (s\<lparr>ex_worker := WTest\<rparr>)"

inductive_cases ex_progressE: "ex_progress s s'"

section \<open>Invariant\<close>

definition running :: "'t executor \<Rightarrow> 't list" where
  "running s = (case ex_worker s of WRun t \<Rightarrow> [t] | _ \<Rightarrow> [])"

definition ex_inv :: "'t executor \<Rightarrow> bool" where
  "ex_inv s \<longleftrightarrow>
     ex_accepted s = ex_done s @ running s @ ex_tasks s \<and>
     (ex_stopping s \<longleftrightarrow> ex_stop s \<noteq> SNone) \<and>
     (ex_worker s = WSleep \<longrightarrow> ex_tasks s \<noteq> [] \<longrightarrow> 0 < ex_notes s \<or> ex_stop s = SNotify) \<and>
     (ex_worker s = WSleep \<longrightarrow> ex_stopping s \<longrightarrow> 0 < ex_notes s \<or> ex_stop s = SNotify) \<and>
     (ex_worker s = WDone \<longrightarrow> ex_stopping s \<and> ex_tasks s = []) \<and>
     (ex_stop s = SReturned \<longrightarrow> ex_worker s = WDone)"

lemma ex_wake_inv:
  assumes "ex_accepted s = ex_done s @ running s @ ex_tasks s" "ex_stopping s \<longleftrightarrow> ex_stop s \<noteq> SNone"
    and "ex_worker s = WDone \<longrightarrow> ex_stopping s \<and> ex_tasks s = []" "ex_stop s = SReturned \<longrightarrow> ex_worker s = WDone"
  shows "ex_inv (ex_wake s)"
  using assms by (cases "ex_worker s") (simp_all add: ex_inv_def ex_wake_def running_def)

lemma ex_test_inv: "ex_inv s \<Longrightarrow> ex_worker s = WTest \<Longrightarrow> ex_inv (ex_test s)"
  by (cases "ex_tasks s"; cases "ex_stopping s"; cases "ex_stop s") (simp_all add: ex_inv_def ex_test_def running_def)

lemma ex_post_inv: "ex_inv s \<Longrightarrow> ex_inv (ex_post t s)"
  by (cases "ex_stopping s"; cases "ex_worker s") (simp_all add: ex_inv_def ex_post_def running_def)

lemma ex_request_stop_inv: "ex_inv s \<Longrightarrow> ex_inv (ex_request_stop s)"
  by (cases "ex_stopping s"; cases "ex_worker s") (simp_all add: ex_inv_def ex_request_stop_def running_def)

lemma ex_progress_inv: "ex_progress s t \<Longrightarrow> ex_inv s \<Longrightarrow> ex_inv t"
proof (induction rule: ex_progress.induct)
  case (ex_notify s)
  then show ?case by (intro ex_wake_inv) (auto simp: ex_inv_def running_def)
next
  case (ex_worker_test s)
  then show ?case by (simp add: ex_test_inv)
next
  case (ex_finish s t)
  then show ?case by (cases "ex_stop s") (simp_all add: ex_inv_def running_def)
next
  case (ex_notify_all s)
  then show ?case by (intro ex_wake_inv) (simp_all add: ex_inv_def running_def)
next
  case (ex_joined s)
  then show ?case by (simp add: ex_inv_def running_def)
qed

lemma ex_spurious_inv: "ex_inv s \<Longrightarrow> ex_worker s = WSleep \<Longrightarrow> ex_inv (s\<lparr>ex_worker := WTest\<rparr>)"
  by (simp add: ex_inv_def running_def)

lemma ex_step_inv [model_inv]: "ex_step s t \<Longrightarrow> ex_inv s \<Longrightarrow> ex_inv t"
  by (erule ex_step.cases)
    (blast intro: ex_progress_inv ex_post_inv ex_request_stop_inv ex_spurious_inv)+

interpretation exm: safe_machine "\<lambda>s. s = executor_new" ex_step ex_inv
  by unfold_locales (simp add: ex_inv_def executor_new_def running_def, erule (1) ex_step_inv [rotated])

section \<open>Progress\<close>

definition ex_measure :: "'t executor \<Rightarrow> nat" where
  "ex_measure s = 3 * length (ex_tasks s) + 2 * ex_notes s
     + (case ex_worker s of WTest \<Rightarrow> 1 | WRun _ \<Rightarrow> 2 | _ \<Rightarrow> 0)
     + (case ex_stop s of SNotify \<Rightarrow> 3 | SJoin \<Rightarrow> 1 | _ \<Rightarrow> 0)"

lemma ex_progress_decreases:
  assumes "ex_progress s t" "ex_stopping s"
  shows "ex_measure t < ex_measure s \<and> ex_stopping t"
  using assms
proof (induction rule: ex_progress.induct)
  case (ex_worker_test s)
  then show ?case by (cases "ex_tasks s") (simp_all add: ex_measure_def ex_test_def)
qed (auto simp: ex_measure_def ex_wake_def split: worker.splits)

interpretation exb: bounded_machine ex_progress "\<lambda>s. ex_inv s \<and> ex_stopping s" ex_measure
  by unfold_locales (auto dest: ex_progress_inv ex_progress_decreases)

lemma ex_stuck:
  assumes "ex_inv s" "ex_stopping s" "\<nexists>t. ex_progress s t"
  shows "ex_stop s = SReturned"
proof (rule ccontr)
  assume nr: "ex_stop s \<noteq> SReturned"
  from assms(3) have "ex_notes s = 0" "ex_worker s \<noteq> WTest" "\<And>t. ex_worker s \<noteq> WRun t" "ex_stop s \<noteq> SNotify"
    "\<not> (ex_stop s = SJoin \<and> ex_worker s = WDone)"
    by (auto intro: ex_progress.intros)
  with assms(1,2) nr show False
    by (cases "ex_worker s"; cases "ex_stop s") (auto simp: ex_inv_def)
qed

lemma ex_returned_done:
  "ex_inv s \<Longrightarrow> ex_stop s = SReturned \<Longrightarrow> ex_done s = ex_accepted s"
  by (auto simp: ex_inv_def running_def)

text \<open>
  C39. Tasks are run in the order they were accepted, each at most once, and the worker
  never sleeps on work: in every reachable state what was accepted is what has run, the task
  running now and the queue, in this order, and a sleeping worker with a non-empty queue has a
  notification on its way.
\<close>

theorem executor_fifo:
  assumes "ex_step\<^sup>*\<^sup>* executor_new s"
  shows "ex_accepted s = ex_done s @ running s @ ex_tasks s \<and>
    \<not> (ex_worker s = WSleep \<and> ex_tasks s \<noteq> [] \<and> ex_notes s = 0 \<and> ex_stop s \<noteq> SNotify)"
  using exm.reach_inv [OF refl assms] by (auto simp: ex_inv_def)

text \<open>
  C12. \<open>stop()\<close> returns, and has drained the queue: from any reachable state in which it has
  been requested, every sequence of the executor's own steps is bounded by \<open>ex_measure\<close>, and
  where no further step is possible \<open>stop()\<close> has returned and every accepted task has run.
\<close>

theorem executor_stop_drains:
  assumes "ex_step\<^sup>*\<^sup>* executor_new s" "ex_stopping s" "(ex_progress ^^ n) s t"
  shows "n + ex_measure t \<le> ex_measure s \<and>
    ((\<nexists>u. ex_progress t u) \<longrightarrow> ex_stop t = SReturned \<and> ex_done t = ex_accepted t)"
  using exb.run_bound [OF assms(3)] exm.reach_inv [OF refl assms(1)] assms(2) ex_stuck [of t] ex_returned_done [of t]
  by blast

section \<open>A run\<close>

definition ex_demo :: "bool \<Rightarrow> nat worker \<Rightarrow> stopper \<Rightarrow> nat \<Rightarrow> nat list \<Rightarrow> nat list \<Rightarrow> nat executor" where
  "ex_demo stopping w st notes tasks dn =
     \<lparr>ex_tasks = tasks, ex_stopping = stopping, ex_worker = w, ex_stop = st, ex_notes = notes,
      ex_accepted = [7], ex_done = dn\<rparr>"

lemma ex_demo_reach: "ex_step\<^sup>*\<^sup>* executor_new (ex_demo True WTest SNotify 1 [7] [])"
  apply (rule converse_rtranclp_into_rtranclp, rule ex_call_post [where t = 7])
  apply (rule converse_rtranclp_into_rtranclp, rule ex_call_stop)
  apply (rule rtranclp_refl_eq)
  apply (simp add: ex_post_def ex_request_stop_def executor_new_def ex_demo_def)
  done

lemma ex_demo_steps:
  "ex_progress (ex_demo True WTest SNotify 1 [7] []) (ex_demo True (WRun 7) SNotify 1 [] [])"
  "ex_progress (ex_demo True (WRun 7) SNotify 1 [] []) (ex_demo True WTest SNotify 1 [] [7])"
  "ex_progress (ex_demo True WTest SNotify 1 [] [7]) (ex_demo True WDone SNotify 1 [] [7])"
  "ex_progress (ex_demo True WDone SNotify 1 [] [7]) (ex_demo True WDone SNotify 0 [] [7])"
  "ex_progress (ex_demo True WDone SNotify 0 [] [7]) (ex_demo True WDone SJoin 0 [] [7])"
  "ex_progress (ex_demo True WDone SJoin 0 [] [7]) (ex_demo True WDone SReturned 0 [] [7])"
  using ex_worker_test [of "ex_demo True WTest SNotify 1 [7] []"]
    ex_finish [of "ex_demo True (WRun 7) SNotify 1 [] []" 7]
    ex_worker_test [of "ex_demo True WTest SNotify 1 [] [7]"]
    ex_notify [of "ex_demo True WDone SNotify 1 [] [7]"]
    ex_notify_all [of "ex_demo True WDone SNotify 0 [] [7]"]
    ex_joined [of "ex_demo True WDone SJoin 0 [] [7]"]
  by (simp_all add: ex_demo_def ex_test_def ex_wake_def)

lemma ex_demo_run: "(ex_progress ^^ 6) (ex_demo True WTest SNotify 1 [7] []) (ex_demo True WDone SReturned 0 [] [7])"
  using ex_demo_steps by (auto simp: numeral_eq_Suc intro!: relcomppI)

theorem executor_fifo_witness:
  "let s = ex_demo True WTest SNotify 1 [7] [] in ex_accepted s = ex_done s @ running s @ ex_tasks s"
  using executor_fifo [OF ex_demo_reach] by (simp add: Let_def)

theorem executor_stop_drains_witness:
  "\<exists>t. (ex_progress ^^ 6) (ex_demo True WTest SNotify 1 [7] []) t \<and> ex_stop t = SReturned \<and> ex_done t = [7]"
proof -
  have stopped: "ex_stopping (ex_demo True WTest SNotify 1 [7] [])" by (simp add: ex_demo_def)
  have "\<nexists>u. ex_progress (ex_demo True WDone SReturned 0 [] [7]) u"
    by (auto simp: ex_demo_def elim: ex_progressE)
  with executor_stop_drains [OF ex_demo_reach stopped ex_demo_run] ex_demo_run show ?thesis
    by (intro exI [of _ "ex_demo True WDone SReturned 0 [] [7]"]) (simp add: ex_demo_def)
qed

end
