(* ===== verification/Heartbeat.thy ===== *)
theory Heartbeat
  imports Prelude
begin

text \<open>
  \<open>include/lwipc/heartbeat.hpp\<close> and \<open>src/heartbeat.cpp\<close>: the time each peer was last seen, and
  the peers not seen within a timeout. Time points are nanoseconds of the steady clock as
  integers; the timeout is in milliseconds and the comparison is made in nanoseconds.
\<close>

type_synonym time_ns = int

type_synonym heartbeat = "(string, time_ns) umap"

definition register_peer :: "string \<Rightarrow> time_ns \<Rightarrow> heartbeat \<Rightarrow> heartbeat" where
  "register_peer peer now seen = um_put peer now seen"

definition beat :: "string \<Rightarrow> time_ns \<Rightarrow> heartbeat \<Rightarrow> heartbeat" where
  "beat peer now seen = um_put peer now seen"

definition expired :: "time_ns \<Rightarrow> int \<Rightarrow> heartbeat \<Rightarrow> string list" where
  "expired now timeout_ms seen = map fst (filter (\<lambda>(peer, ts). now - ts > timeout_ms * 10 ^ 6) seen)"

datatype heartbeat_call = Register string time_ns | Beat string time_ns

fun hb_apply :: "heartbeat_call \<Rightarrow> heartbeat \<Rightarrow> heartbeat" where
  "hb_apply (Register peer now) = register_peer peer now"
| "hb_apply (Beat peer now) = beat peer now"

text \<open>The time given in the last call for a peer.\<close>

fun last_call :: "string \<Rightarrow> heartbeat_call list \<Rightarrow> time_ns option" where
  "last_call p [] = None"
| "last_call p (c # cs) =
     (case last_call p cs of
        Some ts \<Rightarrow> Some ts
      | None \<Rightarrow> (case c of Register q now \<Rightarrow> if q = p then Some now else None
                        | Beat q now \<Rightarrow> if q = p then Some now else None))"

lemma umap_ok_hb: "umap_ok seen \<Longrightarrow> umap_ok (fold hb_apply cs seen)"
proof (induction cs arbitrary: seen)
  case (Cons c cs)
  then show ?case by (cases c) (simp_all add: register_peer_def beat_def)
qed simp

lemma um_find_hb:
  "um_find (fold hb_apply cs seen) p = (case last_call p cs of None \<Rightarrow> um_find seen p | Some ts \<Rightarrow> Some ts)"
proof (induction cs arbitrary: seen)
  case (Cons c cs)
  then show ?case by (cases c) (auto simp: register_peer_def beat_def split: option.split)
qed simp

lemma expired_iff:
  assumes "umap_ok seen"
  shows "p \<in> set (expired now tmo seen) \<longleftrightarrow> (\<exists>ts. um_find seen p = Some ts \<and> now - ts > tmo * 10 ^ 6)"
  using assms by (force simp: expired_def um_find_in_set)

text \<open>
  After any history of registrations and beats, \<open>expired\<close> lists exactly the peers whose
  last call is older than the timeout, each once.
\<close>

theorem heartbeat_expired_exact:
  "distinct (expired now tmo (fold hb_apply cs [])) \<and>
   set (expired now tmo (fold hb_apply cs [])) =
     {p. case last_call p cs of None \<Rightarrow> False | Some ts \<Rightarrow> ts + tmo * 10 ^ 6 < now}"
proof
  let ?seen = "fold hb_apply cs []"
  have ok: "umap_ok ?seen" by (rule umap_ok_hb) simp
  then show "distinct (expired now tmo ?seen)"
    by (simp add: expired_def distinct_map_filter)
  show "set (expired now tmo ?seen) = {p. case last_call p cs of None \<Rightarrow> False | Some ts \<Rightarrow> ts + tmo * 10 ^ 6 < now}"
    by (auto simp: expired_iff [OF ok] um_find_hb split: option.splits)
qed

end
