(* ===== verification/MemoryPool.thy ===== *)
theory MemoryPool
  imports Interfaces
begin

text \<open>
  \<open>src/memory_pool.cpp\<close>: a pool of \<open>slot_count\<close> equal slots carved out of one allocation,
  with a LIFO free list. Sizes are 64-bit words and slot ids 32-bit words, so the
  constructor's unchecked product and its 32-bit loop counter wrap as they do in the code. A
  pointer into \<open>storage_\<close> is its byte offset; the bytes themselves play no part.
\<close>

section \<open>Model\<close>

datatype pool_error = Invalid_argument | Out_of_range

record pool_buffer =
  pb_slot_id :: u32
  pb_data :: size_t
  pb_capacity :: size_t

record pool =
  mp_slot_size :: size_t
  mp_slot_count :: size_t
  mp_storage_size :: size_t
  mp_free_list :: "u32 list"

text \<open>
  The loop that fills the free list. Its counter is 32 bits wide while the bound is 64 bits
  wide, so it does not end when the bound is \<open>2 ^ 32\<close> or more: then the value is \<open>None\<close>.
\<close>

partial_function (option) mp_fill :: "size_t \<Rightarrow> u32 \<Rightarrow> u32 list \<Rightarrow> u32 list option" where
  "mp_fill n i acc =
     (if ucast i < n then mp_fill n (i + 1) (acc @ [ucast (n - 1 - ucast i)]) else Some acc)"

text \<open>The member initialisers run before the check in the constructor's body.\<close>

definition mp_new :: "size_t \<Rightarrow> size_t \<Rightarrow> (pool_error + pool) option" where
  "mp_new slot_size slot_count =
     (let storage = slot_size * slot_count
      in if slot_size = 0 \<or> slot_count = 0 then Some (Inl Invalid_argument)
         else map_option (\<lambda>fl. Inr \<lparr>mp_slot_size = slot_size, mp_slot_count = slot_count,
                mp_storage_size = storage, mp_free_list = fl\<rparr>) (mp_fill slot_count 0 []))"

definition mp_acquire :: "pool \<Rightarrow> pool_buffer option \<times> pool" where
  "mp_acquire p =
     (if mp_free_list p = [] then (None, p)
      else let slot_id = last (mp_free_list p)
           in (Some \<lparr>pb_slot_id = slot_id, pb_data = ucast slot_id * mp_slot_size p,
                     pb_capacity = mp_slot_size p\<rparr>,
               p\<lparr>mp_free_list := butlast (mp_free_list p)\<rparr>))"

definition mp_release :: "u32 \<Rightarrow> pool \<Rightarrow> pool_error + pool" where
  "mp_release slot_id p =
     (if ucast slot_id \<ge> mp_slot_count p then Inl Out_of_range
      else Inr (p\<lparr>mp_free_list := mp_free_list p @ [slot_id]\<rparr>))"

definition mp_free_slots :: "pool \<Rightarrow> size_t" where
  "mp_free_slots p = of_nat (length (mp_free_list p))"

section \<open>Construction\<close>

text \<open>The slots of a pool, as ids.\<close>

definition slots_of :: "size_t \<Rightarrow> u32 set" where
  "slots_of n = {i. (ucast i :: size_t) < n}"

lemma mp_fill_from:
  assumes "unat n < 2 ^ 32" "k \<le> unat n"
  shows "mp_fill n (of_nat k) acc = Some (acc @ map of_nat (rev [0..<unat n - k]))"
  using assms(2)
proof (induction "unat n - k" arbitrary: k acc)
  case 0
  then have "k = unat n" by simp
  then have "unat (of_nat k :: u32) = unat n" using assms(1) by (subst unat_of_nat_small) auto
  then have "\<not> (ucast (of_nat k :: u32) :: size_t) < n" by (simp only: word_less_nat_alt unat_ucast_up)
  with \<open>k = unat n\<close> show ?case by (simp add: mp_fill.simps)
next
  case (Suc d)
  then have k: "k < unat n" by simp
  let ?i = "of_nat k :: u32"
  have ui: "unat ?i = k" using k assms(1) by (simp add: unat_of_nat_small)
  have lt: "(ucast ?i :: size_t) < n"
    using k ui by (simp add: word_less_nat_alt)
  have "unat (n - 1 - ucast ?i) = unat n - 1 - k"
  proof -
    have "1 \<le> n" using k by (simp add: word_le_nat_alt)
    moreover have "(ucast ?i :: size_t) \<le> n - 1"
      using k ui \<open>1 \<le> n\<close> by (simp add: word_le_nat_alt unat_sub)
    ultimately show ?thesis using ui by (simp add: unat_sub)
  qed
  then have e: "(ucast (n - 1 - ucast ?i) :: u32) = of_nat (unat n - 1 - k)"
    by (metis of_nat_unat)
  have "rev [0..<unat n - k] = (unat n - 1 - k) # rev [0..<unat n - Suc k]"
  proof -
    have "unat n - k = Suc (unat n - Suc k)" using k by simp
    then show ?thesis by simp
  qed
  moreover have "mp_fill n (of_nat (Suc k)) (acc @ [of_nat (unat n - 1 - k)])
      = Some ((acc @ [of_nat (unat n - 1 - k)]) @ map of_nat (rev [0..<unat n - Suc k]))"
    using Suc(2) k by (intro Suc(1)) auto
  ultimately show ?case using lt e by (subst mp_fill.simps) (simp add: add.commute)
qed

lemma mp_new_ok:
  assumes "slot_size \<noteq> 0" "slot_count \<noteq> 0" "unat slot_count < 2 ^ 32"
  shows "mp_new slot_size slot_count = Some (Inr
    \<lparr>mp_slot_size = slot_size, mp_slot_count = slot_count,
     mp_storage_size = slot_size * slot_count,
     mp_free_list = map of_nat (rev [0..<unat slot_count])\<rparr>)"
  using mp_fill_from [OF assms(3), of 0 "[]"] assms(1,2) by (simp add: mp_new_def Let_def)

lemma mp_new_two:
  assumes "slot_size \<noteq> 0"
  shows "mp_new slot_size 2 = Some (Inr \<lparr>mp_slot_size = slot_size, mp_slot_count = 2,
     mp_storage_size = slot_size * 2, mp_free_list = [1, 0]\<rparr>)"
proof -
  have "rev [0..<2] = [1, 0]" by (simp add: numeral_2_eq_2)
  with assms show ?thesis by (simp add: mp_new_ok)
qed

lemma slots_of_nat:
  assumes "unat n < 2 ^ 32"
  shows "slots_of n = of_nat ` {0..<unat n}"
proof -
  have "(i::u32) \<in> of_nat ` {0..<unat n}" if "(ucast i :: size_t) < n" for i
  proof
    show "i = of_nat (unat i)" by simp
    show "unat i \<in> {0..<unat n}" using that by (simp add: word_less_nat_alt)
  qed
  moreover have "(ucast (of_nat k :: u32) :: size_t) < n" if "k < unat n" for k
    using that assms by (simp add: word_less_nat_alt unat_of_nat_small)
  ultimately show ?thesis by (auto simp: slots_of_def)
qed

section \<open>Ownership of slots\<close>

text \<open>
  A client that gives back only slots it holds. The machine pairs the pool with the set of
  slots handed out.
\<close>

inductive pool_step :: "pool \<times> u32 set \<Rightarrow> pool \<times> u32 set \<Rightarrow> bool" where
  take: "mp_acquire p = (Some b, p') \<Longrightarrow> pool_step (p, H) (p', insert (pb_slot_id b) H)"
| give: "i \<in> H \<Longrightarrow> mp_release i p = Inr p' \<Longrightarrow> pool_step (p, H) (p', H - {i})"

definition pool_start :: "pool \<times> u32 set \<Rightarrow> bool" where
  "pool_start s \<longleftrightarrow> snd s = {} \<and> unat (mp_slot_count (fst s)) < 2 ^ 32 \<and>
     mp_new (mp_slot_size (fst s)) (mp_slot_count (fst s)) = Some (Inr (fst s))"

definition pool_inv :: "pool \<times> u32 set \<Rightarrow> bool" where
  "pool_inv s \<longleftrightarrow> (case s of (p, H) \<Rightarrow>
     distinct (mp_free_list p) \<and> set (mp_free_list p) \<inter> H = {} \<and>
     set (mp_free_list p) \<union> H = slots_of (mp_slot_count p) \<and>
     unat (mp_slot_count p) < 2 ^ 32 \<and>
     mp_storage_size p = mp_slot_size p * mp_slot_count p)"

lemma pool_start_inv: "pool_start s \<Longrightarrow> pool_inv s"
proof -
  assume s: "pool_start s"
  obtain p H where ps: "s = (p, H)" by fastforce
  from s ps have n: "unat (mp_slot_count p) < 2 ^ 32" and H: "H = {}"
    and new: "mp_new (mp_slot_size p) (mp_slot_count p) = Some (Inr p)"
    by (auto simp: pool_start_def)
  from new have nz: "mp_slot_size p \<noteq> 0" "mp_slot_count p \<noteq> 0"
    by (auto simp: mp_new_def Let_def split: if_splits)
  from mp_new_ok [OF nz n] new
  have fl: "mp_free_list p = map of_nat (rev [0..<unat (mp_slot_count p)])"
    and st: "mp_storage_size p = mp_slot_size p * mp_slot_count p"
    by (metis old.sum.inject(2) option.inject pool.select_convs(3,4))+
  have "inj_on (of_nat :: nat \<Rightarrow> u32) {0..<unat (mp_slot_count p)}"
    using n by (intro inj_onI of_nat_word_inj) auto
  then have "distinct (mp_free_list p)" by (simp add: fl distinct_map)
  with fl st n H ps slots_of_nat [OF n] show ?thesis by (simp add: pool_inv_def)
qed

lemma pool_step_inv [model_inv]: "pool_inv s \<Longrightarrow> pool_step s t \<Longrightarrow> pool_inv t"
proof (erule pool_step.cases)
  fix p b p' H assume inv: "pool_inv s" and s: "s = (p, H)" and t: "t = (p', insert (pb_slot_id b) H)"
    and acq: "mp_acquire p = (Some b, p')"
  from acq obtain fs i where fl: "mp_free_list p = fs @ [i]"
    by (cases "mp_free_list p" rule: rev_cases) (auto simp: mp_acquire_def)
  with acq have "pb_slot_id b = i" "p' = p\<lparr>mp_free_list := fs\<rparr>"
    by (auto simp: mp_acquire_def Let_def)
  with inv s t fl show ?thesis by (auto simp: pool_inv_def)
next
  fix i H p p' assume inv: "pool_inv s" and s: "s = (p, H)" and t: "t = (p', H - {i})"
    and i: "i \<in> H" and rel: "mp_release i p = Inr p'"
  from rel have "p' = p\<lparr>mp_free_list := mp_free_list p @ [i]\<rparr>"
    by (auto simp: mp_release_def split: if_splits)
  with inv s t i show ?thesis by (auto simp: pool_inv_def)
qed

interpretation plm: safe_machine pool_start pool_step pool_inv
  by unfold_locales (auto intro: pool_start_inv pool_step_inv)

lemma pool_slots_finite: "finite (slots_of n)"
  by (rule finite)

lemma pool_slot_count:
  assumes "unat n < 2 ^ 32"
  shows "card (slots_of n) = unat n"
proof -
  have "inj_on (of_nat :: nat \<Rightarrow> u32) {0..<unat n}"
    using assms by (intro inj_onI of_nat_word_inj) auto
  then show ?thesis by (simp add: slots_of_nat [OF assms] card_image)
qed

text \<open>The byte range of slot \<open>i\<close>, when the allocation size did not wrap.\<close>

lemma slot_offset:
  assumes "unat sz * unat n < 2 ^ 64" "(ucast (i :: u32) :: size_t) < n"
  shows "unat (ucast i * sz :: size_t) = unat i * unat sz" "unat i * unat sz + unat sz \<le> unat (sz * n)"
proof -
  have i: "unat i < unat n" using assms(2) by (simp add: word_less_nat_alt)
  then have "Suc (unat i) * unat sz \<le> unat n * unat sz" by (intro mult_le_mono1) simp
  then have le: "unat i * unat sz + unat sz \<le> unat n * unat sz" by simp
  with assms(1) have "unat i * unat sz < 2 ^ 64" by (simp add: mult.commute)
  then show "unat (ucast i * sz :: size_t) = unat i * unat sz"
    by (simp add: unat_word_ariths)
  have "unat (sz * n) = unat sz * unat n" using assms(1) by (simp add: unat_word_ariths)
  with le show "unat i * unat sz + unat sz \<le> unat (sz * n)" by (simp add: mult.commute)
qed

text \<open>
  C24. A client that releases only slots it holds never receives a slot it already holds, and
  the slots it holds and the free ones always add up to \<open>slot_count\<close>: the pool neither
  leaks slots nor hands one out twice.
\<close>

theorem pool_ownership:
  assumes "pool_start s" "pool_step\<^sup>*\<^sup>* s (p, H)"
  shows "(\<forall>b p'. mp_acquire p = (Some b, p') \<longrightarrow> pb_slot_id b \<notin> H \<and> ucast (pb_slot_id b) < mp_slot_count p)
    \<and> (fst (mp_acquire p) = None \<longleftrightarrow> H = slots_of (mp_slot_count p))
    \<and> unat (mp_free_slots p) + card H = unat (mp_slot_count p)"
proof -
  from plm.reach_inv [OF assms] have inv: "pool_inv (p, H)" .
  then have d: "distinct (mp_free_list p)" and disj: "set (mp_free_list p) \<inter> H = {}"
    and un: "set (mp_free_list p) \<union> H = slots_of (mp_slot_count p)"
    and n: "unat (mp_slot_count p) < 2 ^ 32" by (auto simp: pool_inv_def)
  have fin: "finite H" by (rule finite)
  from un have "card (set (mp_free_list p) \<union> H) = unat (mp_slot_count p)"
    using pool_slot_count [OF n] by simp
  with d disj fin have c: "length (mp_free_list p) + card H = unat (mp_slot_count p)"
    by (simp add: card_Un_disjoint distinct_card)
  then have "length (mp_free_list p) < 2 ^ LENGTH(64)" using n by simp
  then have "unat (mp_free_slots p) + card H = unat (mp_slot_count p)"
    using c unfolding mp_free_slots_def by (subst unat_of_nat_small) auto
  moreover have "pb_slot_id b \<notin> H \<and> ucast (pb_slot_id b) < mp_slot_count p"
    if "mp_acquire p = (Some b, p')" for b p'
  proof -
    from that have "pb_slot_id b \<in> set (mp_free_list p)"
      by (auto simp: mp_acquire_def Let_def split: if_splits)
    with disj un show ?thesis by (auto simp: slots_of_def)
  qed
  moreover have "fst (mp_acquire p) = None \<longleftrightarrow> H = slots_of (mp_slot_count p)"
  proof -
    have "mp_free_list p = [] \<longleftrightarrow> H = slots_of (mp_slot_count p)"
      using disj un by (metis Int_absorb2 Un_empty_left inf_sup_absorb set_empty sup_ge1)
    then show ?thesis by (simp add: mp_acquire_def Let_def)
  qed
  ultimately show ?thesis by blast
qed

lemma pool_demo_start:
  "pool_start (\<lparr>mp_slot_size = 64, mp_slot_count = 2, mp_storage_size = 128, mp_free_list = [1, 0]\<rparr>, {})"
proof -
  have "mp_new 64 2 = Some (Inr \<lparr>mp_slot_size = 64, mp_slot_count = 2, mp_storage_size = 128,
      mp_free_list = [1, 0]\<rparr>)"
    by (simp add: mp_new_two)
  then show ?thesis by (simp add: pool_start_def)
qed

lemma pool_demo_run:
  "pool_step\<^sup>*\<^sup>* (\<lparr>mp_slot_size = 64, mp_slot_count = 2, mp_storage_size = 128, mp_free_list = [1, 0]\<rparr>, {})
     (\<lparr>mp_slot_size = 64, mp_slot_count = 2, mp_storage_size = 128, mp_free_list = [1]\<rparr>, {0})"
  by (rule r_into_rtranclp, rule take [where b = "\<lparr>pb_slot_id = 0, pb_data = 0, pb_capacity = 64\<rparr>",
        THEN back_subst [where P = "pool_step _"]]) (simp_all add: mp_acquire_def)

theorem pool_ownership_witness:
  "unat (mp_free_slots \<lparr>mp_slot_size = 64, mp_slot_count = 2, mp_storage_size = 128, mp_free_list = [1]\<rparr>)
     + card {0 :: u32} = 2"
  using pool_ownership [OF pool_demo_start pool_demo_run] by simp

text \<open>
  C25. Provided the constructor's \<open>slot_size * slot_count\<close> does not wrap, every buffer handed
  out lies inside the storage and is disjoint from the bytes of every other slot.
\<close>

theorem pool_buffers_disjoint:
  assumes "pool_start s" "pool_step\<^sup>*\<^sup>* s (p, H)" "mp_acquire p = (Some b, p')"
    and "unat (mp_slot_size p) * unat (mp_slot_count p) < 2 ^ 64"
  shows "unat (pb_data b) + unat (pb_capacity b) \<le> unat (mp_storage_size p)
    \<and> (\<forall>j \<in> H. unat (pb_data b) + unat (pb_capacity b) \<le> unat j * unat (mp_slot_size p)
             \<or> unat j * unat (mp_slot_size p) + unat (mp_slot_size p) \<le> unat (pb_data b))"
proof -
  from plm.reach_inv [OF assms(1,2)] have inv: "pool_inv (p, H)" .
  let ?i = "pb_slot_id b" and ?sz = "mp_slot_size p"
  from assms(3) have mem: "?i \<in> set (mp_free_list p)" and data: "pb_data b = ucast ?i * ?sz"
    and cap: "pb_capacity b = ?sz"
    by (auto simp: mp_acquire_def Let_def split: if_splits)
  from inv mem have lt: "(ucast ?i :: size_t) < mp_slot_count p" by (auto simp: pool_inv_def slots_of_def)
  note so = slot_offset [OF assms(4) lt]
  have sep: "unat ?i * unat ?sz + unat ?sz \<le> unat j * unat ?sz \<or> unat j * unat ?sz + unat ?sz \<le> unat ?i * unat ?sz"
    if "j \<in> H" for j
  proof -
    from that inv mem have "j \<noteq> ?i" by (auto simp: pool_inv_def)
    then have "unat j < unat ?i \<or> unat ?i < unat j" by (metis linorder_neqE_nat word_unat_eq_iff)
    then have "Suc (unat j) * unat ?sz \<le> unat ?i * unat ?sz \<or> Suc (unat ?i) * unat ?sz \<le> unat j * unat ?sz"
      by (metis Suc_leI mult_le_mono1)
    then show ?thesis by auto
  qed
  from so sep inv show ?thesis by (simp add: data cap pool_inv_def)
qed

theorem pool_buffers_disjoint_witness:
  "unat (64 :: size_t) + unat (64 :: size_t) \<le> unat (128 :: size_t)"
proof -
  have "mp_acquire \<lparr>mp_slot_size = 64, mp_slot_count = 2, mp_storage_size = 128, mp_free_list = [1]\<rparr>
      = (Some \<lparr>pb_slot_id = 1, pb_data = 64, pb_capacity = 64\<rparr>,
         \<lparr>mp_slot_size = 64, mp_slot_count = 2, mp_storage_size = 128, mp_free_list = []\<rparr>)"
    by (simp add: mp_acquire_def)
  from pool_buffers_disjoint [OF pool_demo_start pool_demo_run this] show ?thesis by simp
qed

text \<open>
  \<open>release\<close> checks the range of the id but not that the slot is in use: releasing the
  same slot twice succeeds, and the next two calls of \<open>acquire\<close> hand out that one slot
  twice.
\<close>

theorem pool_double_release:
  assumes "ucast i < mp_slot_count p"
  shows "\<exists>p1 p2 b p3 p4. mp_release i p = Inr p1 \<and> mp_release i p1 = Inr p2 \<and>
    mp_acquire p2 = (Some b, p3) \<and> mp_acquire p3 = (Some b, p4) \<and> pb_slot_id b = i"
  using assms by (simp add: mp_release_def mp_acquire_def Let_def not_le butlast_append)

theorem pool_double_release_witness:
  "\<exists>p1 p2 b p3 p4.
     mp_release 0 \<lparr>mp_slot_size = 64, mp_slot_count = 2, mp_storage_size = 128, mp_free_list = [1]\<rparr> = Inr p1 \<and>
     mp_release 0 p1 = Inr p2 \<and> mp_acquire p2 = (Some b, p3) \<and> mp_acquire p3 = (Some b, p4) \<and> pb_slot_id b = 0"
  by (rule pool_double_release) simp

text \<open>
  The product \<open>slot_size * slot_count\<close> is not checked: with two slots of \<open>2 ^ 63\<close> bytes
  the constructor succeeds with an empty storage, and \<open>acquire\<close> returns a buffer that
  claims \<open>2 ^ 63\<close> bytes of it.
\<close>

theorem pool_size_overflow:
  "\<exists>p b p'. mp_new (2 ^ 63) 2 = Some (Inr p) \<and> mp_storage_size p = 0 \<and>
     mp_acquire p = (Some b, p') \<and> pb_capacity b = 2 ^ 63"
proof -
  have "mp_new (2 ^ 63) 2 = Some (Inr \<lparr>mp_slot_size = 2 ^ 63, mp_slot_count = 2, mp_storage_size = 2 ^ 63 * 2,
      mp_free_list = [1, 0]\<rparr>)"
    by (simp add: mp_new_two)
  then show ?thesis by (simp add: mp_acquire_def)
qed

end
