(* ===== verification/Metrics.thy ===== *)
theory Metrics
  imports Interfaces
begin

text \<open>
  \<open>include/lwipc/metrics.hpp\<close>: four relaxed atomic 64-bit counters. Every update is one atomic
  read-modify-write, so a concurrent history is a sequence of them.
\<close>

record metrics =
  mt_published :: u64
  mt_delivered :: u64
  mt_dropped :: u64
  mt_last_latency_ns :: u64

definition metrics_new :: metrics where
  "metrics_new = \<lparr>mt_published = 0, mt_delivered = 0, mt_dropped = 0, mt_last_latency_ns = 0\<rparr>"

definition record_published :: "metrics \<Rightarrow> metrics" where
  "record_published m = m\<lparr>mt_published := mt_published m + 1\<rparr>"

definition record_delivered :: "metrics \<Rightarrow> metrics" where
  "record_delivered m = m\<lparr>mt_delivered := mt_delivered m + 1\<rparr>"

definition record_dropped :: "metrics \<Rightarrow> metrics" where
  "record_dropped m = m\<lparr>mt_dropped := mt_dropped m + 1\<rparr>"

definition record_latency :: "u64 \<Rightarrow> metrics \<Rightarrow> metrics" where
  "record_latency ns m = m\<lparr>mt_last_latency_ns := ns\<rparr>"

text \<open>A \<open>MetricsSnapshot\<close> has the four values of the counters.\<close>

type_synonym metrics_snapshot = "u64 \<times> u64 \<times> u64 \<times> u64"

definition metrics_snapshot_of :: "metrics \<Rightarrow> metrics_snapshot" where
  "metrics_snapshot_of m = (mt_published m, mt_delivered m, mt_dropped m, mt_last_latency_ns m)"

datatype metric_event = Published | Delivered | Dropped | Latency u64

fun metrics_apply :: "metric_event \<Rightarrow> metrics \<Rightarrow> metrics" where
  "metrics_apply Published m = record_published m"
| "metrics_apply Delivered m = record_delivered m"
| "metrics_apply Dropped m = record_dropped m"
| "metrics_apply (Latency ns) m = record_latency ns m"

fun last_latency :: "u64 \<Rightarrow> metric_event list \<Rightarrow> u64" where
  "last_latency d [] = d"
| "last_latency d (e # es) = last_latency (case e of Latency ns \<Rightarrow> ns | _ \<Rightarrow> d) es"

lemmas metrics_ops = record_published_def record_delivered_def record_dropped_def record_latency_def

lemma metrics_run:
  "fold metrics_apply es m =
     \<lparr>mt_published = mt_published m + of_nat (count_list es Published),
      mt_delivered = mt_delivered m + of_nat (count_list es Delivered),
      mt_dropped = mt_dropped m + of_nat (count_list es Dropped),
      mt_last_latency_ns = last_latency (mt_last_latency_ns m) es\<rparr>"
proof (induction es arbitrary: m)
  case (Cons e es)
  then show ?case by (cases e) (simp_all add: metrics_ops)
qed simp

text \<open>
  However the updates of concurrent threads are interleaved, a snapshot holds the number
  of events of each kind modulo \<open>2 ^ 64\<close> and the latency recorded last.
\<close>

theorem metrics_exact:
  "metrics_snapshot_of (fold metrics_apply es metrics_new) =
     (of_nat (count_list es Published), of_nat (count_list es Delivered), of_nat (count_list es Dropped),
      last_latency 0 es)"
  by (simp add: metrics_run metrics_snapshot_of_def metrics_new_def)

section \<open>A snapshot among the updates\<close>

text \<open>
  \<open>snapshot\<close> loads the counters one after the other, in the order of the fields, while other threads
  update them. \<open>ms_events\<close> are the updates so far, in the order in which they took effect; \<open>ms_begun\<close> is
  their number when the snapshot was begun. Each load finds the latest value.
\<close>

datatype snapshot_pc =
    SnapIdle
  | SnapPublished u64
  | SnapDelivered u64 u64
  | SnapDropped u64 u64 u64
  | SnapDone metrics_snapshot

record metrics_sys =
  ms_metrics :: metrics
  ms_events :: "metric_event list"
  ms_pc :: snapshot_pc
  ms_begun :: nat

definition ms_start :: "metrics_sys \<Rightarrow> bool" where
  "ms_start s \<longleftrightarrow> ms_metrics s = metrics_new \<and> ms_events s = [] \<and> ms_pc s = SnapIdle \<and> ms_begun s = 0"

inductive ms_step :: "metrics_sys \<Rightarrow> metrics_sys \<Rightarrow> bool" where
  ms_update: "ms_step s (s\<lparr>ms_metrics := metrics_apply e (ms_metrics s), ms_events := ms_events s @ [e]\<rparr>)"
| ms_load_published: "ms_pc s = SnapIdle \<Longrightarrow>
     ms_step s (s\<lparr>ms_pc := SnapPublished (mt_published (ms_metrics s)), ms_begun := length (ms_events s)\<rparr>)"
| ms_load_delivered: "ms_pc s = SnapPublished p \<Longrightarrow>
     ms_step s (s\<lparr>ms_pc := SnapDelivered p (mt_delivered (ms_metrics s))\<rparr>)"
| ms_load_dropped: "ms_pc s = SnapDelivered p d \<Longrightarrow>
     ms_step s (s\<lparr>ms_pc := SnapDropped p d (mt_dropped (ms_metrics s))\<rparr>)"
| ms_load_latency: "ms_pc s = SnapDropped p d x \<Longrightarrow>
     ms_step s (s\<lparr>ms_pc := SnapDone (p, d, x, mt_last_latency_ns (ms_metrics s))\<rparr>)"
| ms_again: "ms_pc s = SnapDone r \<Longrightarrow> ms_step s (s\<lparr>ms_pc := SnapIdle\<rparr>)"

text \<open>The counters after the first \<open>i\<close> updates.\<close>

definition after :: "nat \<Rightarrow> metric_event list \<Rightarrow> metrics" where
  "after i es = fold metrics_apply (take i es) metrics_new"

text \<open>What has been loaded are values at times that do not decrease, none before the beginning.\<close>

fun loaded :: "metrics_sys \<Rightarrow> snapshot_pc \<Rightarrow> bool" where
  "loaded s SnapIdle = True"
| "loaded s (SnapPublished p) = (p = mt_published (after (ms_begun s) (ms_events s)))"
| "loaded s (SnapDelivered p d) = (p = mt_published (after (ms_begun s) (ms_events s)) \<and>
     (\<exists>i. ms_begun s \<le> i \<and> i \<le> length (ms_events s) \<and> d = mt_delivered (after i (ms_events s))))"
| "loaded s (SnapDropped p d x) = (p = mt_published (after (ms_begun s) (ms_events s)) \<and>
     (\<exists>i j. ms_begun s \<le> i \<and> i \<le> j \<and> j \<le> length (ms_events s) \<and> d = mt_delivered (after i (ms_events s)) \<and>
        x = mt_dropped (after j (ms_events s))))"
| "loaded s (SnapDone r) = (\<exists>i j k. ms_begun s \<le> i \<and> i \<le> j \<and> j \<le> k \<and> k \<le> length (ms_events s) \<and>
     r = (mt_published (after (ms_begun s) (ms_events s)), mt_delivered (after i (ms_events s)),
          mt_dropped (after j (ms_events s)), mt_last_latency_ns (after k (ms_events s))))"

definition ms_inv :: "metrics_sys \<Rightarrow> bool" where
  "ms_inv s \<longleftrightarrow> ms_metrics s = after (length (ms_events s)) (ms_events s) \<and> ms_begun s \<le> length (ms_events s) \<and> loaded s (ms_pc s)"

lemma after_snoc: "i \<le> length es \<Longrightarrow> after i (es @ [e]) = after i es"
  by (simp add: after_def)

lemma loaded_update:
  assumes "loaded s c" "ms_begun s \<le> length (ms_events s)"
  shows "loaded (s\<lparr>ms_metrics := m, ms_events := ms_events s @ [e]\<rparr>) c"
proof (cases c)
  case (SnapDelivered p d)
  with assms obtain i where "ms_begun s \<le> i" "i \<le> length (ms_events s)" "d = mt_delivered (after i (ms_events s))" by auto
  with SnapDelivered assms show ?thesis by (simp add: after_snoc) (intro exI [of _ i], simp add: after_snoc)
next
  case (SnapDropped p d x)
  with assms obtain i j where "ms_begun s \<le> i" "i \<le> j" "j \<le> length (ms_events s)"
    "d = mt_delivered (after i (ms_events s))" "x = mt_dropped (after j (ms_events s))" by auto
  with SnapDropped assms show ?thesis by (simp add: after_snoc) (intro exI [of _ i], simp add: after_snoc, intro exI [of _ j], simp add: after_snoc)
next
  case (SnapDone r)
  with assms obtain i j k where "ms_begun s \<le> i" "i \<le> j" "j \<le> k" "k \<le> length (ms_events s)"
    "r = (mt_published (after (ms_begun s) (ms_events s)), mt_delivered (after i (ms_events s)),
          mt_dropped (after j (ms_events s)), mt_last_latency_ns (after k (ms_events s)))" by auto
  with SnapDone assms show ?thesis
    by (simp add: after_snoc)
      (intro exI [of _ i], simp add: after_snoc, intro exI [of _ j], simp add: after_snoc, intro exI [of _ k], simp add: after_snoc)
qed (use assms in \<open>simp_all add: after_snoc\<close>)

lemma ms_step_inv: "ms_step s t \<Longrightarrow> ms_inv s \<Longrightarrow> ms_inv t"
proof (induction rule: ms_step.induct)
  case (ms_update s e)
  then show ?case using loaded_update [of s "ms_pc s", where e = e and m = "metrics_apply e (ms_metrics s)"] by (simp add: ms_inv_def after_def)
qed (auto simp: ms_inv_def)

lemma ms_start_inv: "ms_start s \<Longrightarrow> ms_inv s"
  by (simp add: ms_start_def ms_inv_def after_def)

interpretation msm: safe_machine ms_start ms_step ms_inv
  by unfold_locales (auto intro: ms_start_inv ms_step_inv)

text \<open>
  What a snapshot holds that is taken while other threads go on: the exact value of each counter at
  a time of its own, these times in the order of the loads and all within the snapshot.
\<close>

theorem metrics_snapshot_times:
  assumes "ms_start s" "ms_step\<^sup>*\<^sup>* s t" "ms_pc t = SnapDone (p, d, x, l)"
  shows "\<exists>h i j k. ms_begun t = h \<and> h \<le> i \<and> i \<le> j \<and> j \<le> k \<and> k \<le> length (ms_events t) \<and>
    p = of_nat (count_list (take h (ms_events t)) Published) \<and> d = of_nat (count_list (take i (ms_events t)) Delivered) \<and>
    x = of_nat (count_list (take j (ms_events t)) Dropped) \<and> l = last_latency 0 (take k (ms_events t))"
  using msm.reach_inv [OF assms(1,2)] assms(3) by (auto simp: ms_inv_def after_def metrics_run metrics_new_def)

text \<open>So a snapshot may show a delivery of a message that it does not show as published.\<close>

definition ms_demo :: "metrics \<Rightarrow> metric_event list \<Rightarrow> snapshot_pc \<Rightarrow> metrics_sys" where
  "ms_demo m es c = \<lparr>ms_metrics = m, ms_events = es, ms_pc = c, ms_begun = 0\<rparr>"

lemma metrics_snapshot_ahead:
  "ms_step\<^sup>*\<^sup>* (ms_demo metrics_new [] SnapIdle)
     (ms_demo (fold metrics_apply [Published, Delivered] metrics_new) [Published, Delivered] (SnapDone (0, 1, 0, 0)))"
  unfolding ms_demo_def
  apply (rule run_step, rule ms_load_published, simp, simp)
  apply (rule run_step, rule ms_update [where e = Published], simp)
  apply (rule run_step, rule ms_update [where e = Delivered], simp)
  apply (rule run_step, rule ms_load_delivered, simp, simp)
  apply (rule run_step, rule ms_load_dropped, simp, simp)
  apply (rule run_step, rule ms_load_latency, simp, simp)
  apply (rule rtranclp_refl_eq, simp add: metrics_new_def metrics_ops)
  done

theorem metrics_snapshot_times_witness:
  "\<exists>i j. i \<le> j \<and> j \<le> 2 \<and> (0 :: u64) = of_nat (count_list (take 0 [Published, Delivered]) Published) \<and>
    (1 :: u64) = of_nat (count_list (take i [Published, Delivered]) Delivered)"
proof -
  have "ms_start (ms_demo metrics_new [] SnapIdle)" by (simp add: ms_start_def ms_demo_def)
  from metrics_snapshot_times [OF this metrics_snapshot_ahead, of 0 1 0 0]
  obtain i j where "i \<le> j" "j \<le> 2" "(1 :: u64) = of_nat (count_list (take i [Published, Delivered]) Delivered)"
    by (auto simp: ms_demo_def)
  then show ?thesis by auto
qed

end
