(* ===== verification/SystemMonitor.thy ===== *)
theory SystemMonitor
  imports Prelude
begin

text \<open>
  \<open>include/lwipc/system_monitor.hpp\<close> and \<open>src/system_monitor.cpp\<close>: node health, channel and
  topic statistics, alerts. Floating-point values are rationals here, so the theorems are about
  the exact arithmetic that the program rounds. The clock reading in milliseconds is an argument.
\<close>

section \<open>State\<close>

datatype node_status = UNKNOWN | RUNNING | STOPPED | NODE_ERROR | TIMEOUT

record node_info =
  ni_id :: string
  ni_name :: string
  ni_host :: string
  ni_pid :: int
  ni_status :: node_status
  ni_last_heartbeat :: u64
  ni_start_time :: u64
  ni_cpu_usage_percent :: u64
  ni_memory_usage_bytes :: u64

definition node_default :: node_info where
  "node_default = \<lparr>ni_id = [], ni_name = [], ni_host = [], ni_pid = 0, ni_status = UNKNOWN, ni_last_heartbeat = 0,
     ni_start_time = 0, ni_cpu_usage_percent = 0, ni_memory_usage_bytes = 0\<rparr>"

record channel_stats =
  ct_name :: string
  ct_messages_sent :: u64
  ct_messages_received :: u64
  ct_bytes_sent :: u64
  ct_bytes_received :: u64
  ct_messages_dropped :: u64
  ct_avg_latency :: rat
  ct_max_latency :: rat
  ct_min_latency :: rat
  ct_p99_latency :: rat
  ct_bandwidth :: rat

definition stats_default :: channel_stats where
  "stats_default = \<lparr>ct_name = [], ct_messages_sent = 0, ct_messages_received = 0, ct_bytes_sent = 0,
     ct_bytes_received = 0, ct_messages_dropped = 0, ct_avg_latency = 0, ct_max_latency = 0, ct_min_latency = 0,
     ct_p99_latency = 0, ct_bandwidth = 0\<rparr>"

record topic_stats =
  tt_name :: string
  tt_type :: string
  tt_message_count :: u64
  tt_subscriber_count :: u64
  tt_publisher_count :: u64
  tt_publish_rate :: rat
  tt_avg_msg_size :: rat

definition topic_default :: topic_stats where
  "topic_default = \<lparr>tt_name = [], tt_type = [], tt_message_count = 0, tt_subscriber_count = 0,
     tt_publisher_count = 0, tt_publish_rate = 0, tt_avg_msg_size = 0\<rparr>"

record system_stats =
  ss_total_nodes :: u64
  ss_running_nodes :: u64
  ss_total_topics :: u64
  ss_total_channels :: u64
  ss_messages_sent :: u64
  ss_messages_received :: u64
  ss_bytes_transferred :: u64
  ss_cpu_usage :: rat
  ss_memory_used :: u64
  ss_memory_total :: u64

text \<open>The text of \<open>details\<close> is formatted from one number, which stands for it.\<close>

datatype alert_level = INFO | WARNING | ALERT_ERROR | CRITICAL

datatype alert_details = CpuPercent rat | MemoryMB u64 | LatencyUs rat

record alert =
  al_level :: alert_level
  al_source :: string
  al_message :: string
  al_timestamp :: u64
  al_details :: alert_details

record monitor_config =
  mc_heartbeat_timeout_ms :: u64
  mc_stats_interval_ms :: u64
  mc_enable_alerts :: bool
  mc_cpu_threshold :: rat
  mc_memory_threshold :: rat
  mc_latency_threshold_us :: rat

definition monitor_config_default :: monitor_config where
  "monitor_config_default = \<lparr>mc_heartbeat_timeout_ms = 5000, mc_stats_interval_ms = 1000, mc_enable_alerts = True,
     mc_cpu_threshold = 90, mc_memory_threshold = 90, mc_latency_threshold_us = 1000\<rparr>"

record monitor =
  mo_config :: monitor_config
  mo_nodes :: "(string, node_info) umap"
  mo_channels :: "(string, channel_stats) umap"
  mo_topics :: "(string, topic_stats) umap"
  mo_has_callback :: bool
  mo_running :: bool
  mo_samples :: "rat list"

definition monitor_new :: monitor where
  "monitor_new = \<lparr>mo_config = monitor_config_default, mo_nodes = [], mo_channels = [], mo_topics = [],
     mo_has_callback = False, mo_running = False, mo_samples = []\<rparr>"

section \<open>Nodes\<close>

definition mo_configure :: "monitor_config \<Rightarrow> monitor \<Rightarrow> monitor" where
  "mo_configure config m = m\<lparr>mo_config := config\<rparr>"

definition mo_start :: "monitor \<Rightarrow> monitor" where
  "mo_start m = m\<lparr>mo_running := True\<rparr>"

definition mo_stop :: "monitor \<Rightarrow> monitor" where
  "mo_stop m = m\<lparr>mo_running := False\<rparr>"

definition mo_destroy :: "monitor \<Rightarrow> monitor" where
  "mo_destroy m = mo_stop m"

definition register_node :: "node_info \<Rightarrow> monitor \<Rightarrow> monitor" where
  "register_node node m = m\<lparr>mo_nodes := um_put (ni_id node) node (mo_nodes m)\<rparr>"

definition unregister_node :: "string \<Rightarrow> monitor \<Rightarrow> monitor" where
  "unregister_node i m = m\<lparr>mo_nodes := um_erase i (mo_nodes m)\<rparr>"

definition update_heartbeat :: "u64 \<Rightarrow> string \<Rightarrow> monitor \<Rightarrow> monitor" where
  "update_heartbeat now i m =
     (case um_find (mo_nodes m) i of
        None \<Rightarrow> m
      | Some n \<Rightarrow> m\<lparr>mo_nodes := um_put i (n\<lparr>ni_last_heartbeat := now, ni_status := RUNNING\<rparr>) (mo_nodes m)\<rparr>)"

text \<open>
  Converting a floating-point value to \<open>uint64_t\<close> is undefined (\<open>None\<close>) when the truncated value
  does not fit. The alerts raised are part of the result.
\<close>

definition to_u64 :: "rat \<Rightarrow> u64 option" where
  "to_u64 x = (if - 1 < x \<and> x < 2 ^ 64 then Some (of_nat (nat \<lfloor>x\<rfloor>)) else None)"

definition total_memory :: u64 where
  "total_memory = 8 * 1024 * 1024 * 1024"

definition memory_percent :: "u64 \<Rightarrow> rat" where
  "memory_percent bytes = of_nat (unat bytes) / of_nat (unat total_memory) * 100"

definition resource_alerts :: "u64 \<Rightarrow> monitor \<Rightarrow> string \<Rightarrow> rat \<Rightarrow> u64 \<Rightarrow> alert list" where
  "resource_alerts now m i cpu bytes =
     (if mc_enable_alerts (mo_config m) \<and> mo_has_callback m then
        (if cpu > mc_cpu_threshold (mo_config m)
         then [\<lparr>al_level = WARNING, al_source = i, al_message = ''CPU usage exceeded threshold'',
                al_timestamp = now, al_details = CpuPercent cpu\<rparr>] else []) @
        (if memory_percent bytes > mc_memory_threshold (mo_config m)
         then [\<lparr>al_level = WARNING, al_source = i, al_message = ''Memory usage exceeded threshold'',
                al_timestamp = now, al_details = MemoryMB (bytes div 1024 div 1024)\<rparr>] else [])
      else [])"

definition update_node_resources :: "u64 \<Rightarrow> string \<Rightarrow> rat \<Rightarrow> u64 \<Rightarrow> monitor \<Rightarrow> (alert list \<times> monitor) option" where
  "update_node_resources now i cpu bytes m =
     (case um_find (mo_nodes m) i of
        None \<Rightarrow> Some ([], m)
      | Some n \<Rightarrow>
          (case to_u64 (cpu * 100) of
             None \<Rightarrow> None
           | Some c \<Rightarrow> Some (resource_alerts now m i cpu bytes,
               m\<lparr>mo_nodes := um_put i (n\<lparr>ni_cpu_usage_percent := c, ni_memory_usage_bytes := bytes\<rparr>) (mo_nodes m)\<rparr>)))"

definition get_nodes :: "monitor \<Rightarrow> node_info list" where
  "get_nodes m = map snd (mo_nodes m)"

definition get_node :: "string \<Rightarrow> monitor \<Rightarrow> node_info" where
  "get_node i m = (case um_find (mo_nodes m) i of None \<Rightarrow> node_default | Some n \<Rightarrow> n)"

section \<open>Channels and topics\<close>

definition channel_of :: "string \<Rightarrow> monitor \<Rightarrow> channel_stats" where
  "channel_of ch m = (case um_find (mo_channels m) ch of None \<Rightarrow> stats_default | Some s \<Rightarrow> s)"

definition put_channel :: "string \<Rightarrow> channel_stats \<Rightarrow> monitor \<Rightarrow> monitor" where
  "put_channel ch s m = m\<lparr>mo_channels := um_put ch s (mo_channels m)\<rparr>"

definition sent_stats :: "string \<Rightarrow> u64 \<Rightarrow> rat \<Rightarrow> channel_stats \<Rightarrow> channel_stats" where
  "sent_stats ch bytes lat s =
     (let n = ct_messages_sent s + 1 in
      s\<lparr>ct_name := ch, ct_messages_sent := n, ct_bytes_sent := ct_bytes_sent s + bytes,
        ct_min_latency := if n = 1 then lat else min (ct_min_latency s) lat,
        ct_max_latency := if n = 1 then lat else max (ct_max_latency s) lat,
        ct_avg_latency := (ct_avg_latency s * of_nat (unat (n - 1)) + lat) / of_nat (unat n)\<rparr>)"

definition max_latency_samples :: nat where
  "max_latency_samples = 1000"

definition add_sample :: "rat \<Rightarrow> rat list \<Rightarrow> rat list" where
  "add_sample lat xs = (if max_latency_samples \<le> length xs then tl xs else xs) @ [lat]"

definition record_message_sent :: "u64 \<Rightarrow> string \<Rightarrow> u64 \<Rightarrow> rat \<Rightarrow> monitor \<Rightarrow> alert list \<times> monitor" where
  "record_message_sent now ch bytes lat m =
     (let m1 = put_channel ch (sent_stats ch bytes lat (channel_of ch m)) m;
          m2 = m1\<lparr>mo_samples := add_sample lat (mo_samples m1)\<rparr>
      in (if mc_enable_alerts (mo_config m) \<and> mo_has_callback m \<and> lat > mc_latency_threshold_us (mo_config m)
          then [\<lparr>al_level = WARNING, al_source = ch, al_message = ''Latency exceeded threshold'',
                 al_timestamp = now, al_details = LatencyUs lat\<rparr>] else [], m2))"

definition record_message_received :: "string \<Rightarrow> u64 \<Rightarrow> monitor \<Rightarrow> monitor" where
  "record_message_received ch bytes m = (let s = channel_of ch m in
     put_channel ch (s\<lparr>ct_name := ch, ct_messages_received := ct_messages_received s + 1,
       ct_bytes_received := ct_bytes_received s + bytes\<rparr>) m)"

definition record_message_dropped :: "string \<Rightarrow> monitor \<Rightarrow> monitor" where
  "record_message_dropped ch m = (let s = channel_of ch m in
     put_channel ch (s\<lparr>ct_name := ch, ct_messages_dropped := ct_messages_dropped s + 1\<rparr>) m)"

definition update_topic_info :: "string \<Rightarrow> string \<Rightarrow> u64 \<Rightarrow> monitor \<Rightarrow> monitor" where
  "update_topic_info topic type size_b m =
     (let s = (case um_find (mo_topics m) topic of None \<Rightarrow> topic_default | Some s \<Rightarrow> s);
          n = tt_message_count s + 1
      in m\<lparr>mo_topics := um_put topic (s\<lparr>tt_name := topic, tt_type := type, tt_message_count := n,
             tt_avg_msg_size := (tt_avg_msg_size s * of_nat (unat (n - 1)) + of_nat (unat size_b)) / of_nat (unat n),
             tt_publish_rate := of_nat (unat n)\<rparr>) (mo_topics m)\<rparr>)"

definition get_channel_stats :: "monitor \<Rightarrow> channel_stats list" where
  "get_channel_stats m = map snd (mo_channels m)"

definition get_topic_stats :: "monitor \<Rightarrow> topic_stats list" where
  "get_topic_stats m = map snd (mo_topics m)"

definition set_alert_callback :: "bool \<Rightarrow> monitor \<Rightarrow> monitor" where
  "set_alert_callback callable m = m\<lparr>mo_has_callback := callable\<rparr>"

section \<open>Summaries and health\<close>

definition get_system_stats :: "monitor \<Rightarrow> system_stats" where
  "get_system_stats m =
     \<lparr>ss_total_nodes = of_nat (length (mo_nodes m)),
      ss_running_nodes = of_nat (length (filter (\<lambda>n. ni_status n = RUNNING) (get_nodes m))),
      ss_total_topics = of_nat (length (mo_topics m)), ss_total_channels = of_nat (length (mo_channels m)),
      ss_messages_sent = (\<Sum>n \<leftarrow> get_nodes m. ni_cpu_usage_percent n) + (\<Sum>s \<leftarrow> get_channel_stats m. ct_messages_sent s),
      ss_messages_received = (\<Sum>s \<leftarrow> get_channel_stats m. ct_messages_received s),
      ss_bytes_transferred = (\<Sum>s \<leftarrow> get_channel_stats m. ct_bytes_sent s + ct_bytes_received s),
      ss_cpu_usage = 0, ss_memory_used = 0, ss_memory_total = total_memory\<rparr>"

definition heartbeat_late :: "u64 \<Rightarrow> monitor \<Rightarrow> node_info \<Rightarrow> bool" where
  "heartbeat_late now m n \<longleftrightarrow> now - ni_last_heartbeat n > mc_heartbeat_timeout_ms (mo_config m)"

definition check_health :: "u64 \<Rightarrow> monitor \<Rightarrow> node_info list" where
  "check_health now m = concat (map (\<lambda>n.
     if ni_status n \<noteq> RUNNING then [n]
     else if heartbeat_late now m n then [n\<lparr>ni_status := TIMEOUT\<rparr>] else []) (get_nodes m))"

definition get_timeout_nodes :: "u64 \<Rightarrow> monitor \<Rightarrow> node_info list" where
  "get_timeout_nodes now m = map (\<lambda>n. n\<lparr>ni_status := TIMEOUT\<rparr>)
     (filter (\<lambda>n. ni_status n = RUNNING \<and> heartbeat_late now m n) (get_nodes m))"

section \<open>Channel statistics are exact\<close>

datatype channel_event = Sent u64 string u64 rat | Received string u64 | Dropped string

fun mo_apply :: "channel_event \<Rightarrow> monitor \<Rightarrow> monitor" where
  "mo_apply (Sent now ch bytes lat) m = snd (record_message_sent now ch bytes lat m)"
| "mo_apply (Received ch bytes) m = record_message_received ch bytes m"
| "mo_apply (Dropped ch) m = record_message_dropped ch m"

fun latencies :: "string \<Rightarrow> channel_event list \<Rightarrow> rat list" where
  "latencies ch [] = []"
| "latencies ch (Sent _ ch' _ lat # es) = (if ch' = ch then [lat] else []) @ latencies ch es"
| "latencies ch (_ # es) = latencies ch es"

fun bytes_out :: "string \<Rightarrow> channel_event list \<Rightarrow> nat" where
  "bytes_out ch [] = 0"
| "bytes_out ch (Sent _ ch' bytes _ # es) = (if ch' = ch then unat bytes else 0) + bytes_out ch es"
| "bytes_out ch (_ # es) = bytes_out ch es"

fun drops :: "string \<Rightarrow> channel_event list \<Rightarrow> nat" where
  "drops ch [] = 0"
| "drops ch (Dropped ch' # es) = (if ch' = ch then 1 else 0) + drops ch es"
| "drops ch (_ # es) = drops ch es"

text \<open>The statistics that a list of latencies and totals stand for.\<close>

definition summarises :: "channel_stats \<Rightarrow> rat list \<Rightarrow> bool" where
  "summarises s ls \<longleftrightarrow> unat (ct_messages_sent s) = length ls \<and>
     ct_avg_latency s = (if ls = [] then 0 else sum_list ls / of_nat (length ls)) \<and>
     (ls \<noteq> [] \<longrightarrow> ct_min_latency s = Min (set ls) \<and> ct_max_latency s = Max (set ls))"

lemma channel_of_put: "channel_of ch (put_channel ch' s m) = (if ch = ch' then s else channel_of ch m)"
  by (simp add: channel_of_def put_channel_def)

lemma channel_of_samples [simp]: "channel_of ch (m\<lparr>mo_samples := x\<rparr>) = channel_of ch m"
  by (simp add: channel_of_def)

lemma summarises_sent:
  assumes "summarises s ls" "length ls < 2 ^ 64 - 1"
  shows "summarises (sent_stats ch bytes lat s) (ls @ [lat])"
proof -
  have n: "unat (ct_messages_sent s) = length ls" using assms(1) by (simp add: summarises_def)
  then have n1: "unat (ct_messages_sent s + 1) = Suc (length ls)" using assms(2) by (simp add: unat_word_ariths)
  have one: "ct_messages_sent s + 1 = 1 \<longleftrightarrow> ls = []"
  proof -
    have "ct_messages_sent s + 1 = 1 \<longleftrightarrow> unat (ct_messages_sent s) = 0" by (simp add: unsigned_eq_0_iff)
    with n show ?thesis by simp
  qed
  have u: "(unsigned (ct_messages_sent s) :: rat) = of_nat (length ls)"
    "(unsigned (ct_messages_sent s + 1) :: rat) = of_nat (Suc (length ls))"
    using n n1 by (metis of_nat_unat)+
  show ?thesis using assms(1) n n1 one u
    by (auto simp: summarises_def sent_stats_def Let_def min.commute max.commute)
qed

lemma mo_apply_channel:
  assumes "summarises (channel_of ch m) ls" "length ls < 2 ^ 64 - 1"
  shows "summarises (channel_of ch (mo_apply e m)) (ls @ latencies ch [e]) \<and>
    ct_bytes_sent (channel_of ch (mo_apply e m)) = ct_bytes_sent (channel_of ch m) + of_nat (bytes_out ch [e]) \<and>
    ct_messages_dropped (channel_of ch (mo_apply e m)) = ct_messages_dropped (channel_of ch m) + of_nat (drops ch [e])"
proof (cases e)
  case (Sent now ch' bytes lat)
  then show ?thesis
    using assms summarises_sent [OF assms, of ch bytes lat]
    by (auto simp: record_message_sent_def Let_def channel_of_put) (auto simp: sent_stats_def Let_def)
next
  case (Received ch' bytes)
  then show ?thesis
    using assms by (auto simp: record_message_received_def Let_def channel_of_put summarises_def)
next
  case (Dropped ch')
  then show ?thesis
    using assms by (auto simp: record_message_dropped_def Let_def channel_of_put summarises_def)
qed

lemma event_split: "latencies ch (e # es) = latencies ch [e] @ latencies ch es"
  "bytes_out ch (e # es) = bytes_out ch [e] + bytes_out ch es" "drops ch (e # es) = drops ch [e] + drops ch es"
  by (cases e; simp)+

lemma mo_run_channel:
  assumes "summarises (channel_of ch m) ls" "length ls + length es < 2 ^ 64"
  shows "summarises (channel_of ch (fold mo_apply es m)) (ls @ latencies ch es) \<and>
    ct_bytes_sent (channel_of ch (fold mo_apply es m)) = ct_bytes_sent (channel_of ch m) + of_nat (bytes_out ch es) \<and>
    ct_messages_dropped (channel_of ch (fold mo_apply es m)) = ct_messages_dropped (channel_of ch m) + of_nat (drops ch es)"
  using assms
proof (induction es arbitrary: m ls)
  case (Cons e es)
  have step: "summarises (channel_of ch (mo_apply e m)) (ls @ latencies ch [e])"
    "ct_bytes_sent (channel_of ch (mo_apply e m)) = ct_bytes_sent (channel_of ch m) + of_nat (bytes_out ch [e])"
    "ct_messages_dropped (channel_of ch (mo_apply e m)) = ct_messages_dropped (channel_of ch m) + of_nat (drops ch [e])"
    using mo_apply_channel [OF Cons.prems(1), of e] Cons.prems(2) by simp_all
  have "length (latencies ch [e]) \<le> 1" by (cases e) auto
  then have "length (ls @ latencies ch [e]) + length es < 2 ^ 64" using Cons.prems(2) by simp
  from Cons.IH [OF step(1) this] step(2,3) show ?case
    unfolding event_split [of ch e es] by (simp add: add.assoc)
qed simp



section \<open>Health\<close>

lemma late_iff:
  "heartbeat_late now m n \<longleftrightarrow>
     unat (mc_heartbeat_timeout_ms (mo_config m)) <
       (if unat (ni_last_heartbeat n) \<le> unat now then unat now - unat (ni_last_heartbeat n)
        else 2 ^ 64 + unat now - unat (ni_last_heartbeat n))"
  by (auto simp: heartbeat_late_def word_less_nat_alt unat_sub_if' word_le_nat_alt)

text \<open>
  \<open>checkHealth\<close> reports the nodes that are not running and those of \<open>getTimeoutNodes\<close>; and
  a running node times out exactly when its age exceeds the timeout, where the age wraps: a
  heartbeat stamped after the clock reading counts as nearly \<open>2 ^ 64\<close> milliseconds old.
\<close>

theorem health_exact:
  assumes "um_find (mo_nodes m) i = Some n" "ni_status n = RUNNING"
  shows "set (check_health now m) = {n' \<in> set (get_nodes m). ni_status n' \<noteq> RUNNING} \<union> set (get_timeout_nodes now m) \<and>
    (n\<lparr>ni_status := TIMEOUT\<rparr> \<in> set (get_timeout_nodes now m) \<longleftrightarrow>
       unat (mc_heartbeat_timeout_ms (mo_config m)) <
         (if unat (ni_last_heartbeat n) \<le> unat now then unat now - unat (ni_last_heartbeat n)
          else 2 ^ 64 + unat now - unat (ni_last_heartbeat n)))"
proof
  show "set (check_health now m) = {n' \<in> set (get_nodes m). ni_status n' \<noteq> RUNNING} \<union> set (get_timeout_nodes now m)"
    by (auto simp: check_health_def get_timeout_nodes_def split: if_splits)
  have n: "n \<in> set (get_nodes m)" using assms(1) by (force simp: get_nodes_def dest!: map_of_SomeD)
  have "n' = n" if "n'\<lparr>ni_status := TIMEOUT\<rparr> = n\<lparr>ni_status := TIMEOUT\<rparr>" "ni_status n' = RUNNING" for n'
    using that assms(2) by (cases n; cases n') simp
  then have "n\<lparr>ni_status := TIMEOUT\<rparr> \<in> set (get_timeout_nodes now m) \<longleftrightarrow> heartbeat_late now m n"
    using n assms(2) by (force simp: get_timeout_nodes_def image_iff)
  then show "n\<lparr>ni_status := TIMEOUT\<rparr> \<in> set (get_timeout_nodes now m) \<longleftrightarrow>
       unat (mc_heartbeat_timeout_ms (mo_config m)) <
         (if unat (ni_last_heartbeat n) \<le> unat now then unat now - unat (ni_last_heartbeat n)
          else 2 ^ 64 + unat now - unat (ni_last_heartbeat n))"
    by (simp only: late_iff)
qed

text \<open>A node whose clock is one millisecond ahead of the monitor's is reported as timed out.\<close>

theorem health_exact_witness:
  "(node_default\<lparr>ni_id := ''n'', ni_status := TIMEOUT, ni_last_heartbeat := 1001\<rparr>)
     \<in> set (get_timeout_nodes 1000 (update_heartbeat 1001 ''n'' (register_node (node_default\<lparr>ni_id := ''n''\<rparr>) monitor_new)))"
proof -
  let ?n = "node_default\<lparr>ni_id := ''n'', ni_last_heartbeat := 1001, ni_status := RUNNING\<rparr>"
  let ?m = "update_heartbeat 1001 ''n'' (register_node (node_default\<lparr>ni_id := ''n''\<rparr>) monitor_new)"
  have find: "um_find (mo_nodes ?m) ''n'' = Some ?n"
    by (simp add: update_heartbeat_def register_node_def monitor_new_def node_default_def)
  have conf: "mo_config ?m = monitor_config_default"
    by (simp add: update_heartbeat_def register_node_def monitor_new_def)
  have "?n\<lparr>ni_status := TIMEOUT\<rparr> \<in> set (get_timeout_nodes 1000 ?m)"
    using health_exact [OF find, of 1000] unfolding conf
    by (simp add: node_default_def monitor_config_default_def)
  then show ?thesis by (simp add: node_default_def)
qed

section \<open>Summaries\<close>

text \<open>
  The total of sent messages is not the sum over the channels: every registered node adds
  its CPU usage in hundredths of a percent.
\<close>

theorem system_stats_sent:
  "ss_messages_sent (get_system_stats m) - (\<Sum>s \<leftarrow> get_channel_stats m. ct_messages_sent s)
     = (\<Sum>n \<leftarrow> get_nodes m. ni_cpu_usage_percent n)"
  by (simp add: get_system_stats_def)

text \<open>The latency samples are the last thousand latencies of all channels.\<close>

lemma add_sample_window:
  "xs = drop (length ls - max_latency_samples) ls \<Longrightarrow>
   add_sample lat xs = drop (length (ls @ [lat]) - max_latency_samples) (ls @ [lat])"
proof (cases "length ls < max_latency_samples")
  case False
  assume xs: "xs = drop (length ls - max_latency_samples) ls"
  have "length (ls @ [lat]) - max_latency_samples = Suc (length ls - max_latency_samples)"
    using False by (simp add: Suc_diff_le)
  moreover have "max_latency_samples \<le> length xs" using False xs by simp
  moreover have "Suc (length ls - max_latency_samples) \<le> length ls"
    using False by (simp add: max_latency_samples_def)
  ultimately show ?thesis using xs by (simp add: add_sample_def drop_Suc tl_drop)
qed (auto simp: add_sample_def)

end
