(* ===== verification/MonitorAlerts.thy ===== *)
theory MonitorAlerts
  imports SystemMonitor
begin

text \<open>
  The alert callback of \<open>SystemMonitor\<close> (\<open>src/system_monitor.cpp\<close>). It is called in the middle of
  \<open>updateNodeResources\<close> and at the end of \<open>recordMessageSent\<close>, while the caller holds \<open>mutex_\<close>, which every
  member function locks and which is not recursive.
\<close>

text \<open>What a call of the callback does: return, throw, or call a member function of the monitor.\<close>

datatype 'w reaction = Handled 'w | Threw 'w | Enters_monitor

text \<open>What becomes of the call that raised the alerts: it returns, ends with the exception, or waits for ever.\<close>

datatype 'w outcome = Returned 'w | Escaped 'w | Blocked

fun raise_alerts :: "(alert \<Rightarrow> 'w \<Rightarrow> 'w reaction) \<Rightarrow> alert list \<Rightarrow> 'w \<Rightarrow> 'w outcome" where
  "raise_alerts call [] w = Returned w"
| "raise_alerts call (a # as) w =
     (case call a w of Handled w' \<Rightarrow> raise_alerts call as w' | Threw w' \<Rightarrow> Escaped w' | Enters_monitor \<Rightarrow> Blocked)"

text \<open>The two functions with their callback. The state is updated before the first alert, whatever comes of it.\<close>

definition report_resources ::
  "(alert \<Rightarrow> 'w \<Rightarrow> 'w reaction) \<Rightarrow> u64 \<Rightarrow> string \<Rightarrow> rat \<Rightarrow> u64 \<Rightarrow> monitor \<Rightarrow> 'w \<Rightarrow> (monitor \<times> 'w outcome) option" where
  "report_resources call now i cpu bytes m w =
     map_option (\<lambda>(as, m'). (m', raise_alerts call as w)) (update_node_resources now i cpu bytes m)"

definition report_sent :: "(alert \<Rightarrow> 'w \<Rightarrow> 'w reaction) \<Rightarrow> u64 \<Rightarrow> string \<Rightarrow> u64 \<Rightarrow> rat \<Rightarrow> monitor \<Rightarrow> 'w \<Rightarrow> monitor \<times> 'w outcome" where
  "report_sent call now ch bytes lat m w =
     (case record_message_sent now ch bytes lat m of (as, m') \<Rightarrow> (m', raise_alerts call as w))"

text \<open>A callback that keeps what it is given, and throws at some of the alerts.\<close>

definition keeping :: "(alert \<Rightarrow> bool) \<Rightarrow> alert \<Rightarrow> alert list \<Rightarrow> alert list reaction" where
  "keeping fails a seen = (if fails a then Threw (seen @ [a]) else Handled (seen @ [a]))"

lemma raise_keeping:
  "raise_alerts (keeping fails) as seen =
     (if \<exists>a \<in> set as. fails a then Escaped (seen @ takeWhile (\<lambda>a. \<not> fails a) as @ [hd (dropWhile (\<lambda>a. \<not> fails a) as)])
      else Returned (seen @ as))"
  by (induction as arbitrary: seen) (auto simp: keeping_def)

lemma raise_blocked: "(\<And>a w. call a w = Enters_monitor) \<Longrightarrow> raise_alerts call as w = (if as = [] then Returned w else Blocked)"
  by (cases as) simp_all

text \<open>
  A callback that returns gets each alert that the thresholds call for, the one for the CPU first, and
  the node has the new figures. If it throws at the first of two, the second is lost, and the figures are
  stored all the same.
\<close>

theorem resource_alerts_raised:
  assumes "mc_enable_alerts (mo_config m)" "mo_has_callback m" "um_find (mo_nodes m) i = Some n" "to_u64 (cpu * 100) = Some c"
  shows "\<exists>m' as. report_resources (keeping (\<lambda>_. False)) now i cpu bytes m seen = Some (m', Returned (seen @ as)) \<and>
    map al_details as = (if cpu > mc_cpu_threshold (mo_config m) then [CpuPercent cpu] else []) @
      (if memory_percent bytes > mc_memory_threshold (mo_config m) then [MemoryMB (bytes div 1024 div 1024)] else []) \<and>
    (\<forall>fails. \<exists>out. report_resources (keeping fails) now i cpu bytes m seen = Some (m', out) \<and>
       (\<forall>a as'. as = a # as' \<longrightarrow> fails a \<longrightarrow> out = Escaped (seen @ [a]))) \<and>
    ni_cpu_usage_percent (get_node i m') = c \<and> ni_memory_usage_bytes (get_node i m') = bytes"
proof -
  let ?m = "m\<lparr>mo_nodes := um_put i (n\<lparr>ni_cpu_usage_percent := c, ni_memory_usage_bytes := bytes\<rparr>) (mo_nodes m)\<rparr>"
  let ?as = "resource_alerts now m i cpu bytes"
  have up: "update_node_resources now i cpu bytes m = Some (?as, ?m)" using assms(3,4) by (simp add: update_node_resources_def)
  have "report_resources (keeping (\<lambda>_. False)) now i cpu bytes m seen = Some (?m, Returned (seen @ ?as))"
    by (simp add: report_resources_def up raise_keeping)
  moreover have "map al_details ?as = (if cpu > mc_cpu_threshold (mo_config m) then [CpuPercent cpu] else []) @
      (if memory_percent bytes > mc_memory_threshold (mo_config m) then [MemoryMB (bytes div 1024 div 1024)] else [])"
    using assms(1,2) by (simp add: resource_alerts_def)
  moreover have "\<exists>out. report_resources (keeping fails) now i cpu bytes m seen = Some (?m, out) \<and>
      (\<forall>a as'. ?as = a # as' \<longrightarrow> fails a \<longrightarrow> out = Escaped (seen @ [a]))" for fails
    by (auto simp: report_resources_def up raise_keeping)
  moreover have "ni_cpu_usage_percent (get_node i ?m) = c" "ni_memory_usage_bytes (get_node i ?m) = bytes"
    by (simp_all add: get_node_def)
  ultimately show ?thesis by blast
qed

definition busy_monitor :: monitor where
  "busy_monitor = set_alert_callback True (register_node (node_default\<lparr>ni_id := ''n''\<rparr>) monitor_new)"

lemma busy_monitor_facts:
  "mc_enable_alerts (mo_config busy_monitor)" "mo_has_callback busy_monitor" "mc_cpu_threshold (mo_config busy_monitor) = 90"
  "mc_memory_threshold (mo_config busy_monitor) = 90" "um_find (mo_nodes busy_monitor) ''n'' = Some (node_default\<lparr>ni_id := ''n''\<rparr>)"
  by (simp_all add: busy_monitor_def set_alert_callback_def register_node_def monitor_new_def monitor_config_default_def node_default_def)

theorem resource_alerts_raised_witness:
  "\<exists>m' as. report_resources (keeping (\<lambda>_. False)) 7 ''n'' 95 total_memory busy_monitor [] = Some (m', Returned as) \<and>
    map al_details as = [CpuPercent 95, MemoryMB 8192]"
proof -
  have "to_u64 (95 * 100) = Some 9500" by (simp add: to_u64_def)
  from resource_alerts_raised [OF busy_monitor_facts(1,2,5) this, of 7 total_memory "[]"] show ?thesis
    by (auto simp: busy_monitor_facts memory_percent_def total_memory_def)
qed

text \<open>A callback that uses the monitor blocks the caller, as soon as there is an alert.\<close>

theorem alert_callback_deadlock:
  assumes "mc_enable_alerts (mo_config m)" "mo_has_callback m" "lat > mc_latency_threshold_us (mo_config m)"
    and "\<And>a w. call a w = Enters_monitor"
  shows "snd (report_sent call now ch bytes lat m w) = Blocked"
  using assms raise_blocked [of call] by (simp add: report_sent_def record_message_sent_def Let_def)

theorem alert_callback_deadlock_witness:
  "snd (report_sent (\<lambda>_ _. Enters_monitor) 7 ''c'' 1 2000 busy_monitor (0 :: nat)) = Blocked"
  by (rule alert_callback_deadlock) (simp_all add: busy_monitor_def set_alert_callback_def register_node_def monitor_new_def
      monitor_config_default_def)

end
