(* ===== verification/MpmcProgress.thy ===== *)
theory MpmcProgress
  imports MpmcThreads
begin

text \<open>
  The MPMC ring of \<open>include/lwipc/ring_buffer_mpmc.hpp\<close> is lock-free: whatever the interleaving,
  the calls in progress come to an end after a number of steps that depends only on how many they
  are, because a failed attempt of one thread means that another has got its position.
\<close>

section \<open>Steps of the calls in progress\<close>

text \<open>
  Steps that neither begin a call nor let a compare-exchange fail that finds the expected value,
  which the weak form may do any number of times.
\<close>

definition calm :: "'a mpmc_sys \<Rightarrow> 'a mpmc_sys \<Rightarrow> bool" where
  "calm s t \<longleftrightarrow> (\<forall>i. mt_pc s i = TIdle \<longrightarrow> mt_pc t i = TIdle) \<and>
     (\<forall>i v. mt_pc s i = PushSeq v (mt_enq s) (mt_enq s) \<longrightarrow> mt_pc t i \<in> {mt_pc s i, PushOwn v (mt_enq s)}) \<and>
     (\<forall>i. mt_pc s i = PopSeq (mt_deq s) (Suc (mt_deq s)) \<longrightarrow> mt_pc t i \<in> {mt_pc s i, PopOwn (mt_deq s)})"

definition mpmc_work :: "nat \<Rightarrow> ('a \<Rightarrow> 'a) \<Rightarrow> 'a mpmc_sys \<Rightarrow> 'a mpmc_sys \<Rightarrow> bool" where
  "mpmc_work cap moved s t \<longleftrightarrow> mpmc_step cap moved s t \<and> calm s t"

section \<open>The measure\<close>

text \<open>
  The steps a thread needs if it is not disturbed; a thread with an old position needs two more.
  A thread that has not won its position yet can still disturb all the others, once.
\<close>

fun work_left :: "nat \<Rightarrow> nat \<Rightarrow> 'a mpmc_pc \<Rightarrow> nat" where
  "work_left e d TIdle = 0"
| "work_left e d (PushAt v p) = (if p = e then 4 else 6)"
| "work_left e d (PushSeq v p q) = (if p = e then 3 else 5)"
| "work_left e d (PushOwn v p) = 2"
| "work_left e d (PushStored v p) = 1"
| "work_left e d (PopAt p) = (if p = d then 4 else 6)"
| "work_left e d (PopSeq p q) = (if p = d then 3 else 5)"
| "work_left e d (PopOwn p) = 2"
| "work_left e d (PopMoved v p) = 1"

definition contends :: "'a mpmc_pc \<Rightarrow> bool" where
  "contends c \<longleftrightarrow> c \<noteq> TIdle \<and> owned c = None"

definition thread_fuel :: "nat \<Rightarrow> 'a mpmc_sys \<Rightarrow> nat \<Rightarrow> nat" where
  "thread_fuel n s i = work_left (mt_enq s) (mt_deq s) (mt_pc s i) + (if contends (mt_pc s i) then 2 * n else 0)"

definition mpmc_fuel :: "nat \<Rightarrow> 'a mpmc_sys \<Rightarrow> nat" where
  "mpmc_fuel n s = sum (thread_fuel n s) {..<n}"

definition few_inv :: "nat \<Rightarrow> nat \<Rightarrow> 'a mpmc_sys \<Rightarrow> bool" where
  "few_inv n cap s \<longleftrightarrow> mpmc_inv cap s \<and> (\<forall>i \<ge> n. mt_pc s i = TIdle)"

lemma work_left_bound: "work_left e d c \<le> 6"
  by (cases c) auto

lemma thread_fuel_bound: "thread_fuel n s i \<le> 2 * n + 6"
  using work_left_bound [of "mt_enq s" "mt_deq s" "mt_pc s i"] by (simp add: thread_fuel_def)

lemma mpmc_fuel_bound: "mpmc_fuel n s \<le> n * (2 * n + 6)"
  unfolding mpmc_fuel_def
  by (rule order_trans [OF sum_bounded_above [of _ _ "2 * n + 6"]]) (simp_all add: thread_fuel_bound)

text \<open>One thread pays for what it does to the others.\<close>

lemma sum_decreases:
  fixes f g :: "nat \<Rightarrow> nat"
  assumes "i < n" "\<And>j. j < n \<Longrightarrow> j \<noteq> i \<Longrightarrow> g j \<le> f j + k" "g i + k * n < f i"
  shows "sum g {..<n} < sum f {..<n}"
proof -
  let ?R = "{..<n} - {i}"
  have "sum g ?R \<le> (\<Sum>j \<in> ?R. f j + k)" using assms(2) by (intro sum_mono) auto
  also have "\<dots> = sum f ?R + k * (n - 1)" using assms(1) by (simp add: sum.distrib)
  also have "k * (n - 1) \<le> k * n" by simp
  finally have "sum g ?R \<le> sum f ?R + k * n" by simp
  with assms(1,3) show ?thesis by (simp add: sum.remove [of "{..<n}" i])
qed

text \<open>A step that changes only the thread itself, and steps that take a position.\<close>

lemma fuel_local:
  assumes "i < n" "mt_enq t = mt_enq s" "mt_deq t = mt_deq s" "\<And>j. j \<noteq> i \<Longrightarrow> mt_pc t j = mt_pc s j"
    and "thread_fuel n t i < thread_fuel n s i"
  shows "mpmc_fuel n t < mpmc_fuel n s"
  unfolding mpmc_fuel_def
  by (rule sum_decreases [where i = i and k = 0]) (use assms in \<open>auto simp: thread_fuel_def\<close>)

lemma work_left_disturbed: "work_left e' d' c \<le> work_left e d c + 2"
  by (cases c) auto

lemma fuel_win:
  assumes "i < n" "\<And>j. j \<noteq> i \<Longrightarrow> mt_pc t j = mt_pc s j" "contends (mt_pc s i)" "\<not> contends (mt_pc t i)"
    and "work_left (mt_enq t) (mt_deq t) (mt_pc t i) < work_left (mt_enq s) (mt_deq s) (mt_pc s i)"
  shows "mpmc_fuel n t < mpmc_fuel n s"
  unfolding mpmc_fuel_def
proof (rule sum_decreases [where i = i and k = 2])
  show "thread_fuel n t j \<le> thread_fuel n s j + 2" if "j < n" "j \<noteq> i" for j
    using assms(2) [OF that(2)] work_left_disturbed by (simp add: thread_fuel_def)
qed (use assms in \<open>simp_all add: thread_fuel_def\<close>)

text \<open>A sequence number beyond the position shows that the position is old.\<close>

lemma push_behind_old:
  assumes "mpmc_inv cap s" "mt_pc s i = PushSeq v p q" "p < q"
  shows "p \<noteq> mt_enq s"
proof
  assume "p = mt_enq s"
  then have "cell_ok cap s p" using mpmc_invD(1,5) [OF assms(1)] by simp
  then have "mt_seq s (p mod cap) \<le> p" using mpmc_invD(1) [OF assms(1)] by (auto simp: cell_ok_def)
  moreover have "q \<le> mt_seq s (p mod cap)" using mpmc_invD(6) [OF assms(1), of i] assms(2) by simp
  ultimately show False using assms(3) by simp
qed

lemma pop_behind_old:
  assumes "mpmc_inv cap s" "mt_pc s i = PopSeq p q" "Suc p < q"
  shows "p \<noteq> mt_deq s"
proof
  assume p: "p = mt_deq s"
  note inv = mpmc_invD [OF assms(1)]
  have "mt_seq s (p mod cap) \<le> Suc p"
  proof (cases "p = mt_enq s")
    case True
    then show ?thesis using inv(1) inv(5) [of p] by (auto simp: cell_ok_def)
  next
    case False
    then have "cell_ok cap s (p + cap)" using inv(3,4) p by (intro inv(5)) auto
    then show ?thesis using p inv(1) by (auto simp: cell_ok_def)
  qed
  moreover have "q \<le> mt_seq s (p mod cap)" using inv(6) [of i] assms(2) by simp
  ultimately show False using assms(3) by simp
qed

lemma mpmc_work_fuel:
  assumes "few_inv n cap s" "mpmc_work cap moved s t"
  shows "mpmc_fuel n t < mpmc_fuel n s"
proof -
  have inv: "mpmc_inv cap s" and step: "mpmc_step cap moved s t" and calm: "calm s t"
    using assms by (auto simp: few_inv_def mpmc_work_def)
  have active: "i < n" if "mt_pc s i \<noteq> TIdle" for i
    using assms(1) that by (metis few_inv_def not_le)
  from step show ?thesis
  proof cases
    case (push_load i v)
    with calm show ?thesis by (auto simp: calm_def dest!: spec [of _ i])
  next
    case (pop_load i)
    with calm show ?thesis by (auto simp: calm_def dest!: spec [of _ i])
  next
    case (push_win i v p q)
    then show ?thesis by (intro fuel_win [of i]) (auto simp: contends_def intro!: active)
  next
    case (pop_win i p q)
    then show ?thesis by (intro fuel_win [of i]) (auto simp: contends_def intro!: active)
  next
    case (push_lose i v p q)
    with calm have "p \<noteq> mt_enq s" by (auto simp: calm_def dest!: spec [of _ i])
    with push_lose show ?thesis by (intro fuel_local [of i]) (auto simp: thread_fuel_def contends_def intro!: active)
  next
    case (pop_lose i p q)
    with calm have "p \<noteq> mt_deq s" by (auto simp: calm_def dest!: spec [of _ i])
    with pop_lose show ?thesis by (intro fuel_local [of i]) (auto simp: thread_fuel_def contends_def intro!: active)
  next
    case (push_behind i v p q)
    with push_behind_old [OF inv] have "p \<noteq> mt_enq s" by blast
    with push_behind show ?thesis
      by (intro fuel_local [of i]) (auto simp: thread_fuel_def contends_def intro!: active)
  next
    case (pop_behind i p q)
    with pop_behind_old [OF inv] have "p \<noteq> mt_deq s" by blast
    with pop_behind show ?thesis
      by (intro fuel_local [of i]) (auto simp: thread_fuel_def contends_def intro!: active)
  qed (rule fuel_local, rule active, auto simp: thread_fuel_def contends_def)+
qed

lemma few_inv_work: "few_inv n cap s \<Longrightarrow> mpmc_work cap moved s t \<Longrightarrow> few_inv n cap t"
  by (auto simp: few_inv_def mpmc_work_def calm_def intro: mpmc_step_inv)

interpretation mpb: bounded_machine "mpmc_work cap moved" "few_inv n cap" "mpmc_fuel n"
  by unfold_locales (auto intro: few_inv_work mpmc_work_fuel)

text \<open>A thread within a call always has a step.\<close>

lemma work_step:
  assumes "mpmc_step cap moved s t" "mt_pc s i \<noteq> TIdle" "\<And>j. j \<noteq> i \<Longrightarrow> mt_pc t j = mt_pc s j"
    and "\<And>v. mt_pc s i = PushSeq v (mt_enq s) (mt_enq s) \<Longrightarrow> mt_pc t i = PushOwn v (mt_enq s)"
    and "mt_pc s i = PopSeq (mt_deq s) (Suc (mt_deq s)) \<Longrightarrow> mt_pc t i = PopOwn (mt_deq s)"
  shows "\<exists>t. mpmc_work cap moved s t"
proof -
  have "calm s t" unfolding calm_def by (metis assms(2-5) insertCI)
  with assms(1) show ?thesis unfolding mpmc_work_def by blast
qed

lemma busy_works:
  assumes "mt_pc s i \<noteq> TIdle"
  shows "\<exists>t. mpmc_work cap moved s t"
proof (cases "mt_pc s i")
  case (PushAt v p)
  then show ?thesis by (intro work_step [OF push_seq [OF PushAt], of i]) simp_all
next
  case (PushSeq v p q)
  consider "q = p" "mt_enq s = p" | "q = p" "mt_enq s \<noteq> p" | "q < p" | "p < q" by linarith
  then show ?thesis
  proof cases
    case 1
    with PushSeq show ?thesis by (intro work_step [OF push_win [OF PushSeq 1], of i]) simp_all
  next
    case 2
    with PushSeq show ?thesis by (intro work_step [OF push_lose [OF PushSeq 2(1)], of i]) simp_all
  next
    case 3
    with PushSeq show ?thesis by (intro work_step [OF push_full [OF PushSeq 3], of i]) simp_all
  next
    case 4
    with PushSeq show ?thesis by (intro work_step [OF push_behind [OF PushSeq 4], of i]) simp_all
  qed
next
  case (PushOwn v p)
  then show ?thesis by (intro work_step [OF push_data [OF PushOwn], of i]) simp_all
next
  case (PushStored v p)
  then show ?thesis by (intro work_step [OF push_publish [OF PushStored], of i]) simp_all
next
  case (PopAt p)
  then show ?thesis by (intro work_step [OF pop_seq [OF PopAt], of i]) simp_all
next
  case (PopSeq p q)
  consider "q = Suc p" "mt_deq s = p" | "q = Suc p" "mt_deq s \<noteq> p" | "q < Suc p" | "Suc p < q" by linarith
  then show ?thesis
  proof cases
    case 1
    with PopSeq show ?thesis by (intro work_step [OF pop_win [OF PopSeq 1], of i]) simp_all
  next
    case 2
    with PopSeq show ?thesis by (intro work_step [OF pop_lose [OF PopSeq 2(1)], of i]) simp_all
  next
    case 3
    with PopSeq show ?thesis by (intro work_step [OF pop_empty [OF PopSeq 3], of i]) simp_all
  next
    case 4
    with PopSeq show ?thesis by (intro work_step [OF pop_behind [OF PopSeq 4], of i]) simp_all
  qed
next
  case (PopOwn p)
  then show ?thesis by (intro work_step [OF pop_move [OF PopOwn], of i]) simp_all
next
  case (PopMoved v p)
  then show ?thesis by (intro work_step [OF pop_publish [OF PopMoved], of i]) simp_all
qed (use assms in simp)

section \<open>Lock-freedom\<close>


subsection \<open>Two threads after the same position\<close>

definition contended :: "nat mpmc_sys" where
  "contended = demo0\<lparr>mt_pc := (\<lambda>_. TIdle)(0 := PushSeq 7 0 0, 1 := PushSeq 8 0 0)\<rparr>"

definition first_wins :: "nat mpmc_sys" where
  "first_wins = goto 0 (PushOwn 7 0) (contended\<lparr>mt_enq := 1, mt_claimed := [7]\<rparr>)"

lemma contended_reached: "(mpmc_step 2 id)\<^sup>*\<^sup>* demo0 contended"
  unfolding demo0_def contended_def
  apply (rule converse_rtranclp_into_rtranclp, rule push_load [where i = 0 and v = 7], simp)
  apply (rule converse_rtranclp_into_rtranclp, rule push_load [where i = 1 and v = 8], simp)
  apply (rule converse_rtranclp_into_rtranclp, rule push_seq [where i = 0], simp)
  apply (rule converse_rtranclp_into_rtranclp, rule push_seq [where i = 1], simp)
  apply (rule rtranclp_refl_eq, auto simp: fun_eq_iff)
  done

lemma first_wins_step: "mpmc_work 2 id contended first_wins"
  using push_win [of contended 0 7 0 0 2 id]
  by (simp add: mpmc_work_def calm_def contended_def first_wins_def demo0_def)

lemma first_wins_work: "(mpmc_work 2 id ^^ 1) contended first_wins"
  using first_wins_step by (simp only: relpowp_1)


end
