(* ===== verification/Ordering.thy ===== *)
theory Ordering
  imports Prelude
begin

text \<open>
  Memory orders of the atomic operations, as far as the library uses them. A store leaves a message
  behind: its value and what the storing thread knew. A load may find any message that is not older
  than one the thread has seen of that variable; a releasing store and an acquiring load hand the
  knowledge on. What is known are plain accesses, and two conflicting plain accesses of which the
  later one does not know the earlier one are a data race, which is undefined behaviour.
\<close>

datatype memory_order = Relaxed | Acquire | Release

definition synchronizes :: "memory_order \<Rightarrow> memory_order \<Rightarrow> bool" where
  "synchronizes st ld \<longleftrightarrow> st = Release \<and> ld = Acquire"

text \<open>One variable: the messages in modification order, the value and the knowledge of each.\<close>

type_synonym ('v, 'k) messages = "('v \<times> 'k) list"

definition latest :: "('v, 'k) messages \<Rightarrow> 'v" where
  "latest l = fst (last l)"

lemma latest_snoc [simp]: "latest (l @ [(v, k)]) = v"
  by (simp add: latest_def)

lemma latest_nth: "l \<noteq> [] \<Longrightarrow> latest l = fst (l ! (length l - 1))"
  by (simp add: latest_def last_conv_nth)

end
