(* ===== verification/MpmcWeak.thy ===== *)
theory MpmcWeak
  imports MpmcThreads Ordering
begin

text \<open>
  The MPMC ring of \<open>include/lwipc/ring_buffer_mpmc.hpp\<close> under its memory orders. The positions are
  accessed with relaxed operations only: a load may find any value a position has ever had, which is
  more than C++ allows, and so may a failing compare-exchange; a successful one works on the latest
  value. A load of a cell's sequence may find any of its messages. The plain accesses to \<open>data\<close> are
  ordered by nothing but the releasing stores and acquiring loads of the sequences.
\<close>

section \<open>Steps\<close>

text \<open>
  \<open>mw_sys\<close> has the latest values and the threads, as in \<open>MpmcThreads\<close>. \<open>mw_log c\<close> are the messages of the
  sequence of cell \<open>c\<close>; \<open>mw_access\<close> has the cell of every plain access so far, whose index in this list
  is its name, \<open>mw_knows i\<close> the accesses that happen before what thread \<open>i\<close> does next.
\<close>

record 'a mpmc_weak =
  mw_sys :: "'a mpmc_sys"
  mw_log :: "nat \<Rightarrow> (nat, nat set) messages"
  mw_knows :: "nat \<Rightarrow> nat set"
  mw_access :: "nat list"
  mw_raced :: bool

text \<open>The orders of the stores and loads of \<open>sequence\<close>.\<close>

definition mpmc_code_orders :: "memory_order \<times> memory_order" where
  "mpmc_code_orders = (Release, Acquire)"

definition mpmc_weak_start :: "nat \<Rightarrow> 'a mpmc_weak \<Rightarrow> bool" where
  "mpmc_weak_start cap s \<longleftrightarrow> mpmc_start cap (mw_sys s) \<and> (\<forall>c < cap. mw_log s c = [(c, {})]) \<and>
     (\<forall>i. mw_knows s i = {}) \<and> mw_access s = [] \<and> \<not> mw_raced s"

definition accesses :: "'a mpmc_weak \<Rightarrow> nat \<Rightarrow> nat set" where
  "accesses s c = {a. a < length (mw_access s) \<and> mw_access s ! a = c}"

definition load_seq :: "memory_order \<times> memory_order \<Rightarrow> nat \<Rightarrow> nat set \<Rightarrow> 'a mpmc_weak \<Rightarrow> 'a mpmc_weak" where
  "load_seq ord i known s =
     s\<lparr>mw_knows := (mw_knows s)(i := mw_knows s i \<union> (if synchronizes (fst ord) (snd ord) then known else {}))\<rparr>"

definition store_seq :: "nat \<Rightarrow> nat \<Rightarrow> nat \<Rightarrow> 'a mpmc_weak \<Rightarrow> 'a mpmc_weak" where
  "store_seq i c q s = s\<lparr>mw_log := (mw_log s)(c := mw_log s c @ [(q, mw_knows s i)])\<rparr>"

definition plain_access :: "nat \<Rightarrow> nat \<Rightarrow> 'a mpmc_weak \<Rightarrow> 'a mpmc_weak" where
  "plain_access i c s = s\<lparr>mw_access := mw_access s @ [c],
     mw_knows := (mw_knows s)(i := insert (length (mw_access s)) (mw_knows s i)),
     mw_raced := (mw_raced s \<or> \<not> accesses s c \<subseteq> mw_knows s i)\<rparr>"

abbreviation in_sys :: "('a mpmc_sys \<Rightarrow> 'a mpmc_sys) \<Rightarrow> 'a mpmc_weak \<Rightarrow> 'a mpmc_weak" where
  "in_sys f s \<equiv> s\<lparr>mw_sys := f (mw_sys s)\<rparr>"

abbreviation pc_of :: "'a mpmc_weak \<Rightarrow> nat \<Rightarrow> 'a mpmc_pc" where
  "pc_of s i \<equiv> mt_pc (mw_sys s) i"

inductive mpmc_weak_step :: "nat \<Rightarrow> memory_order \<times> memory_order \<Rightarrow> ('a \<Rightarrow> 'a) \<Rightarrow> 'a mpmc_weak \<Rightarrow> 'a mpmc_weak \<Rightarrow> bool"
  for cap ord moved where
  wk_push_load: "pc_of s i = TIdle \<Longrightarrow> p \<le> mt_enq (mw_sys s) \<Longrightarrow>
     mpmc_weak_step cap ord moved s (in_sys (goto i (PushAt v p)) s)"
| wk_push_seq: "pc_of s i = PushAt v p \<Longrightarrow> (q, known) \<in> set (mw_log s (p mod cap)) \<Longrightarrow>
     mpmc_weak_step cap ord moved s (in_sys (goto i (PushSeq v p q)) (load_seq ord i known s))"
| wk_push_win: "pc_of s i = PushSeq v p q \<Longrightarrow> q = p \<Longrightarrow> mt_enq (mw_sys s) = p \<Longrightarrow>
     mpmc_weak_step cap ord moved s
       (in_sys (\<lambda>m. goto i (PushOwn v p) (m\<lparr>mt_enq := Suc p, mt_claimed := mt_claimed m @ [v]\<rparr>)) s)"
| wk_push_lose: "pc_of s i = PushSeq v p q \<Longrightarrow> q = p \<Longrightarrow> p' \<le> mt_enq (mw_sys s) \<Longrightarrow>
     mpmc_weak_step cap ord moved s (in_sys (goto i (PushAt v p')) s)"
| wk_push_full: "pc_of s i = PushSeq v p q \<Longrightarrow> q < p \<Longrightarrow> mpmc_weak_step cap ord moved s (in_sys (goto i TIdle) s)"
| wk_push_behind: "pc_of s i = PushSeq v p q \<Longrightarrow> p < q \<Longrightarrow> p' \<le> mt_enq (mw_sys s) \<Longrightarrow>
     mpmc_weak_step cap ord moved s (in_sys (goto i (PushAt v p')) s)"
| wk_push_data: "pc_of s i = PushOwn v p \<Longrightarrow>
     mpmc_weak_step cap ord moved s
       (in_sys (\<lambda>m. goto i (PushStored v p) (m\<lparr>mt_data := (mt_data m)(p mod cap := v)\<rparr>)) (plain_access i (p mod cap) s))"
| wk_push_publish: "pc_of s i = PushStored v p \<Longrightarrow>
     mpmc_weak_step cap ord moved s
       (in_sys (\<lambda>m. goto i TIdle (m\<lparr>mt_seq := (mt_seq m)(p mod cap := Suc p)\<rparr>)) (store_seq i (p mod cap) (Suc p) s))"
| wk_pop_load: "pc_of s i = TIdle \<Longrightarrow> p \<le> mt_deq (mw_sys s) \<Longrightarrow>
     mpmc_weak_step cap ord moved s (in_sys (goto i (PopAt p)) s)"
| wk_pop_seq: "pc_of s i = PopAt p \<Longrightarrow> (q, known) \<in> set (mw_log s (p mod cap)) \<Longrightarrow>
     mpmc_weak_step cap ord moved s (in_sys (goto i (PopSeq p q)) (load_seq ord i known s))"
| wk_pop_win: "pc_of s i = PopSeq p q \<Longrightarrow> q = Suc p \<Longrightarrow> mt_deq (mw_sys s) = p \<Longrightarrow>
     mpmc_weak_step cap ord moved s (in_sys (\<lambda>m. goto i (PopOwn p) (m\<lparr>mt_deq := Suc p\<rparr>)) s)"
| wk_pop_lose: "pc_of s i = PopSeq p q \<Longrightarrow> q = Suc p \<Longrightarrow> p' \<le> mt_deq (mw_sys s) \<Longrightarrow>
     mpmc_weak_step cap ord moved s (in_sys (goto i (PopAt p')) s)"
| wk_pop_empty: "pc_of s i = PopSeq p q \<Longrightarrow> q < Suc p \<Longrightarrow> mpmc_weak_step cap ord moved s (in_sys (goto i TIdle) s)"
| wk_pop_behind: "pc_of s i = PopSeq p q \<Longrightarrow> Suc p < q \<Longrightarrow> p' \<le> mt_deq (mw_sys s) \<Longrightarrow>
     mpmc_weak_step cap ord moved s (in_sys (goto i (PopAt p')) s)"
| wk_pop_move: "pc_of s i = PopOwn p \<Longrightarrow>
     mpmc_weak_step cap ord moved s
       (in_sys (\<lambda>m. goto i (PopMoved (mt_data m (p mod cap)) p)
          (m\<lparr>mt_data := (mt_data m)(p mod cap := moved (mt_data m (p mod cap)))\<rparr>)) (plain_access i (p mod cap) s))"
| wk_pop_publish: "pc_of s i = PopMoved v p \<Longrightarrow>
     mpmc_weak_step cap ord moved s
       (in_sys (\<lambda>m. goto i TIdle (m\<lparr>mt_seq := (mt_seq m)(p mod cap := p + cap), mt_taken := mt_taken m @ [(p, v)]\<rparr>))
         (store_seq i (p mod cap) (p + cap) s))"

section \<open>Invariant\<close>

text \<open>The messages of a cell have increasing values, the last of which is the value of the sequence.\<close>

definition logs_ok :: "nat \<Rightarrow> 'a mpmc_weak \<Rightarrow> bool" where
  "logs_ok cap s \<longleftrightarrow> (\<forall>c < cap. mw_log s c \<noteq> [] \<and> latest (mw_log s c) = mt_seq (mw_sys s) c \<and>
     sorted_wrt (<) (map fst (mw_log s c)))"

text \<open>What a thread has read it knows.\<close>

fun read_from :: "nat \<Rightarrow> 'a mpmc_weak \<Rightarrow> nat \<Rightarrow> 'a mpmc_pc \<Rightarrow> bool" where
  "read_from cap s i (PushSeq v p q) = (\<exists>known. (q, known) \<in> set (mw_log s (p mod cap)) \<and> known \<subseteq> mw_knows s i)"
| "read_from cap s i (PopSeq p q) = (\<exists>known. (q, known) \<in> set (mw_log s (p mod cap)) \<and> known \<subseteq> mw_knows s i)"
| "read_from cap s i _ = True"

text \<open>The accesses to a cell are known to the thread that owns it, or else to the last message.\<close>

definition holds :: "nat \<Rightarrow> 'a mpmc_weak \<Rightarrow> nat \<Rightarrow> nat \<Rightarrow> bool" where
  "holds cap s i c \<longleftrightarrow> (\<exists>p. owned (pc_of s i) = Some p \<and> p mod cap = c)"

definition cells_known :: "nat \<Rightarrow> 'a mpmc_weak \<Rightarrow> bool" where
  "cells_known cap s \<longleftrightarrow> (\<forall>c < cap. (\<forall>i. holds cap s i c \<longrightarrow> accesses s c \<subseteq> mw_knows s i) \<and>
     ((\<forall>i. \<not> holds cap s i c) \<longrightarrow> accesses s c \<subseteq> snd (last (mw_log s c))))"

definition mpmc_weak_inv :: "nat \<Rightarrow> 'a mpmc_weak \<Rightarrow> bool" where
  "mpmc_weak_inv cap s \<longleftrightarrow> mpmc_inv cap (mw_sys s) \<and> \<not> mw_raced s \<and> logs_ok cap s \<and>
     (\<forall>i. read_from cap s i (pc_of s i)) \<and> cells_known cap s"

lemma mpmc_weak_invD:
  assumes "mpmc_weak_inv cap s"
  shows "mpmc_inv cap (mw_sys s)" "\<not> mw_raced s" "logs_ok cap s" "read_from cap s i (pc_of s i)" "cells_known cap s"
  using assms by (simp_all add: mpmc_weak_inv_def)

text \<open>Values determine messages.\<close>

lemma message_unique:
  assumes "sorted_wrt (<) (map fst (l :: (nat, nat set) messages))" "(q, a) \<in> set l" "(q, b) \<in> set l"
  shows "a = b"
proof -
  have "distinct (map fst l)" using assms(1) strict_sorted_iff by blast
  then show ?thesis using assms(2,3) by (metis eq_key_imp_eq_value)
qed

lemma last_message:
  assumes "sorted_wrt (<) (map fst (l :: (nat, nat set) messages))" "l \<noteq> []" "(latest l, a) \<in> set l"
  shows "a = snd (last l)"
  by (rule message_unique [OF assms(1,3)]) (use assms(2) in \<open>simp add: latest_def\<close>)

lemma older_message:
  assumes "sorted_wrt (<) (map fst (l :: (nat, nat set) messages))" "l \<noteq> []" "(q, a) \<in> set l"
  shows "q \<le> latest l"
proof -
  obtain l' m where l: "l = l' @ [m]" using assms(2) by (metis rev_exhaust)
  then have "fst x < fst m" if "x \<in> set l'" for x
    using assms(1) that by (auto simp: sorted_wrt_append)
  with assms(3) l show ?thesis by (force simp: latest_def)
qed

section \<open>Steps that do not touch a cell\<close>

lemma accesses_same: "mw_access t = mw_access s \<Longrightarrow> accesses t c = accesses s c"
  by (simp add: accesses_def)

lemma read_from_cong:
  assumes "read_from cap s i c" "\<And>c. \<exists>l. mw_log t c = mw_log s c @ l" "mw_knows s i \<subseteq> mw_knows t i"
  shows "read_from cap t i c"
proof (cases c)
  case (PushSeq v p q)
  with assms(1,3) show ?thesis using assms(2) [of "p mod cap"] by auto blast
next
  case (PopSeq p q)
  with assms(1,3) show ?thesis using assms(2) [of "p mod cap"] by auto blast
qed simp_all

text \<open>A thread that does not own a cell goes on to another state without ownership.\<close>

lemma weak_goto_inv:
  assumes inv: "mpmc_weak_inv cap s" and c: "pc_ok cap (mw_sys s) c" "owned c = None" "owned (pc_of s i) = None"
    and t: "mw_sys t = goto i c (mw_sys s)" "mw_log t = mw_log s" "mw_access t = mw_access s" "mw_raced t = mw_raced s"
      "\<And>j. mw_knows s j \<subseteq> mw_knows t j" "read_from cap t i c"
  shows "mpmc_weak_inv cap t"
proof -
  note i = mpmc_weak_invD [OF inv]
  have "popping (pc_of s i) = None" using c(3) popping_owned by (metis not_None_eq)
  then have sys: "mpmc_inv cap (mw_sys t)" unfolding t(1) by (intro goto_inv [OF i(1) c(1,2)])
  have holds: "holds cap t j x = holds cap s j x" for j x
    using c(2,3) by (simp add: holds_def t(1))
  have "read_from cap t j (pc_of t j)" for j
    using read_from_cong [OF i(4) [of j], of t] t(1,2,5,6) by (cases "j = i") simp_all
  moreover have "cells_known cap t"
    using i(5) t(5) unfolding cells_known_def holds accesses_same [OF t(3)] t(2) by blast
  moreover have "logs_ok cap t" using i(3) by (simp add: logs_ok_def t(1,2))
  ultimately show ?thesis using sys i(2) t(4) by (simp add: mpmc_weak_inv_def)
qed

text \<open>A thread takes over a cell that nobody owns, having read its last message.\<close>

lemma weak_win_inv:
  assumes inv: "mpmc_weak_inv cap s" and sys: "mpmc_inv cap (mw_sys t)"
    and c: "owned c = Some p" "owned (pc_of s i) = None" and cap: "p mod cap < cap"
    and msg: "(mt_seq (mw_sys s) (p mod cap), known) \<in> set (mw_log s (p mod cap))" "known \<subseteq> mw_knows s i"
    and free: "\<And>j. \<not> holds cap s j (p mod cap)"
    and t: "mt_pc (mw_sys t) = (mt_pc (mw_sys s))(i := c)" "mt_seq (mw_sys t) = mt_seq (mw_sys s)" "mw_log t = mw_log s"
      "mw_access t = mw_access s" "mw_raced t = mw_raced s" "mw_knows t = mw_knows s"
  shows "mpmc_weak_inv cap t"
proof -
  note i = mpmc_weak_invD [OF inv]
  have log: "mw_log s (p mod cap) \<noteq> []" "latest (mw_log s (p mod cap)) = mt_seq (mw_sys s) (p mod cap)"
    "sorted_wrt (<) (map fst (mw_log s (p mod cap)))"
    using i(3) cap by (simp_all add: logs_ok_def)
  have "known = snd (last (mw_log s (p mod cap)))"
    using msg(1) unfolding log(2) [symmetric] by (rule last_message [OF log(3,1)])
  moreover have "accesses s (p mod cap) \<subseteq> snd (last (mw_log s (p mod cap)))"
    using i(5) free cap by (simp add: cells_known_def)
  ultimately have mine: "accesses s (p mod cap) \<subseteq> mw_knows s i" using msg(2) by blast
  have holds: "holds cap t j x \<longleftrightarrow> (if j = i then x = p mod cap else holds cap s j x)" for j x
    using c by (auto simp: holds_def t(1))
  have nomine: "\<not> holds cap s i x" for x using c(2) by (simp add: holds_def)
  have "cells_known cap t"
    unfolding cells_known_def accesses_same [OF t(4)] t(3,6)
  proof (intro allI impI conjI)
    fix x j assume "x < cap" "holds cap t j x"
    then show "accesses s x \<subseteq> mw_knows s j" using i(5) mine by (auto simp: holds cells_known_def split: if_splits)
  next
    fix x assume "x < cap" "\<forall>j. \<not> holds cap t j x"
    then have "\<forall>j. \<not> holds cap s j x" using nomine by (metis holds)
    then show "accesses s x \<subseteq> snd (last (mw_log s x))" using i(5) \<open>x < cap\<close> by (simp add: cells_known_def)
  qed
  moreover have "read_from cap t j (pc_of t j)" for j
  proof (cases "j = i")
    case True
    then show ?thesis using c(1) by (cases c) (simp_all add: t(1))
  next
    case False
    with read_from_cong [OF i(4) [of j], of t] t show ?thesis by simp
  qed
  moreover have "logs_ok cap t" using i(3) by (simp add: logs_ok_def t(2,3))
  ultimately show ?thesis using sys i(2) t(5) by (simp add: mpmc_weak_inv_def)
qed

section \<open>Steps of an owner\<close>

text \<open>Two owners hold different cells.\<close>

lemma holds_unique:
  assumes "mpmc_inv cap s" "owned (mt_pc s i) = Some p" "owned (mt_pc s j) = Some q" "p mod cap = q mod cap"
  shows "i = j"
  using owned_same_cell [OF assms] mpmc_invD(7) [OF assms(1,2)] assms(3) by blast

text \<open>A plain access of the owner races with nothing.\<close>

lemma weak_access_inv:
  assumes inv: "mpmc_weak_inv cap s" and sys: "mpmc_inv cap m"
    and own: "owned (pc_of s i) = Some p" "owned c = Some p" and cap: "p mod cap < cap"
    and m: "mt_pc m = (mt_pc (mw_sys s))(i := c)" "mt_seq m = mt_seq (mw_sys s)"
  shows "mpmc_weak_inv cap ((plain_access i (p mod cap) s)\<lparr>mw_sys := m\<rparr>)" (is "mpmc_weak_inv cap ?t")
proof -
  note i = mpmc_weak_invD [OF inv]
  have mine: "accesses s (p mod cap) \<subseteq> mw_knows s i"
    using i(5) own(1) cap by (auto simp: cells_known_def holds_def)
  have acc: "accesses ?t x = (if x = p mod cap then insert (length (mw_access s)) (accesses s x) else accesses s x)" for x
    by (auto simp: accesses_def plain_access_def nth_append less_Suc_eq)
  have holds: "holds cap ?t j x = holds cap s j x" for j x
    using own by (simp add: holds_def m(1))
  have other: "x \<noteq> p mod cap" if "holds cap s j x" "j \<noteq> i" for j x
    using that holds_unique [OF i(1) own(1), of j] by (auto simp: holds_def)
  have "cells_known cap ?t"
    unfolding cells_known_def holds
  proof (intro allI impI conjI)
    fix x j assume x: "x < cap" "holds cap s j x"
    then have "accesses s x \<subseteq> mw_knows s j" using i(5) by (simp add: cells_known_def)
    then show "accesses ?t x \<subseteq> mw_knows ?t j" using other [OF x(2)] unfolding acc
      by (cases "j = i") (auto simp: plain_access_def)
  next
    fix x assume x: "x < cap" "\<forall>j. \<not> holds cap s j x"
    then have "x \<noteq> p mod cap" using own(1) by (auto simp: holds_def)
    with x i(5) show "accesses ?t x \<subseteq> snd (last (mw_log ?t x))"
      unfolding acc by (simp add: cells_known_def plain_access_def)
  qed
  moreover have "read_from cap ?t j (pc_of ?t j)" for j
  proof (cases "j = i")
    case True
    then show ?thesis using own(2) by (cases c) (simp_all add: m(1))
  next
    case False
    with read_from_cong [OF i(4) [of j], of ?t] show ?thesis by (simp add: m(1) plain_access_def)
  qed
  moreover have "logs_ok cap ?t" using i(3) by (simp add: logs_ok_def m(2) plain_access_def)
  ultimately show ?thesis using sys i(2) mine by (simp add: mpmc_weak_inv_def plain_access_def)
qed

text \<open>The releasing store hands on what the owner knows of the cell.\<close>

lemma weak_release_inv:
  assumes inv: "mpmc_weak_inv cap s" and sys: "mpmc_inv cap m"
    and own: "owned (pc_of s i) = Some p" and cap: "p mod cap < cap" and new: "mt_seq (mw_sys s) (p mod cap) < q"
    and m: "mt_pc m = (mt_pc (mw_sys s))(i := TIdle)" "mt_seq m = (mt_seq (mw_sys s))(p mod cap := q)"
  shows "mpmc_weak_inv cap ((store_seq i (p mod cap) q s)\<lparr>mw_sys := m\<rparr>)" (is "mpmc_weak_inv cap ?t")
proof -
  note i = mpmc_weak_invD [OF inv]
  have mine: "accesses s (p mod cap) \<subseteq> mw_knows s i"
    using i(5) own cap by (auto simp: cells_known_def holds_def)
  have holds: "holds cap ?t j x \<longleftrightarrow> j \<noteq> i \<and> holds cap s j x" for j x
    by (simp add: holds_def m(1))
  have "cells_known cap ?t"
    unfolding cells_known_def holds
  proof (intro allI impI conjI)
    fix x j assume "x < cap" "j \<noteq> i \<and> holds cap s j x"
    then show "accesses ?t x \<subseteq> mw_knows ?t j" using i(5) by (simp add: cells_known_def store_seq_def accesses_def)
  next
    fix x assume x: "x < cap" "\<forall>j. \<not> (j \<noteq> i \<and> holds cap s j x)"
    show "accesses ?t x \<subseteq> snd (last (mw_log ?t x))"
    proof (cases "x = p mod cap")
      case True
      then show ?thesis using mine by (simp add: store_seq_def accesses_def)
    next
      case False
      then have "\<not> holds cap s i x" using own by (simp add: holds_def)
      with x(2) have "\<forall>j. \<not> holds cap s j x" by metis
      with False x(1) i(5) show ?thesis by (simp add: cells_known_def store_seq_def accesses_def)
    qed
  qed
  moreover have "read_from cap ?t j (pc_of ?t j)" for j
  proof (cases "j = i")
    case False
    with read_from_cong [OF i(4) [of j], of ?t] show ?thesis by (simp add: m(1) store_seq_def)
  qed (simp add: m(1))
  moreover have "logs_ok cap ?t"
  proof -
    have "\<forall>r \<in> set (mw_log s (p mod cap)). fst r < q"
      using older_message [of "mw_log s (p mod cap)"] i(3) cap new by (fastforce simp: logs_ok_def)
    then show ?thesis using i(3) cap by (auto simp: logs_ok_def m(2) store_seq_def sorted_wrt_append)
  qed
  ultimately show ?thesis using sys i(2) by (simp add: mpmc_weak_inv_def store_seq_def)
qed

section \<open>The invariant is kept\<close>

lemma step_sys:
  "mpmc_weak_inv cap s \<Longrightarrow> mpmc_step cap moved (mw_sys s) m \<Longrightarrow> mpmc_inv cap m"
  using mpmc_step_inv mpmc_weak_invD(1) by blast

lemma push_free_cell:
  assumes "mpmc_inv cap s" "mt_pc s i = PushSeq v p p" "mt_enq s = p"
  shows "owned (mt_pc s j) = Some q \<Longrightarrow> q mod cap \<noteq> p mod cap"
proof
  assume own: "owned (mt_pc s j) = Some q" and eq: "q mod cap = p mod cap"
  note i = mpmc_invD [OF assms(1)]
  have "q < p" using owned_window(1) [OF i(6,3) own] assms(3) by simp
  moreover have "mt_seq s (q mod cap) = q \<or> mt_seq s (q mod cap) = Suc q" by (rule owned_seq [OF i(6) own])
  ultimately have "p = Suc q" using push_win_free(1) [OF assms] eq by auto
  with eq mod_apart [of q p cap] i(1) show False by simp
qed

lemma pop_free_cell:
  assumes "mpmc_inv cap s" "mt_pc s i = PopSeq p (Suc p)" "mt_deq s = p"
  shows "owned (mt_pc s j) = Some q \<Longrightarrow> q mod cap \<noteq> p mod cap"
proof
  assume own: "owned (mt_pc s j) = Some q" and eq: "q mod cap = p mod cap"
  note i = mpmc_invD [OF assms(1)] and pub = pop_win_published [OF assms]
  have "mt_seq s (q mod cap) = q \<or> mt_seq s (q mod cap) = Suc q" by (rule owned_seq [OF i(6) own])
  then consider "q = Suc p" | "q = p" using pub(2) eq by auto
  then show False
  proof cases
    case 1
    with eq mod_apart [of p q cap] i(1) show False by simp
  next
    case 2
    with own i(6) [of j] assms(3) pub(2) show False by (cases "mt_pc s j") auto
  qed
qed

lemma seq_load_inv:
  assumes inv: "mpmc_weak_inv cap s" and msg: "(q, known) \<in> set (mw_log s (p mod cap))"
    and pc: "pc_of s i = PushAt v p \<and> c = PushSeq v p q \<or> pc_of s i = PopAt p \<and> c = PopSeq p q"
  shows "mpmc_weak_inv cap (in_sys (goto i c) (load_seq mpmc_code_orders i known s))"
proof -
  note i = mpmc_weak_invD [OF inv]
  have "p mod cap < cap" using mpmc_invD(1) [OF i(1)] by simp
  then have "q \<le> mt_seq (mw_sys s) (p mod cap)"
    using older_message [OF _ _ msg] i(3) by (simp add: logs_ok_def)
  then have "pc_ok cap (mw_sys s) c" using mpmc_invD(6) [OF i(1), of i] pc by auto
  then show ?thesis using pc msg
    by (intro weak_goto_inv [OF inv, of c i]) (auto simp: load_seq_def mpmc_code_orders_def synchronizes_def)
qed

lemma push_win_weak_inv:
  assumes inv: "mpmc_weak_inv cap s" and pc: "pc_of s i = PushSeq v p p" "mt_enq (mw_sys s) = p"
  shows "mpmc_weak_inv cap (in_sys (\<lambda>m. goto i (PushOwn v p) (m\<lparr>mt_enq := Suc p, mt_claimed := mt_claimed m @ [v]\<rparr>)) s)"
    (is "mpmc_weak_inv cap ?t")
proof -
  note i = mpmc_weak_invD [OF inv]
  have cap: "p mod cap < cap" using mpmc_invD(1) [OF i(1)] by simp
  obtain known where known: "(p, known) \<in> set (mw_log s (p mod cap))" "known \<subseteq> mw_knows s i"
    using i(4) [of i] pc by auto
  have seq: "mt_seq (mw_sys s) (p mod cap) = p" by (rule push_win_free(1) [OF i(1) pc])
  show ?thesis
  proof (rule weak_win_inv [OF inv, where c = "PushOwn v p" and i = i and p = p and known = known])
    show "mpmc_inv cap (mw_sys ?t)" using push_win_inv [OF i(1) pc] by simp
    show "\<not> holds cap s j (p mod cap)" for j using push_free_cell [OF i(1) pc, of j] by (auto simp: holds_def)
  qed (use cap known seq pc in simp_all)
qed

lemma pop_win_weak_inv:
  assumes inv: "mpmc_weak_inv cap s" and pc: "pc_of s i = PopSeq p (Suc p)" "mt_deq (mw_sys s) = p"
  shows "mpmc_weak_inv cap (in_sys (\<lambda>m. goto i (PopOwn p) (m\<lparr>mt_deq := Suc p\<rparr>)) s)" (is "mpmc_weak_inv cap ?t")
proof -
  note i = mpmc_weak_invD [OF inv]
  have cap: "p mod cap < cap" using mpmc_invD(1) [OF i(1)] by simp
  obtain known where known: "(Suc p, known) \<in> set (mw_log s (p mod cap))" "known \<subseteq> mw_knows s i"
    using i(4) [of i] pc by auto
  have seq: "mt_seq (mw_sys s) (p mod cap) = Suc p" by (rule pop_win_published(2) [OF i(1) pc])
  show ?thesis
  proof (rule weak_win_inv [OF inv, where c = "PopOwn p" and i = i and p = p and known = known])
    show "mpmc_inv cap (mw_sys ?t)" using pop_win_inv [OF i(1) pc] by simp
    show "\<not> holds cap s j (p mod cap)" for j using pop_free_cell [OF i(1) pc, of j] by (auto simp: holds_def)
  qed (use cap known seq pc in simp_all)
qed

lemma cell_lt: "mpmc_weak_inv cap s \<Longrightarrow> p mod cap < cap"
  using mpmc_invD(1) mpmc_weak_invD(1) by (metis mod_less_divisor not_numeral_le_zero not_gr_zero)

lemma push_data_weak_inv:
  assumes inv: "mpmc_weak_inv cap s" and pc: "pc_of s i = PushOwn v p"
  shows "mpmc_weak_inv cap
    (in_sys (\<lambda>m. goto i (PushStored v p) (m\<lparr>mt_data := (mt_data m)(p mod cap := v)\<rparr>)) (plain_access i (p mod cap) s))"
  using weak_access_inv [OF inv push_data_inv [OF mpmc_weak_invD(1) [OF inv] pc], of i p "PushStored v p"] pc cell_lt [OF inv]
  by (simp add: plain_access_def)

lemma pop_move_weak_inv:
  assumes inv: "mpmc_weak_inv cap s" and pc: "pc_of s i = PopOwn p"
  shows "mpmc_weak_inv cap
    (in_sys (\<lambda>m. goto i (PopMoved (mt_data m (p mod cap)) p) (m\<lparr>mt_data := (mt_data m)(p mod cap := w)\<rparr>)) (plain_access i (p mod cap) s))"
  using weak_access_inv [OF inv pop_move_inv [OF mpmc_weak_invD(1) [OF inv] pc, of w], of i p "PopMoved (mt_data (mw_sys s) (p mod cap)) p"]
    pc cell_lt [OF inv]
  by (simp add: plain_access_def)

lemma push_store_weak_inv:
  assumes inv: "mpmc_weak_inv cap s" and pc: "pc_of s i = PushStored v p"
  shows "mpmc_weak_inv cap
    (in_sys (\<lambda>m. goto i TIdle (m\<lparr>mt_seq := (mt_seq m)(p mod cap := Suc p)\<rparr>)) (store_seq i (p mod cap) (Suc p) s))"
proof -
  note i = mpmc_weak_invD [OF inv]
  have "mt_seq (mw_sys s) (p mod cap) < Suc p" using mpmc_invD(6) [OF i(1), of i] pc by simp
  with weak_release_inv [OF inv push_publish_inv [OF i(1) pc], of i p "Suc p"] pc cell_lt [OF inv] show ?thesis
    by (simp add: store_seq_def)
qed

lemma pop_store_weak_inv:
  assumes inv: "mpmc_weak_inv cap s" and pc: "pc_of s i = PopMoved v p"
  shows "mpmc_weak_inv cap
    (in_sys (\<lambda>m. goto i TIdle (m\<lparr>mt_seq := (mt_seq m)(p mod cap := p + cap), mt_taken := mt_taken m @ [(p, v)]\<rparr>))
      (store_seq i (p mod cap) (p + cap) s))"
proof -
  note i = mpmc_weak_invD [OF inv]
  have "mt_seq (mw_sys s) (p mod cap) < p + cap"
    using mpmc_invD(1) [OF i(1)] mpmc_invD(6) [OF i(1), of i] pc by simp
  with weak_release_inv [OF inv pop_publish_inv [OF i(1) pc], of i p "p + cap"] pc cell_lt [OF inv] show ?thesis
    by (simp add: store_seq_def)
qed

lemma idle_goto_inv:
  assumes "mpmc_weak_inv cap s" "pc_ok cap (mw_sys s) c" "owned c = None" "owned (pc_of s i) = None" "read_from cap (in_sys (goto i c) s) i c"
  shows "mpmc_weak_inv cap (in_sys (goto i c) s)"
  by (rule weak_goto_inv [OF assms(1-4)]) (use assms(5) in simp_all)

lemma mpmc_weak_step_inv [model_inv]:
  "mpmc_weak_step cap mpmc_code_orders moved s t \<Longrightarrow> mpmc_weak_inv cap s \<Longrightarrow> mpmc_weak_inv cap t"
proof (induction rule: mpmc_weak_step.induct)
  case (wk_push_seq s i v p q known)
  then show ?case by (intro seq_load_inv) auto
next
  case (wk_pop_seq s i p q known)
  then show ?case by (intro seq_load_inv) auto
next
  case (wk_push_win s i v p q)
  then show ?case by (intro push_win_weak_inv) simp_all
next
  case (wk_pop_win s i p q)
  then show ?case by (intro pop_win_weak_inv) simp_all
next
  case (wk_push_data s i v p)
  then show ?case by (intro push_data_weak_inv) simp_all
next
  case (wk_pop_move s i p)
  then show ?case by (intro pop_move_weak_inv) simp_all
next
  case (wk_push_publish s i v p)
  then show ?case by (intro push_store_weak_inv) simp_all
next
  case (wk_pop_publish s i v p)
  then show ?case by (intro pop_store_weak_inv) simp_all
qed (rule idle_goto_inv; simp)+

lemma mpmc_weak_start_inv: "mpmc_weak_start cap s \<Longrightarrow> mpmc_weak_inv cap s"
  using mpmc_start_inv [of cap "mw_sys s"]
  by (auto simp: mpmc_weak_start_def mpmc_weak_inv_def logs_ok_def cells_known_def accesses_def latest_def mpmc_start_def)

interpretation mwm: safe_machine "mpmc_weak_start cap" "mpmc_weak_step cap mpmc_code_orders moved" "mpmc_weak_inv cap"
  by unfold_locales (erule mpmc_weak_start_inv, erule (1) mpmc_weak_step_inv [rotated])

section \<open>The ring under its memory orders\<close>


section \<open>What the orders are good for\<close>

definition mw_start :: "nat mpmc_weak" where
  "mw_start = \<lparr>mw_sys = demo0, mw_log = (\<lambda>c. [(c, {})]), mw_knows = (\<lambda>_. {}), mw_access = [], mw_raced = False\<rparr>"

lemma mw_start_ok: "mpmc_weak_start 2 mw_start"
  using demo_start by (simp add: mpmc_weak_start_def mw_start_def)

lemmas mw_eval = mw_start_def demo0_def load_seq_def store_seq_def plain_access_def accesses_def mpmc_code_orders_def
  synchronizes_def

text \<open>A push by one thread and a pop by another, up to the state \<open>demo2\<close>.\<close>

definition mw_done :: "nat mpmc_weak" where
  "mw_done = \<lparr>mw_sys = demo2, mw_log = (\<lambda>c. [(c, {})])(0 := [(0, {}), (1, {0}), (2, {0, 1})]),
     mw_knows = (\<lambda>_. {})(0 := {0}, 1 := {0, 1}), mw_access = [0, 0], mw_raced = False\<rparr>"

lemma mw_run: "(mpmc_weak_step 2 mpmc_code_orders id)\<^sup>*\<^sup>* mw_start (mw_done)"
  apply (rule run_step, rule wk_push_load [where i = 0 and v = 7 and p = 0], simp add: mw_eval, simp add: mw_eval, simp add: mw_eval)
  apply (rule run_step, rule wk_push_seq [where i = 0 and q = 0 and known = "{}"], simp add: mw_eval, simp add: mw_eval, simp add: mw_eval)
  apply (rule run_step, rule wk_push_win [where i = 0], simp add: mw_eval, simp add: mw_eval, simp add: mw_eval, simp add: mw_eval)
  apply (rule run_step, rule wk_push_data [where i = 0], simp add: mw_eval, simp add: mw_eval)
  apply (rule run_step, rule wk_push_publish [where i = 0], simp add: mw_eval, simp add: mw_eval)
  apply (rule run_step, rule wk_pop_load [where i = 1 and p = 0], simp add: mw_eval, simp add: mw_eval, simp add: mw_eval)
  apply (rule run_step, rule wk_pop_seq [where i = 1 and q = 1 and known = "{0}"], simp add: mw_eval, simp add: mw_eval, simp add: mw_eval)
  apply (rule run_step, rule wk_pop_win [where i = 1], simp add: mw_eval, simp add: mw_eval, simp add: mw_eval, simp add: mw_eval)
  apply (rule run_step, rule wk_pop_move [where i = 1], simp add: mw_eval, simp add: mw_eval)
  apply (rule run_step, rule wk_pop_publish [where i = 1], simp add: mw_eval, simp add: mw_eval)
  apply (rule rtranclp_refl_eq, auto simp: mw_done_def demo2_def demo1_def mw_eval fun_eq_iff)
  done


text \<open>
  If the stores and the loads of the sequence do not synchronise, the consumer's move races with the
  producer's write.
\<close>

lemmas mw_race_eval = mw_start_def demo0_def load_seq_def store_seq_def plain_access_def accesses_def

lemma mw_race:
  assumes [simp]: "\<not> synchronizes (fst ord) (snd ord)"
  shows "(mpmc_weak_step 2 ord id)\<^sup>*\<^sup>* mw_start (\<lparr>mw_sys = demo1\<lparr>mt_deq := 1, mt_pc := (\<lambda>_. TIdle)(1 := PopMoved 7 0)\<rparr>, mw_log = (\<lambda>c. [(c, {})])(0 := [(0, {}), (1, {0})]), mw_knows = (\<lambda>_. {})(0 := {0}, 1 := {1}), mw_access = [0, 0], mw_raced = True\<rparr>)"
  apply (rule run_step, rule wk_push_load [where i = 0 and v = 7 and p = 0], simp add: mw_race_eval, simp add: mw_race_eval, simp add: mw_race_eval)
  apply (rule run_step, rule wk_push_seq [where i = 0 and q = 0 and known = "{}"], simp add: mw_race_eval, simp add: mw_race_eval, simp add: mw_race_eval)
  apply (rule run_step, rule wk_push_win [where i = 0], simp add: mw_race_eval, simp add: mw_race_eval, simp add: mw_race_eval, simp add: mw_race_eval)
  apply (rule run_step, rule wk_push_data [where i = 0], simp add: mw_race_eval, simp add: mw_race_eval)
  apply (rule run_step, rule wk_push_publish [where i = 0], simp add: mw_race_eval, simp add: mw_race_eval)
  apply (rule run_step, rule wk_pop_load [where i = 1 and p = 0], simp add: mw_race_eval, simp add: mw_race_eval, simp add: mw_race_eval)
  apply (rule run_step, rule wk_pop_seq [where i = 1 and q = 1 and known = "{0}"], simp add: mw_race_eval, simp add: mw_race_eval, simp add: mw_race_eval)
  apply (rule run_step, rule wk_pop_win [where i = 1], simp add: mw_race_eval, simp add: mw_race_eval, simp add: mw_race_eval, simp add: mw_race_eval)
  apply (rule run_step, rule wk_pop_move [where i = 1], simp add: mw_race_eval, simp add: mw_race_eval)
  apply (rule rtranclp_refl_eq, auto simp: demo1_def mw_race_eval fun_eq_iff)
  done

text \<open>The orders of the code are the only ones, of those that the model has, under which the ring has no data race.\<close>

theorem mpmc_orders_exact:
  "(\<forall>s t :: nat mpmc_weak. mpmc_weak_start 2 s \<longrightarrow> (mpmc_weak_step 2 ord id)\<^sup>*\<^sup>* s t \<longrightarrow> \<not> mw_raced t) \<longleftrightarrow>
     ord = mpmc_code_orders" (is "?safe \<longleftrightarrow> _")
proof
  assume safe: ?safe
  have "synchronizes (fst ord) (snd ord)"
  proof (rule ccontr)
    assume "\<not> synchronizes (fst ord) (snd ord)"
    from safe [rule_format, OF mw_start_ok mw_race [OF this]] show False by simp
  qed
  then show "ord = mpmc_code_orders" by (simp add: prod_eq_iff synchronizes_def mpmc_code_orders_def)
next
  assume "ord = mpmc_code_orders"
  then show ?safe using mwm.reach_inv [of 2] mpmc_weak_invD(2) by blast
qed

end
