(* ===== verification/MpmcWords.thy ===== *)
theory MpmcWords
  imports MpmcThreads
begin

text \<open>
  The MPMC ring under many threads with its positions and sequence numbers at their width: 64-bit
  words that wrap, compared by the signed difference. The unbounded numbers of \<open>MpmcThreads\<close> are a
  sound view of it until \<open>2 ^ 63 - capacity\<close> values have been pushed; what happens where the
  positions wrap is in the last section.
\<close>

section \<open>Threads and steps\<close>

datatype 'a word_pc =
    WIdle
  | WPushAt 'a size_t
  | WPushSeq 'a size_t size_t
  | WPushOwn 'a size_t
  | WPushStored 'a size_t
  | WPopAt size_t
  | WPopSeq size_t size_t
  | WPopOwn size_t
  | WPopMoved 'a size_t

text \<open>
  The values of the exchanges that have won a position to push, in this order, and the values that
  pops have returned are history.
\<close>

record 'a word_sys =
  wq_enq :: size_t
  wq_deq :: size_t
  wq_seq :: "nat \<Rightarrow> size_t"
  wq_data :: "nat \<Rightarrow> 'a"
  wq_pc :: "nat \<Rightarrow> 'a word_pc"
  wq_pushed :: "'a list"
  wq_popped :: "'a list"

definition word_start :: "size_t \<Rightarrow> 'a word_sys \<Rightarrow> bool" where
  "word_start cap s \<longleftrightarrow> 2 \<le> unat cap \<and> wq_enq s = 0 \<and> wq_deq s = 0 \<and> (\<forall>i < unat cap. wq_seq s i = of_nat i) \<and>
     (\<forall>i. wq_pc s i = WIdle) \<and> wq_pushed s = [] \<and> wq_popped s = []"

abbreviation wgoto :: "nat \<Rightarrow> 'a word_pc \<Rightarrow> 'a word_sys \<Rightarrow> 'a word_sys" where
  "wgoto i c s \<equiv> s\<lparr>wq_pc := (wq_pc s)(i := c)\<rparr>"

inductive word_step :: "size_t \<Rightarrow> ('a \<Rightarrow> 'a) \<Rightarrow> 'a word_sys \<Rightarrow> 'a word_sys \<Rightarrow> bool" for cap moved where
  wpush_load: "wq_pc s i = WIdle \<Longrightarrow> word_step cap moved s (wgoto i (WPushAt v (wq_enq s)) s)"
| wpush_seq: "wq_pc s i = WPushAt v p \<Longrightarrow>
     word_step cap moved s (wgoto i (WPushSeq v p (wq_seq s (unat (p mod cap)))) s)"
| wpush_win: "wq_pc s i = WPushSeq v p q \<Longrightarrow> sint q - sint p = 0 \<Longrightarrow> wq_enq s = p \<Longrightarrow>
     word_step cap moved s (wgoto i (WPushOwn v p) (s\<lparr>wq_enq := p + 1, wq_pushed := wq_pushed s @ [v]\<rparr>))"
| wpush_lose: "wq_pc s i = WPushSeq v p q \<Longrightarrow> sint q - sint p = 0 \<Longrightarrow>
     word_step cap moved s (wgoto i (WPushAt v (wq_enq s)) s)"
| wpush_full: "wq_pc s i = WPushSeq v p q \<Longrightarrow> sint q - sint p < 0 \<Longrightarrow> word_step cap moved s (wgoto i WIdle s)"
| wpush_behind: "wq_pc s i = WPushSeq v p q \<Longrightarrow> 0 < sint q - sint p \<Longrightarrow>
     word_step cap moved s (wgoto i (WPushAt v (wq_enq s)) s)"
| wpush_data: "wq_pc s i = WPushOwn v p \<Longrightarrow>
     word_step cap moved s (wgoto i (WPushStored v p) (s\<lparr>wq_data := (wq_data s)(unat (p mod cap) := v)\<rparr>))"
| wpush_publish: "wq_pc s i = WPushStored v p \<Longrightarrow>
     word_step cap moved s (wgoto i WIdle (s\<lparr>wq_seq := (wq_seq s)(unat (p mod cap) := p + 1)\<rparr>))"
| wpop_load: "wq_pc s i = WIdle \<Longrightarrow> word_step cap moved s (wgoto i (WPopAt (wq_deq s)) s)"
| wpop_seq: "wq_pc s i = WPopAt p \<Longrightarrow>
     word_step cap moved s (wgoto i (WPopSeq p (wq_seq s (unat (p mod cap)))) s)"
| wpop_win: "wq_pc s i = WPopSeq p q \<Longrightarrow> sint q - sint (p + 1) = 0 \<Longrightarrow> wq_deq s = p \<Longrightarrow>
     word_step cap moved s (wgoto i (WPopOwn p) (s\<lparr>wq_deq := p + 1\<rparr>))"
| wpop_lose: "wq_pc s i = WPopSeq p q \<Longrightarrow> sint q - sint (p + 1) = 0 \<Longrightarrow>
     word_step cap moved s (wgoto i (WPopAt (wq_deq s)) s)"
| wpop_empty: "wq_pc s i = WPopSeq p q \<Longrightarrow> sint q - sint (p + 1) < 0 \<Longrightarrow> word_step cap moved s (wgoto i WIdle s)"
| wpop_behind: "wq_pc s i = WPopSeq p q \<Longrightarrow> 0 < sint q - sint (p + 1) \<Longrightarrow>
     word_step cap moved s (wgoto i (WPopAt (wq_deq s)) s)"
| wpop_move: "wq_pc s i = WPopOwn p \<Longrightarrow>
     word_step cap moved s (wgoto i (WPopMoved (wq_data s (unat (p mod cap))) p)
       (s\<lparr>wq_data := (wq_data s)(unat (p mod cap) := moved (wq_data s (unat (p mod cap))))\<rparr>))"
| wpop_publish: "wq_pc s i = WPopMoved v p \<Longrightarrow>
     word_step cap moved s (wgoto i WIdle (s\<lparr>wq_seq := (wq_seq s)(unat (p mod cap) := p + cap),
       wq_popped := wq_popped s @ [v]\<rparr>))"

section \<open>The numbers that the words stand for\<close>

fun word_pc_of :: "'a mpmc_pc \<Rightarrow> 'a word_pc" where
  "word_pc_of TIdle = WIdle"
| "word_pc_of (PushAt v p) = WPushAt v (of_nat p)"
| "word_pc_of (PushSeq v p q) = WPushSeq v (of_nat p) (of_nat q)"
| "word_pc_of (PushOwn v p) = WPushOwn v (of_nat p)"
| "word_pc_of (PushStored v p) = WPushStored v (of_nat p)"
| "word_pc_of (PopAt p) = WPopAt (of_nat p)"
| "word_pc_of (PopSeq p q) = WPopSeq (of_nat p) (of_nat q)"
| "word_pc_of (PopOwn p) = WPopOwn (of_nat p)"
| "word_pc_of (PopMoved v p) = WPopMoved v (of_nat p)"

lemma word_pc_of_eq [simp]:
  "word_pc_of c = WIdle \<longleftrightarrow> c = TIdle"
  "word_pc_of c = WPushAt v p \<longleftrightarrow> (\<exists>n. c = PushAt v n \<and> p = of_nat n)"
  "word_pc_of c = WPushSeq v p q \<longleftrightarrow> (\<exists>n m. c = PushSeq v n m \<and> p = of_nat n \<and> q = of_nat m)"
  "word_pc_of c = WPushOwn v p \<longleftrightarrow> (\<exists>n. c = PushOwn v n \<and> p = of_nat n)"
  "word_pc_of c = WPushStored v p \<longleftrightarrow> (\<exists>n. c = PushStored v n \<and> p = of_nat n)"
  "word_pc_of c = WPopAt p \<longleftrightarrow> (\<exists>n. c = PopAt n \<and> p = of_nat n)"
  "word_pc_of c = WPopSeq p q \<longleftrightarrow> (\<exists>n m. c = PopSeq n m \<and> p = of_nat n \<and> q = of_nat m)"
  "word_pc_of c = WPopOwn p \<longleftrightarrow> (\<exists>n. c = PopOwn n \<and> p = of_nat n)"
  "word_pc_of c = WPopMoved v p \<longleftrightarrow> (\<exists>n. c = PopMoved v n \<and> p = of_nat n)"
  by (cases c; auto)+

definition stands_for :: "nat \<Rightarrow> 'a word_sys \<Rightarrow> 'a mpmc_sys \<Rightarrow> bool" where
  "stands_for n w s \<longleftrightarrow> wq_enq w = of_nat (mt_enq s) \<and> wq_deq w = of_nat (mt_deq s) \<and>
     (\<forall>i < n. wq_seq w i = of_nat (mt_seq s i)) \<and> wq_data w = mt_data s \<and> wq_pc w = word_pc_of \<circ> mt_pc s \<and>
     wq_pushed w = mt_claimed s \<and> wq_popped w = map snd (mt_taken s)"

lemma sint_of_nat: "x < 2 ^ 63 \<Longrightarrow> sint (of_nat x :: size_t) = int x"
  by (simp add: sint_small unat_of_nat_small)

lemma sint_of_nat_Suc: "Suc x < 2 ^ 63 \<Longrightarrow> sint (of_nat x + 1 :: size_t) = int x + 1"
  using sint_of_nat [of "Suc x"] by (simp add: add.commute)

lemma of_nat_eq: "x < 2 ^ 63 \<Longrightarrow> y < 2 ^ 63 \<Longrightarrow> (of_nat x :: size_t) = of_nat y \<longleftrightarrow> x = y"
  by (metis sint_of_nat of_nat_eq_iff)

lemma cell_of_nat: "x < 2 ^ 63 \<Longrightarrow> unat ((of_nat x :: size_t) mod cap) = x mod unat cap"
  by (simp add: unat_mod unat_of_nat_small)

text \<open>In the states that are reached, sequence numbers are less than \<open>capacity\<close> ahead of \<open>enqueue_pos_\<close>.\<close>

lemma mod_window_ex:
  fixes n :: nat
  assumes "i < n"
  obtains p where "a \<le> p" "p < a + n" "p mod n = i"
proof
  let ?p = "a + (i + (n - a mod n)) mod n"
  have "?p mod n = (a mod n + (i + (n - a mod n))) mod n" by (simp add: mod_simps)
  also have "a mod n + (i + (n - a mod n)) = i + n" using assms mod_less_divisor [of n a] by linarith
  finally show "?p mod n = i" using assms by simp
qed (use assms in auto)

lemma seq_bound: "mpmc_inv cap s \<Longrightarrow> i < cap \<Longrightarrow> mt_seq s i < mt_enq s + cap"
proof -
  assume inv: "mpmc_inv cap s" and i: "i < cap"
  obtain p where p: "mt_enq s \<le> p" "p < mt_enq s + cap" "p mod cap = i" by (rule mod_window_ex [OF i])
  from mpmc_invD(5) [OF inv p(1,2)] p mpmc_invD(1) [OF inv] show ?thesis by (auto simp: cell_ok_def)
qed

lemma pc_bounds:
  assumes "mpmc_inv cap s" "mt_enq s + cap < 2 ^ 63"
  shows "mt_pc s i = PushAt v p \<Longrightarrow> p < 2 ^ 63" "mt_pc s i = PushSeq v p q \<Longrightarrow> p < 2 ^ 63 \<and> q < 2 ^ 63"
    and "mt_pc s i = PushOwn v p \<Longrightarrow> p < 2 ^ 63" "mt_pc s i = PushStored v p \<Longrightarrow> p < 2 ^ 63"
    and "mt_pc s i = PopAt p \<Longrightarrow> p < 2 ^ 63" "mt_pc s i = PopSeq p q \<Longrightarrow> Suc p < 2 ^ 63 \<and> q < 2 ^ 63"
    and "mt_pc s i = PopOwn p \<Longrightarrow> p < 2 ^ 63" "mt_pc s i = PopMoved v p \<Longrightarrow> p < 2 ^ 63"
  using mpmc_invD(1,3) [OF assms(1)] mpmc_invD(6) [OF assms(1), of i] assms(2)
    seq_bound [OF assms(1), of "p mod cap"] mod_less_divisor [of cap p] by auto

section \<open>Each step of the words is a step of the numbers\<close>

lemma stands_for_pc: "stands_for n w s \<Longrightarrow> wq_pc w i = word_pc_of (mt_pc s i)"
  by (simp add: stands_for_def)

lemma stands_for_goto:
  "stands_for n w s \<Longrightarrow> stands_for n (wgoto i (word_pc_of c) w) (goto i c s)"
  by (simp add: stands_for_def fun_upd_comp)

lemma stands_for_seq:
  "stands_for n w s \<Longrightarrow> k < n \<Longrightarrow> stands_for n (w\<lparr>wq_seq := (wq_seq w)(k := of_nat q)\<rparr>) (s\<lparr>mt_seq := (mt_seq s)(k := q)\<rparr>)"
  by (simp add: stands_for_def)

lemmas stands = stands_for_def fun_upd_comp

lemma word_step_sim:
  assumes "word_step cap moved w w'" "stands_for (unat cap) w s" "mpmc_inv (unat cap) s"
    and "mt_enq s + unat cap < 2 ^ 63"
  shows "\<exists>s'. mpmc_step (unat cap) moved s s' \<and> stands_for (unat cap) w' s'"
proof -
  note pc = stands_for_pc [OF assms(2)] and bounds = pc_bounds [OF assms(3,4)] and inv = mpmc_invD [OF assms(3)]
  have cap: "0 < unat cap" using inv(1) by simp
  have seq: "wq_seq w (p mod unat cap) = of_nat (mt_seq s (p mod unat cap))" for p
    using assms(2) cap by (simp add: stands_for_def)
  have data: "wq_data w = mt_data s" using assms(2) by (simp add: stands_for_def)
  have enq: "wq_enq w = of_nat (mt_enq s)" "wq_deq w = of_nat (mt_deq s)" using assms(2) by (simp_all add: stands_for_def)
  have small: "mt_enq s < 2 ^ 63" "mt_deq s < 2 ^ 63" using assms(4) inv(3) by auto
  from assms(1) show ?thesis
  proof cases
    case (wpush_load i v)
    then have "mt_pc s i = TIdle" using pc [of i] by simp
    from mpmc_step.push_load [of s, OF this] stands_for_goto [OF assms(2), of i "PushAt v (mt_enq s)"] show ?thesis
      unfolding wpush_load(1) by (auto simp: enq)
  next
    case (wpush_seq i v p)
    then obtain n where n: "mt_pc s i = PushAt v n" "p = of_nat n" using pc [of i] by auto
    from mpmc_step.push_seq [of s, OF n(1)]
      stands_for_goto [OF assms(2), of i "PushSeq v n (mt_seq s (n mod unat cap))"] show ?thesis
      unfolding wpush_seq(1) by (auto simp: n(2) cell_of_nat [OF bounds(1) [OF n(1)]] seq)
  next
    case (wpush_win i v p q)
    then obtain n m where n: "mt_pc s i = PushSeq v n m" "p = of_nat n" "q = of_nat m" using pc [of i] by auto
    with wpush_win(3,4) bounds(2) [OF n(1)] have won: "m = n" "mt_enq s = n"
      using of_nat_eq [OF small(1), of n] by (auto simp: sint_of_nat enq)
    show ?thesis unfolding wpush_win(1)
      by (rule exI, rule conjI, rule mpmc_step.push_win [of s, OF n(1) won])
        (use assms(2) in \<open>simp_all add: stands n(2)\<close>)
  next
    case (wpush_lose i v p q)
    then obtain n m where n: "mt_pc s i = PushSeq v n m" "p = of_nat n" "q = of_nat m" using pc [of i] by auto
    with wpush_lose(3) bounds(2) [OF n(1)] have "m = n" by (simp add: sint_of_nat)
    from mpmc_step.push_lose [of s, OF n(1) this] stands_for_goto [OF assms(2), of i "PushAt v (mt_enq s)"] show ?thesis
      unfolding wpush_lose(1) by (auto simp: enq)
  next
    case (wpush_full i v p q)
    then obtain n m where n: "mt_pc s i = PushSeq v n m" "p = of_nat n" "q = of_nat m" using pc [of i] by auto
    with wpush_full(3) bounds(2) [OF n(1)] have "m < n" by (simp add: sint_of_nat)
    from mpmc_step.push_full [of s, OF n(1) this] stands_for_goto [OF assms(2), of i TIdle] show ?thesis
      unfolding wpush_full(1) by auto
  next
    case (wpush_behind i v p q)
    then obtain n m where n: "mt_pc s i = PushSeq v n m" "p = of_nat n" "q = of_nat m" using pc [of i] by auto
    with wpush_behind(3) bounds(2) [OF n(1)] have "n < m" by (simp add: sint_of_nat)
    from mpmc_step.push_behind [of s, OF n(1) this] stands_for_goto [OF assms(2), of i "PushAt v (mt_enq s)"] show ?thesis
      unfolding wpush_behind(1) by (auto simp: enq)
  next
    case (wpush_data i v p)
    then obtain n where n: "mt_pc s i = PushOwn v n" "p = of_nat n" using pc [of i] by auto
    show ?thesis unfolding wpush_data(1)
      by (rule exI, rule conjI, rule mpmc_step.push_data [of s, OF n(1)])
        (use assms(2) in \<open>simp_all add: stands n(2) cell_of_nat [OF bounds(3) [OF n(1)]]\<close>)
  next
    case (wpush_publish i v p)
    then obtain n where n: "mt_pc s i = PushStored v n" "p = of_nat n" using pc [of i] by auto
    show ?thesis unfolding wpush_publish(1)
      by (rule exI, rule conjI, rule mpmc_step.push_publish [of s, OF n(1)])
        (use assms(2) in \<open>simp_all add: stands n(2) cell_of_nat [OF bounds(4) [OF n(1)]]\<close>)
  next
    case (wpop_load i)
    then have "mt_pc s i = TIdle" using pc [of i] by simp
    from mpmc_step.pop_load [of s, OF this] stands_for_goto [OF assms(2), of i "PopAt (mt_deq s)"] show ?thesis
      unfolding wpop_load(1) by (auto simp: enq)
  next
    case (wpop_seq i p)
    then obtain n where n: "mt_pc s i = PopAt n" "p = of_nat n" using pc [of i] by auto
    from mpmc_step.pop_seq [of s, OF n(1)]
      stands_for_goto [OF assms(2), of i "PopSeq n (mt_seq s (n mod unat cap))"] show ?thesis
      unfolding wpop_seq(1) by (auto simp: n(2) cell_of_nat [OF bounds(5) [OF n(1)]] seq)
  next
    case (wpop_win i p q)
    then obtain n m where n: "mt_pc s i = PopSeq n m" "p = of_nat n" "q = of_nat m" using pc [of i] by auto
    with wpop_win(3,4) bounds(6) [OF n(1)] have won: "m = Suc n" "mt_deq s = n"
      using of_nat_eq [OF small(2), of n] by (auto simp: sint_of_nat sint_of_nat_Suc enq)
    show ?thesis unfolding wpop_win(1)
      by (rule exI, rule conjI, rule mpmc_step.pop_win [of s, OF n(1) won])
        (use assms(2) in \<open>simp_all add: stands n(2)\<close>)
  next
    case (wpop_lose i p q)
    then obtain n m where n: "mt_pc s i = PopSeq n m" "p = of_nat n" "q = of_nat m" using pc [of i] by auto
    with wpop_lose(3) bounds(6) [OF n(1)] have "m = Suc n" by (simp add: sint_of_nat sint_of_nat_Suc)
    from mpmc_step.pop_lose [of s, OF n(1) this] stands_for_goto [OF assms(2), of i "PopAt (mt_deq s)"] show ?thesis
      unfolding wpop_lose(1) by (auto simp: enq)
  next
    case (wpop_empty i p q)
    then obtain n m where n: "mt_pc s i = PopSeq n m" "p = of_nat n" "q = of_nat m" using pc [of i] by auto
    with wpop_empty(3) bounds(6) [OF n(1)] have "m < Suc n" by (simp add: sint_of_nat sint_of_nat_Suc)
    from mpmc_step.pop_empty [of s, OF n(1) this] stands_for_goto [OF assms(2), of i TIdle] show ?thesis
      unfolding wpop_empty(1) by auto
  next
    case (wpop_behind i p q)
    then obtain n m where n: "mt_pc s i = PopSeq n m" "p = of_nat n" "q = of_nat m" using pc [of i] by auto
    with wpop_behind(3) bounds(6) [OF n(1)] have "Suc n < m" by (simp add: sint_of_nat sint_of_nat_Suc)
    from mpmc_step.pop_behind [of s, OF n(1) this] stands_for_goto [OF assms(2), of i "PopAt (mt_deq s)"] show ?thesis
      unfolding wpop_behind(1) by (auto simp: enq)
  next
    case (wpop_move i p)
    then obtain n where n: "mt_pc s i = PopOwn n" "p = of_nat n" using pc [of i] by auto
    show ?thesis unfolding wpop_move(1)
      by (rule exI, rule conjI, rule mpmc_step.pop_move [of s, OF n(1)])
        (use assms(2) in \<open>simp_all add: stands n(2) cell_of_nat [OF bounds(7) [OF n(1)]]\<close>)
  next
    case (wpop_publish i v p)
    then obtain n where n: "mt_pc s i = PopMoved v n" "p = of_nat n" using pc [of i] by auto
    show ?thesis unfolding wpop_publish(1)
      by (rule exI, rule conjI, rule mpmc_step.pop_publish [of s, OF n(1)])
        (use assms(2) in \<open>simp_all add: stands n(2) cell_of_nat [OF bounds(8) [OF n(1)]]\<close>)
  qed
qed

section \<open>What the words guarantee\<close>

lemma pushed_grows: "word_step cap moved s t \<Longrightarrow> length (wq_pushed s) \<le> length (wq_pushed t)"
  by (induction rule: word_step.induct) simp_all

definition counting :: "'a word_sys \<Rightarrow> 'a mpmc_sys" where
  "counting w = \<lparr>mt_enq = 0, mt_deq = 0, mt_seq = (\<lambda>i. i), mt_data = wq_data w, mt_pc = (\<lambda>_. TIdle), mt_claimed = [],
     mt_taken = []\<rparr>"

lemma counting_start:
  "word_start cap w \<Longrightarrow> mpmc_start (unat cap) (counting w)"
  "word_start cap w \<Longrightarrow> stands_for (unat cap) w (counting w)"
  by (auto simp: word_start_def mpmc_start_def stands_for_def counting_def fun_eq_iff)

text \<open>An execution of the words is one of the numbers, as long as not too much has been pushed.\<close>

lemma word_run_sim:
  assumes "word_start cap w" "(word_step cap moved)\<^sup>*\<^sup>* w t" "length (wq_pushed t) + unat cap < 2 ^ 63"
  shows "\<exists>m. (mpmc_step (unat cap) moved)\<^sup>*\<^sup>* (counting w) m \<and> stands_for (unat cap) t m"
  using assms(2,3)
proof (induction rule: rtranclp_induct)
  case base
  with counting_start [OF assms(1)] show ?case by blast
next
  case (step t u)
  then obtain m where m: "(mpmc_step (unat cap) moved)\<^sup>*\<^sup>* (counting w) m" "stands_for (unat cap) t m"
    using pushed_grows [OF step(2)] by auto
  have inv: "mpmc_inv (unat cap) m" by (rule mpm.reach_inv [OF counting_start(1) [OF assms(1)] m(1)])
  have "mt_enq m + unat cap < 2 ^ 63"
    using m(2) mpmc_invD(2) [OF inv] pushed_grows [OF step(2)] step.prems by (simp add: stands_for_def)
  from word_step_sim [OF step(2) m(2) inv this] m(1) show ?case by (blast intro: rtranclp.rtrancl_into_rtrancl)
qed

definition word_popping :: "'a word_pc \<Rightarrow> bool" where
  "word_popping c \<longleftrightarrow> (case c of WPopOwn p \<Rightarrow> True | WPopMoved v p \<Rightarrow> True | _ \<Rightarrow> False)"

lemma word_popping_of: "word_popping (word_pc_of c) \<longleftrightarrow> popping c \<noteq> None"
  by (cases c) (simp_all add: word_popping_def)

text \<open>
  C4. With the 64-bit positions and sequence numbers of the code, and any number of threads, nothing is
  lost and nothing is duplicated until \<open>2 ^ 63 - capacity\<close> values have been pushed: every execution
  is one of the ring with unbounded positions, and when no pop is in progress, the values delivered
  so far are, as a multiset, exactly the first \<open>dequeue_pos_\<close> values pushed.
\<close>

theorem mpmc_words_no_loss:
  assumes "word_start cap s" "(word_step cap moved)\<^sup>*\<^sup>* s t" "length (wq_pushed t) + unat cap < 2 ^ 63"
  shows "(\<exists>n m. mpmc_start (unat cap) n \<and> (mpmc_step (unat cap) moved)\<^sup>*\<^sup>* n m \<and> stands_for (unat cap) t m) \<and>
    ((\<forall>i. \<not> word_popping (wq_pc t i)) \<longrightarrow> mset (wq_popped t) = mset (take (unat (wq_deq t)) (wq_pushed t)))"
proof -
  note start = counting_start(1) [OF assms(1)]
  obtain m where m: "(mpmc_step (unat cap) moved)\<^sup>*\<^sup>* (counting s) m" "stands_for (unat cap) t m"
    using word_run_sim [OF assms] by blast
  have inv: "mpmc_inv (unat cap) m" by (rule mpm.reach_inv [OF start m(1)])
  have "mset (wq_popped t) = mset (take (unat (wq_deq t)) (wq_pushed t))" if "\<forall>i. \<not> word_popping (wq_pc t i)"
  proof -
    have "\<forall>i. popping (mt_pc m i) = None" using that m(2) by (simp add: stands_for_pc word_popping_of)
    moreover have "mt_deq m < 2 ^ 64" using mpmc_invD(2,3) [OF inv] m(2) assms(3) by (simp add: stands_for_def)
    ultimately show ?thesis
      using finished_pops [OF inv] m(2) by (simp add: stands_for_def unat_of_nat_small)
  qed
  with start m show ?thesis by blast
qed

text \<open>One thread pushes a value and another pops it.\<close>

definition words0 :: "nat word_sys" where
  "words0 = \<lparr>wq_enq = 0, wq_deq = 0, wq_seq = of_nat, wq_data = (\<lambda>_. 0), wq_pc = (\<lambda>_. WIdle), wq_pushed = [], wq_popped = []\<rparr>"

definition words1 :: "nat word_sys" where
  "words1 = words0\<lparr>wq_enq := 1, wq_deq := 1, wq_pushed := [7], wq_popped := [7], wq_data := (\<lambda>_. 0)(0 := 7),
     wq_seq := of_nat(0 := 2)\<rparr>"

lemma words_start: "word_start 2 words0"
  by (simp add: word_start_def words0_def)

lemma words_run: "(word_step 2 id)\<^sup>*\<^sup>* words0 words1"
  unfolding words0_def words1_def
  apply (rule run_step, rule wpush_load [where i = 0 and v = 7], simp, simp)
  apply (rule run_step, rule wpush_seq [where i = 0], simp, simp)
  apply (rule run_step, rule wpush_win [where i = 0], simp, simp, simp, simp)
  apply (rule run_step, rule wpush_data [where i = 0], simp, simp)
  apply (rule run_step, rule wpush_publish [where i = 0], simp, simp)
  apply (rule run_step, rule wpop_load [where i = 1], simp, simp)
  apply (rule run_step, rule wpop_seq [where i = 1], simp, simp)
  apply (rule run_step, rule wpop_win [where i = 1], simp, simp, simp, simp)
  apply (rule run_step, rule wpop_move [where i = 1], simp, simp)
  apply (rule run_step, rule wpop_publish [where i = 1], simp, simp)
  apply (rule rtranclp_refl_eq, auto simp: fun_eq_iff)
  done

theorem mpmc_words_no_loss_witness: "mset (wq_popped words1) = {#7#}"
  using conjunct2 [OF mpmc_words_no_loss [OF words_start words_run]]
  by (simp add: words1_def words0_def word_popping_def)

section \<open>Where the positions wrap\<close>

text \<open>
  The ring of three cells, empty, with both positions at \<open>k\<close>. The cell of a position is the position
  modulo three, and three does not divide \<open>2 ^ 64\<close>: behind the last position, the cell of position 0
  is again the one just used.
\<close>

definition ring_at :: "nat \<Rightarrow> 'a mpmc \<Rightarrow> bool" where
  "ring_at k q \<longleftrightarrow> mq_capacity q = 3 \<and> mq_enqueue_pos q = of_nat k \<and> mq_dequeue_pos q = of_nat k \<and>
     length (mq_buffer q) = 3 \<and> (\<forall>p. k \<le> p \<and> p < k + 3 \<longrightarrow> mc_sequence (mq_buffer q ! (p mod 3)) = of_nat p)"

lemma index_three: "k < 2 ^ 64 \<Longrightarrow> mq_capacity q = 3 \<Longrightarrow> mq_index q (of_nat k) = k mod 3"
  by (simp add: mq_index_nat unat_of_nat_small)

text \<open>A push and a pop take the ring to the next position.\<close>

lemma ring_turn:
  assumes "ring_at k q" "k < 2 ^ 64" "settles spur"
  shows "\<exists>q1 q2. mpmc_try_push spur v q = Some (Inr (True, q1)) \<and> mpmc_try_pop spur mv q1 = Some (Inr (Some v, q2)) \<and>
    ring_at (Suc k) q2"
proof -
  obtain m where m: "\<not> spur m" using assms(3) by (auto simp: settles_def)
  note ring = assms(1) [unfolded ring_at_def]
  have ix: "mq_index q (of_nat k) = k mod 3" using index_three assms(2) ring by blast
  have cell: "k mod 3 < length (mq_buffer q)" using ring by simp
  have seq: "mc_sequence (mq_buffer q ! (k mod 3)) = of_nat k" using ring by simp
  let ?q1 = "mpmc_after_push v q"
  let ?q2 = "mpmc_after_pop mv ?q1"
  have q1: "mq_capacity ?q1 = 3" "mq_dequeue_pos ?q1 = of_nat k" "mq_index ?q1 (of_nat k) = k mod 3"
    "mq_buffer ?q1 = (mq_buffer q)[k mod 3 := \<lparr>mc_sequence = of_nat k + 1, mc_data = v\<rparr>]"
    using ring ix by (simp_all add: mpmc_after_push_def mq_index_def)
  have "mpmc_try_push spur v q = Some (Inr (True, ?q1))"
    unfolding mpmc_try_push_def
    by (rule mpmc_push_loop_wins [where m = m]) (use ring ix seq m in \<open>simp_all add: mq_cell_def\<close>)
  moreover have "mpmc_try_pop spur mv ?q1 = Some (Inr (Some v, ?q2))"
    using mpmc_pop_loop_wins [of ?q1 0 m spur mv] q1 cell m by (simp add: mpmc_try_pop_def mq_cell_def)
  moreover have "ring_at (Suc k) ?q2"
  proof -
    have q2: "mq_buffer ?q2 = (mq_buffer q)[k mod 3 := \<lparr>mc_sequence = of_nat (k + 3), mc_data = mv v\<rparr>]"
      using q1 cell by (simp add: mpmc_after_pop_def mq_cell_def)
    have "mc_sequence (mq_buffer ?q2 ! (p mod 3)) = of_nat p" if "Suc k \<le> p" "p < Suc k + 3" for p
    proof (cases "p = k + 3")
      case True
      then show ?thesis using cell by (simp add: q2)
    next
      case False
      with that have "k < p" "p < k + 3" by auto
      then have "p mod 3 \<noteq> k mod 3" using mod_apart [of k p 3] by simp
      then show ?thesis using ring that False by (simp add: q2)
    qed
    moreover have "mq_capacity ?q2 = 3" "mq_enqueue_pos ?q2 = of_nat (Suc k)" "mq_dequeue_pos ?q2 = of_nat (Suc k)"
      "length (mq_buffer ?q2) = 3"
      using ring by (simp_all add: mpmc_after_pop_def mpmc_after_push_def)
    ultimately show ?thesis by (simp add: ring_at_def)
  qed
  ultimately show ?thesis by blast
qed

text \<open>
  Any number of turns, each of one push and one pop of the value \<open>v\<close>, from the new ring.
\<close>

inductive turns :: "(nat \<Rightarrow> bool) \<Rightarrow> ('a \<Rightarrow> 'a) \<Rightarrow> 'a \<Rightarrow> nat \<Rightarrow> 'a mpmc \<Rightarrow> 'a mpmc \<Rightarrow> bool" for spur mv v where
  no_turn: "turns spur mv v 0 q q"
| a_turn: "turns spur mv v k q r \<Longrightarrow> mpmc_try_push spur v r = Some (Inr (True, r1)) \<Longrightarrow>
     mpmc_try_pop spur mv r1 = Some (Inr (Some v, r2)) \<Longrightarrow> turns spur mv v (Suc k) q r2"

lemma turns_ring_at:
  assumes "settles spur" "k \<le> 2 ^ 64"
  shows "\<exists>q. turns spur mv v k (mpmc_new 3 d) q \<and> ring_at k q"
  using assms(2)
proof (induction k)
  case 0
  have "p mod 3 = p" if "p < 3" for p :: nat using that by simp
  then have "ring_at 0 (mpmc_new 3 d)" by (simp add: ring_at_def mpmc_new_def)
  then show ?case by (blast intro: no_turn)
next
  case (Suc k)
  then obtain q where q: "turns spur mv v k (mpmc_new 3 d) q" "ring_at k q" by auto
  from ring_turn [OF q(2) _ assms(1), of v mv] Suc.prems obtain q1 q2 where
    "mpmc_try_push spur v q = Some (Inr (True, q1))" "mpmc_try_pop spur mv q1 = Some (Inr (Some v, q2))"
    "ring_at (Suc k) q2" by auto
  with q(1) show ?case by (blast intro: a_turn)
qed

lemma ring_at_top:
  assumes "ring_at (2 ^ 64 - 1) q"
  obtains c0 c1 c2 where "mq_buffer q = [c0, c1, c2]" "mc_sequence c0 = -1"
    and "mq_capacity q = 3" "mq_enqueue_pos q = -1" "mq_dequeue_pos q = -1"
proof -
  define k :: nat where "k = 2 ^ 64 - 1"
  have k: "(of_nat k :: size_t) = -1" "k mod 3 = 0" by (simp_all add: k_def)
  have ring: "ring_at k q" unfolding k_def by (rule assms)
  then have "length (mq_buffer q) = 3" by (simp add: ring_at_def)
  then obtain c0 c1 c2 where cells: "mq_buffer q = [c0, c1, c2]" by (auto simp: length_Suc_conv numeral_3_eq_3)
  have "mc_sequence (mq_buffer q ! (k mod 3)) = of_nat k" using ring unfolding ring_at_def by simp
  then have "mc_sequence c0 = -1" by (simp add: cells k)
  moreover have "mq_capacity q = 3" "mq_enqueue_pos q = -1" "mq_dequeue_pos q = -1"
    using ring k(1) by (simp_all add: ring_at_def)
  ultimately show ?thesis using that cells by blast
qed

lemma index_ends: "mq_capacity q = 3 \<Longrightarrow> mq_index q (-1) = 0" "mq_capacity q = 3 \<Longrightarrow> mq_index q 0 = 0"
  by (simp_all add: mq_index_def)

text \<open>
  After \<open>2 ^ 64 - 1\<close> turns, a ring of capacity three is broken: of two pushes in a row, the second
  overwrites the value of the first, \<open>size\<close> says that the ring is empty, and the next pop never
  returns.
\<close>

theorem mpmc_wrap_breaks:
  assumes "settles spur"
  shows "\<exists>q q1 q2. turns spur mv v (2 ^ 64 - 1) (mpmc_new 3 d) q \<and> mpmc_try_push spur a q = Some (Inr (True, q1)) \<and>
    mpmc_try_push spur b q1 = Some (Inr (True, q2)) \<and> mc_data (hd (mq_buffer q2)) = b \<and>
    tl (mq_buffer q2) = tl (mq_buffer q) \<and> mpmc_size q2 = 0 \<and> mpmc_try_pop spur mv q2 = None"
proof -
  obtain m where m: "\<not> spur m" using assms by (auto simp: settles_def)
  obtain q where q: "turns spur mv v (2 ^ 64 - 1) (mpmc_new 3 d) q" "ring_at (2 ^ 64 - 1) q"
    using turns_ring_at [OF assms, of "2 ^ 64 - 1" mv v d] by auto
  obtain c0 c1 c2 where cells: "mq_buffer q = [c0, c1, c2]" "mc_sequence c0 = -1"
    and pos: "mq_capacity q = 3" "mq_enqueue_pos q = -1" "mq_dequeue_pos q = -1"
    using ring_at_top [OF q(2)] by metis
  let ?q1 = "q\<lparr>mq_enqueue_pos := 0, mq_buffer := [\<lparr>mc_sequence = 0, mc_data = a\<rparr>, c1, c2]\<rparr>"
  let ?q2 = "q\<lparr>mq_enqueue_pos := 1, mq_buffer := [\<lparr>mc_sequence = 1, mc_data = b\<rparr>, c1, c2]\<rparr>"
  have "mpmc_try_push spur a q = Some (Inr (True, ?q1))"
    using mpmc_push_loop_wins [of q 0 m spur a] m pos cells(2)
    by (simp add: mpmc_try_push_def mq_cell_def index_ends cells(1) mpmc_after_push_def)
  moreover have "mpmc_try_push spur b ?q1 = Some (Inr (True, ?q2))"
    using mpmc_push_loop_wins [of ?q1 0 m spur b] m pos
    by (simp add: mpmc_try_push_def mq_cell_def index_ends mpmc_after_push_def)
  moreover have "mpmc_try_pop spur mv ?q2 = None"
    using mpmc_pop_spins [of ?q2 spur mv 0] pos by (simp add: mpmc_try_pop_def mq_cell_def index_ends)
  moreover have "mpmc_size ?q2 = 0" using pos by (simp add: mpmc_size_def word_le_nat_alt unsigned_minus_1_eq_mask mask_eq_exp_minus_1)
  moreover have "mc_data (hd (mq_buffer ?q2)) = b" "tl (mq_buffer ?q2) = tl (mq_buffer q)" by (simp_all add: cells(1))
  ultimately show ?thesis using q(1) by blast
qed

theorem mpmc_wrap_breaks_witness:
  "\<exists>q q1 q2. turns even id (5::nat) (2 ^ 64 - 1) (mpmc_new 3 0) q \<and> mpmc_try_push even 7 q = Some (Inr (True, q1)) \<and>
    mpmc_try_push even 8 q1 = Some (Inr (True, q2)) \<and> mpmc_try_pop even id q2 = None"
  using mpmc_wrap_breaks [OF settles_even, of id 5 0 7 8] by blast

end
