(* ===== verification/NetworkBridge.thy ===== *)
theory NetworkBridge
  imports BagFormat Discovery
begin

text \<open>
  \<open>examples/example_network_bridge.cpp\<close>: a sender of numbered packets, a bridge that forwards
  datagrams, and a receiver that counts gaps in the numbering. The answers of the sockets and the
  clock are arguments; the figures printed at the end are in \<open>ProgramReports\<close>.
\<close>

section \<open>Packets\<close>

definition PACKET_SIZE :: nat where "PACKET_SIZE = 1024"
definition NUM_PACKETS :: nat where "NUM_PACKETS = 10000"

definition payload_room :: nat where
  "payload_room = PACKET_SIZE - 4 * 2 - 8"

record data_packet =
  dp_sequence :: u32
  dp_timestamp :: u64
  dp_payload_size :: u32
  dp_payload :: bytes

text \<open>
  The memory of a packet, which is what is sent: \<open>timestamp\<close> is aligned to 8 bytes and the size
  is rounded up to a multiple of 8, so there are two gaps of 4 bytes, \<open>pad1\<close> and \<open>pad2\<close>, and a
  packet has 1032 bytes rather than \<open>PACKET_SIZE\<close>.
\<close>

definition sizeof_packet :: nat where "sizeof_packet = 1032"

definition packet_bytes :: "bytes \<Rightarrow> bytes \<Rightarrow> data_packet \<Rightarrow> bytes" where
  "packet_bytes pad1 pad2 p = write_u32 (dp_sequence p) @ pad1 @ write_u64 (dp_timestamp p) @
     write_u32 (dp_payload_size p) @ dp_payload p @ pad2"

text \<open>
  Receiving into a zeroed packet: the datagram overwrites its first bytes, and what does not fit
  is cut off. Nothing looks at the number of bytes received.
\<close>

definition packet_image :: "bytes \<Rightarrow> bytes" where
  "packet_image d = take sizeof_packet d @ replicate (sizeof_packet - length d) 0"

definition packet_parse :: "bytes \<Rightarrow> data_packet" where
  "packet_parse d = (let m = packet_image d in
     \<lparr>dp_sequence = of_nat (le_value (take 4 m)), dp_timestamp = of_nat (le_value (take 8 (drop 8 m))),
      dp_payload_size = of_nat (le_value (take 4 (drop 16 m))), dp_payload = take payload_room (drop 20 m)\<rparr>)"

section \<open>Sender\<close>

definition packet_text :: "nat \<Rightarrow> string" where
  "packet_text i = ''Test data packet #'' @ show_nat i"

text \<open>\<open>snprintf\<close> into the zeroed payload; its result is the length of the whole text.\<close>

definition make_packet :: "u64 \<Rightarrow> nat \<Rightarrow> data_packet" where
  "make_packet now i = (let t = map (\<lambda>c. of_nat (of_char c)) (take (payload_room - 1) (packet_text i)) in
     \<lparr>dp_sequence = of_nat i, dp_timestamp = now, dp_payload_size = of_nat (length (packet_text i)),
      dp_payload = t @ replicate (payload_room - length t) 0\<rparr>)"

text \<open>
  The loop of \<open>run_sender\<close> from packet \<open>i\<close> with \<open>k\<close> to go: \<open>go i\<close> is \<open>g_running\<close> at the test, \<open>ok i\<close>
  the success of \<open>sendto\<close>, \<open>clock i\<close> the time. The result are the datagrams that were sent.
\<close>

fun sender_loop :: "(nat \<Rightarrow> bool) \<Rightarrow> (nat \<Rightarrow> bool) \<Rightarrow> (nat \<Rightarrow> u64) \<Rightarrow> bytes \<Rightarrow> bytes \<Rightarrow> nat \<Rightarrow> nat \<Rightarrow> bytes list" where
  "sender_loop go ok clock pad1 pad2 i 0 = []"
| "sender_loop go ok clock pad1 pad2 i (Suc k) =
     (if \<not> go i then []
      else if \<not> ok i then []
      else packet_bytes pad1 pad2 (make_packet (clock i) i) # sender_loop go ok clock pad1 pad2 (i + 1) k)"

definition run_sender where
  "run_sender go ok clock pad1 pad2 = sender_loop go ok clock pad1 pad2 0 NUM_PACKETS"

section \<open>Bridge\<close>

text \<open>One return of \<open>recvfrom\<close>: a datagram, an interruption by a signal, or another error.\<close>

datatype 'd received = Datagram 'd | Interrupted | ReceiveFailed

text \<open>
  The loop of \<open>run_bridge\<close> over the returns of \<open>recvfrom\<close>, each with the success of the following
  \<open>sendto\<close>; the list ends when \<open>g_running\<close> is cleared. The result are the forwarded datagrams and
  their counter.
\<close>

fun bridge_loop :: "(bytes received \<times> bool) list \<Rightarrow> bytes list \<times> nat" where
  "bridge_loop [] = ([], 0)"
| "bridge_loop ((Datagram d, ok) # es) =
     (let (out, n) = bridge_loop es in if ok then (take 2048 d # out, n + 1) else (out, n))"
| "bridge_loop ((Interrupted, _) # es) = bridge_loop es"
| "bridge_loop ((ReceiveFailed, _) # es) = ([], 0)"

text \<open>The sockets of \<open>run_bridge\<close>: exit code 1 when one cannot be made or bound.\<close>

definition run_bridge :: "bool \<Rightarrow> bool \<Rightarrow> bool \<Rightarrow> (bytes received \<times> bool) list \<Rightarrow> int \<times> bytes list \<times> nat" where
  "run_bridge sock1 bound sock2 es =
     (if \<not> sock1 then (1, [], 0) else if \<not> bound then (1, [], 0) else if \<not> sock2 then (1, [], 0)
      else (0, bridge_loop es))"

section \<open>Receiver\<close>

record receipt =
  rc_received :: nat
  rc_errors :: nat
  rc_last_seq :: u32
  rc_total_latency :: u64

definition receipt_new :: receipt where
  "receipt_new = \<lparr>rc_received = 0, rc_errors = 0, rc_last_seq = 0, rc_total_latency = 0\<rparr>"

definition receive_packet :: "u64 \<Rightarrow> data_packet \<Rightarrow> receipt \<Rightarrow> receipt" where
  "receive_packet now p r =
     \<lparr>rc_received = rc_received r + 1,
      rc_errors = (if dp_sequence p \<noteq> rc_last_seq r + 1 \<and> 0 < rc_received r then rc_errors r + 1 else rc_errors r),
      rc_last_seq = dp_sequence p,
      rc_total_latency = rc_total_latency r + (now - dp_timestamp p)\<rparr>"

text \<open>
  The loop of \<open>run_receiver\<close> over the returns of \<open>recvfrom\<close>, each with the time; it stops by itself
  after \<open>NUM_PACKETS\<close> packets.
\<close>

fun receiver_loop :: "(bytes received \<times> u64) list \<Rightarrow> receipt \<Rightarrow> receipt" where
  "receiver_loop [] r = r"
| "receiver_loop ((Datagram d, now) # es) r =
     (let r' = receive_packet now (packet_parse d) r in if NUM_PACKETS \<le> rc_received r' then r' else receiver_loop es r')"
| "receiver_loop ((Interrupted, _) # es) r = receiver_loop es r"
| "receiver_loop ((ReceiveFailed, _) # es) r = r"

definition run_receiver :: "bool \<Rightarrow> bool \<Rightarrow> (bytes received \<times> u64) list \<Rightarrow> int \<times> receipt" where
  "run_receiver sock bound es =
     (if \<not> sock then (1, receipt_new) else if \<not> bound then (1, receipt_new) else (0, receiver_loop es receipt_new))"

text \<open>The command line: \<open>Inl\<close> is an exit code or the exception of \<open>std::stoi\<close>.\<close>

datatype bridge_role = Sender | Bridge string int | Receiver int

definition bridge_main :: "string list \<Rightarrow> (int + conv_error) + bridge_role" where
  "bridge_main args =
     (case args of
        [] \<Rightarrow> Inl (Inl 1)
      | role # rest \<Rightarrow>
          if role = ''sender'' then Inr Sender
          else if role = ''bridge'' then
            (case rest of [ip, port] \<Rightarrow> (case stoi port of Inl e \<Rightarrow> Inl (Inr e) | Inr n \<Rightarrow> Inr (Bridge ip n))
             | _ \<Rightarrow> Inl (Inl 1))
          else if role = ''receiver'' then
            (case rest of [port] \<Rightarrow> (case stoi port of Inl e \<Rightarrow> Inl (Inr e) | Inr n \<Rightarrow> Inr (Receiver n)) | _ \<Rightarrow> Inl (Inl 1))
          else Inl (Inl 1))"

section \<open>A packet survives its journey\<close>

definition packet_ok :: "data_packet \<Rightarrow> bool" where
  "packet_ok p \<longleftrightarrow> length (dp_payload p) = payload_room"

lemma payload_room_eq [simp]: "payload_room = 1008"
  by (simp add: payload_room_def PACKET_SIZE_def)

lemma make_packet_ok [simp]: "packet_ok (make_packet now i)"
  by (simp add: packet_ok_def make_packet_def Let_def)

lemma length_packet_bytes:
  "packet_ok p \<Longrightarrow> length pad1 = 4 \<Longrightarrow> length pad2 = 4 \<Longrightarrow> length (packet_bytes pad1 pad2 p) = sizeof_packet"
  by (simp add: packet_bytes_def packet_ok_def sizeof_packet_def)

lemma packet_parse_bytes:
  assumes "packet_ok p" "length pad1 = 4" "length pad2 = 4"
  shows "packet_parse (packet_bytes pad1 pad2 p) = p"
proof -
  have image: "packet_image (packet_bytes pad1 pad2 p) = packet_bytes pad1 pad2 p"
    using length_packet_bytes [OF assms] by (simp add: packet_image_def)
  show ?thesis
    using assms by (intro data_packet.equality) (simp_all add: packet_parse_def Let_def image, simp_all add: packet_bytes_def packet_ok_def)
qed

section \<open>End to end\<close>

text \<open>How often a packet does not directly follow the one before it.\<close>

fun gaps :: "nat list \<Rightarrow> nat" where
  "gaps (k # k' # ks) = of_bool (k' \<noteq> k + 1) + gaps (k' # ks)"
| "gaps _ = 0"

definition packet_at :: "(nat \<Rightarrow> u64) \<Rightarrow> bytes \<Rightarrow> bytes \<Rightarrow> nat \<Rightarrow> bytes" where
  "packet_at clock pad1 pad2 i = packet_bytes pad1 pad2 (make_packet (clock i) i)"

lemma sender_loop_all:
  "sender_loop (\<lambda>_. True) (\<lambda>_. True) clock pad1 pad2 i k = map (packet_at clock pad1 pad2) [i..<i + k]"
proof (induction k arbitrary: i)
  case (Suc k)
  have "[i..<i + Suc k] = i # [Suc i..<Suc i + k]" by (simp add: upt_conv_Cons)
  with Suc show ?case by (simp add: packet_at_def)
qed simp

lemma bridge_loop_all:
  assumes "\<forall>d \<in> set ds. length d \<le> 2048"
  shows "bridge_loop (map (\<lambda>d. (Datagram d, True)) ds) = (ds, length ds)"
  using assms by (induction ds) simp_all

lemma next_sequence: "k < NUM_PACKETS \<Longrightarrow> k' < NUM_PACKETS \<Longrightarrow> (of_nat k' = (of_nat k + 1 :: u32)) \<longleftrightarrow> k' = k + 1"
  using of_nat_word_inj [where 'a = 32, of k' "k + 1"] by (auto simp: NUM_PACKETS_def)

lemma receive_packet_at:
  assumes "length pad1 = 4" "length pad2 = 4"
  shows "receive_packet now (packet_parse (packet_at clock pad1 pad2 k)) r =
    \<lparr>rc_received = rc_received r + 1,
     rc_errors = rc_errors r + of_bool (of_nat k \<noteq> rc_last_seq r + 1 \<and> 0 < rc_received r),
     rc_last_seq = of_nat k, rc_total_latency = rc_total_latency r + (now - clock k)\<rparr>"
proof -
  have "packet_parse (packet_at clock pad1 pad2 k) = make_packet (clock k) k"
    using assms by (simp add: packet_at_def packet_parse_bytes)
  then show ?thesis by (simp add: receive_packet_def make_packet_def Let_def)
qed

lemma receiver_loop_packets:
  assumes "length pad1 = 4" "length pad2 = 4" "\<forall>k \<in> set (k0 # ks). k < NUM_PACKETS"
    and "rc_received r + length ks \<le> NUM_PACKETS" "0 < rc_received r" "rc_last_seq r = of_nat k0" "length nows = length ks"
  shows "receiver_loop (map (\<lambda>(k, now). (Datagram (packet_at clock pad1 pad2 k), now)) (zip ks nows)) r =
    \<lparr>rc_received = rc_received r + length ks, rc_errors = rc_errors r + gaps (k0 # ks),
     rc_last_seq = of_nat (last (k0 # ks)),
     rc_total_latency = rc_total_latency r + (\<Sum>(k, now) \<leftarrow> zip ks nows. now - clock k)\<rparr>"
  using assms(3-7)
proof (induction ks arbitrary: k0 r nows)
  case Nil
  then show ?case by simp
next
  case (Cons k ks)
  then obtain t ts where nows: "nows = t # ts" "length ts = length ks" by (cases nows) auto
  let ?r = "receive_packet t (packet_parse (packet_at clock pad1 pad2 k)) r"
  have r: "?r = \<lparr>rc_received = rc_received r + 1, rc_errors = rc_errors r + of_bool (k \<noteq> k0 + 1),
      rc_last_seq = of_nat k, rc_total_latency = rc_total_latency r + (t - clock k)\<rparr>"
    using Cons.prems next_sequence [of k0 k] by (simp add: receive_packet_at [OF assms(1,2)])
  show ?case
  proof (cases "NUM_PACKETS \<le> rc_received r + 1")
    case True
    with Cons.prems(2) have "length ks = 0" by (simp del: length_0_conv)
    with True nows show ?thesis by (simp add: Let_def r)
  next
    case False
    with Cons.IH [of k ?r ts] Cons.prems nows show ?thesis by (simp add: Let_def r add.assoc)
  qed
qed

text \<open>What the receiver has counted when packets \<open>ks\<close> have arrived.\<close>

lemma receiver_all:
  assumes "length pad1 = 4" "length pad2 = 4" "\<forall>k \<in> set ks. k < NUM_PACKETS" "length ks \<le> NUM_PACKETS"
    and "length nows = length ks"
  shows "\<exists>last_seq. receiver_loop (map (\<lambda>(d, now). (Datagram d, now)) (zip (map (packet_at clock pad1 pad2) ks) nows)) receipt_new =
      \<lparr>rc_received = length ks, rc_errors = gaps ks, rc_last_seq = last_seq,
       rc_total_latency = (\<Sum>(k, now) \<leftarrow> zip ks nows. now - clock k)\<rparr>"
proof (cases ks)
  case Nil
  then show ?thesis by (simp add: receipt_new_def)
next
  case (Cons k ks')
  with assms(5) obtain t ts where nows: "nows = t # ts" "length ts = length ks'" by (cases nows) auto
  let ?r = "receive_packet t (packet_parse (packet_at clock pad1 pad2 k)) receipt_new"
  have r: "?r = \<lparr>rc_received = 1, rc_errors = 0, rc_last_seq = of_nat k, rc_total_latency = t - clock k\<rparr>"
    by (simp add: receive_packet_at [OF assms(1,2)] receipt_new_def)
  have "\<not> NUM_PACKETS \<le> 1" by (simp add: NUM_PACKETS_def)
  moreover have "receiver_loop (map (\<lambda>(k, now). (Datagram (packet_at clock pad1 pad2 k), now)) (zip ks' ts)) ?r =
    \<lparr>rc_received = 1 + length ks', rc_errors = gaps ks, rc_last_seq = of_nat (last ks),
     rc_total_latency = (\<Sum>(k, now) \<leftarrow> zip ks nows. now - clock k)\<rparr>"
    using receiver_loop_packets [OF assms(1,2), of k ks' ?r ts clock] assms(3,4) nows Cons by (simp add: r)
  ultimately show ?thesis
    using nows Cons by (simp add: Let_def r zip_map1 o_def case_prod_beta')
qed



text \<open>What is lost at either end of a run is not seen.\<close>

lemma gaps_upt: "gaps [a..<b] = 0"
proof (induction "b - a" arbitrary: a)
  case (Suc n)
  then have "[a..<b] = a # [Suc a..<b]" by (simp add: upt_conv_Cons)
  moreover have "gaps [Suc a..<b] = 0" using Suc by (intro Suc.hyps) simp
  moreover have "[Suc a..<b] = [] \<or> [Suc a..<b] = Suc a # [Suc (Suc a)..<b]"
    by (cases "Suc a < b") (simp_all add: upt_conv_Cons)
  ultimately show ?case by auto
qed simp

text \<open>An empty datagram counts as a packet with number 0.\<close>

lemma empty_datagram_counts:
  "receiver_loop [(Datagram [], now)] receipt_new =
     \<lparr>rc_received = 1, rc_errors = 0, rc_last_seq = 0, rc_total_latency = now\<rparr>"
proof -
  have z: "le_value (replicate n 0) = 0" for n by (induction n) simp_all
  show ?thesis
    by (simp add: packet_parse_def packet_image_def Let_def z receive_packet_def receipt_new_def NUM_PACKETS_def
        sizeof_packet_def)
qed

end
