(* ===== verification/StressTest.thy ===== *)
theory StressTest
  imports Discovery Interfaces
begin

text \<open>
  \<open>examples/example_ipc_stress.cpp\<close>: a producer and a consumer process that share a segment of
  slots and hand over one slot at a time with two named semaphores. The two processes are
  interleaved step by step; a step is one access to the shared memory or to a semaphore. A signal only
  clears \<open>g_running\<close> of its process: as handlers installed by \<open>signal\<close> do on Linux, it lets an interrupted
  \<open>sem_wait\<close> go on waiting. The figures printed at the end are in \<open>ProgramReports\<close>, the other output is not modelled.
\<close>

section \<open>The shared segment and the two processes\<close>

definition SHM_SIZE :: nat where "SHM_SIZE = 10 * 1024 * 1024"
definition MSG_SIZE :: nat where "MSG_SIZE = 1024"
definition NUM_MESSAGES :: nat where "NUM_MESSAGES = 100000"

definition slot_count :: nat where
  "slot_count = SHM_SIZE div MSG_SIZE"

text \<open>What \<open>snprintf\<close> writes for message \<open>i\<close>: the text, cut to \<open>MSG_SIZE - 1\<close> characters.\<close>

definition message_text :: "nat \<Rightarrow> string" where
  "message_text i = take (MSG_SIZE - 1) (''Message #'' @ show_nat i @ '' from producer'')"

text \<open>
  The position of the producer in the loop for message \<open>i\<close>: at the loop test, before \<open>sem_wait\<close>,
  at the test of \<open>running\<close>, before writing the slot, before the three additions, before
  \<open>sem_post\<close>; after the loop before clearing \<open>running\<close>, before the last \<open>sem_post\<close>, returned.
\<close>

datatype stress_producer =
    PLoop nat | PWait nat | PCheck nat | PWrite nat | PAdvance nat | PTotal nat | PBytes nat | PPost nat
  | PStop nat | PWake nat | PDone nat

text \<open>
  The position of the consumer that has received \<open>r\<close> messages: at the two halves of the loop
  test, before \<open>sem_wait\<close>, at the two halves of the second test, before reading the slot, before
  advancing \<open>read_pos\<close>, before \<open>sem_post\<close>; left by the loop test, left by \<open>break\<close>.
\<close>

datatype stress_consumer =
    CLoop nat | CLoopTotal nat | CWait nat | CCheck nat | CCheckTotal nat | CRead nat | CAdvance nat | CPost nat
  | CLeft nat | CBroke nat

record stress =
  st_running :: bool
  st_write_pos :: nat
  st_read_pos :: nat
  st_total :: nat
  st_total_bytes :: nat
  st_buffer :: "nat \<Rightarrow> string"
  st_sem_producer :: nat
  st_sem_consumer :: nat
  st_producer_go :: bool
  st_consumer_go :: bool
  st_producer :: stress_producer
  st_consumer :: stress_consumer
  st_seen :: "string list"

text \<open>
  The state after the producer's initialisation: \<open>O_CREAT\<close> sets the semaphores to 1 and 0 only
  when they do not exist yet, so \<open>p\<close> and \<open>c\<close> are what an earlier run left otherwise. \<open>st_seen\<close>
  records the slots that the consumer reads.
\<close>

definition stress_init :: "nat \<Rightarrow> nat \<Rightarrow> (nat \<Rightarrow> string) \<Rightarrow> stress" where
  "stress_init p c old = \<lparr>st_running = True, st_write_pos = 0, st_read_pos = 0, st_total = 0, st_total_bytes = 0,
     st_buffer = old, st_sem_producer = p, st_sem_consumer = c, st_producer_go = True, st_consumer_go = True,
     st_producer = PLoop 0, st_consumer = CLoop 0, st_seen = []\<rparr>"

inductive producer_step :: "stress \<Rightarrow> stress \<Rightarrow> bool" where
  p_loop: "st_producer s = PLoop i \<Longrightarrow>
     producer_step s (s\<lparr>st_producer := if i < NUM_MESSAGES \<and> st_producer_go s then PWait i else PStop i\<rparr>)"
| p_wait: "st_producer s = PWait i \<Longrightarrow> 0 < st_sem_producer s \<Longrightarrow>
     producer_step s (s\<lparr>st_producer := PCheck i, st_sem_producer := st_sem_producer s - 1\<rparr>)"
| p_check: "st_producer s = PCheck i \<Longrightarrow>
     producer_step s (s\<lparr>st_producer := if st_running s then PWrite i else PStop i\<rparr>)"
| p_write: "st_producer s = PWrite i \<Longrightarrow>
     producer_step s (s\<lparr>st_producer := PAdvance i,
       st_buffer := (st_buffer s)(st_write_pos s mod slot_count := message_text i)\<rparr>)"
| p_advance: "st_producer s = PAdvance i \<Longrightarrow>
     producer_step s (s\<lparr>st_producer := PTotal i, st_write_pos := st_write_pos s + 1\<rparr>)"
| p_total: "st_producer s = PTotal i \<Longrightarrow>
     producer_step s (s\<lparr>st_producer := PBytes i, st_total := st_total s + 1\<rparr>)"
| p_bytes: "st_producer s = PBytes i \<Longrightarrow>
     producer_step s (s\<lparr>st_producer := PPost i, st_total_bytes := st_total_bytes s + MSG_SIZE\<rparr>)"
| p_post: "st_producer s = PPost i \<Longrightarrow>
     producer_step s (s\<lparr>st_producer := PLoop (i + 1), st_sem_consumer := st_sem_consumer s + 1\<rparr>)"
| p_stop: "st_producer s = PStop i \<Longrightarrow> producer_step s (s\<lparr>st_producer := PWake i, st_running := False\<rparr>)"
| p_wake: "st_producer s = PWake i \<Longrightarrow>
     producer_step s (s\<lparr>st_producer := PDone i, st_sem_consumer := st_sem_consumer s + 1\<rparr>)"

inductive consumer_step :: "stress \<Rightarrow> stress \<Rightarrow> bool" where
  c_loop: "st_consumer s = CLoop r \<Longrightarrow>
     consumer_step s (s\<lparr>st_consumer := if \<not> st_consumer_go s then CLeft r
       else if st_running s then CWait r else CLoopTotal r\<rparr>)"
| c_loop_total: "st_consumer s = CLoopTotal r \<Longrightarrow>
     consumer_step s (s\<lparr>st_consumer := if r < st_total s then CWait r else CLeft r\<rparr>)"
| c_wait: "st_consumer s = CWait r \<Longrightarrow> 0 < st_sem_consumer s \<Longrightarrow>
     consumer_step s (s\<lparr>st_consumer := CCheck r, st_sem_consumer := st_sem_consumer s - 1\<rparr>)"
| c_check: "st_consumer s = CCheck r \<Longrightarrow>
     consumer_step s (s\<lparr>st_consumer := if st_running s then CRead r else CCheckTotal r\<rparr>)"
| c_check_total: "st_consumer s = CCheckTotal r \<Longrightarrow>
     consumer_step s (s\<lparr>st_consumer := if st_total s \<le> r then CBroke r else CRead r\<rparr>)"
| c_read: "st_consumer s = CRead r \<Longrightarrow>
     consumer_step s (s\<lparr>st_consumer := CAdvance r,
       st_seen := st_seen s @ [st_buffer s (st_read_pos s mod slot_count)]\<rparr>)"
| c_advance: "st_consumer s = CAdvance r \<Longrightarrow>
     consumer_step s (s\<lparr>st_consumer := CPost (r + 1), st_read_pos := st_read_pos s + 1\<rparr>)"
| c_post: "st_consumer s = CPost r \<Longrightarrow>
     consumer_step s (s\<lparr>st_consumer := CLoop r, st_sem_producer := st_sem_producer s + 1\<rparr>)"

definition stress_run :: "stress \<Rightarrow> stress \<Rightarrow> bool" where
  "stress_run s t \<longleftrightarrow> producer_step s t \<or> consumer_step s t"

text \<open>All steps: those of the processes, and a signal to either of them.\<close>

inductive stress_step :: "stress \<Rightarrow> stress \<Rightarrow> bool" where
  st_own: "stress_run s t \<Longrightarrow> stress_step s t"
| st_signal_producer: "stress_step s (s\<lparr>st_producer_go := False\<rparr>)"
| st_signal_consumer: "stress_step s (s\<lparr>st_consumer_go := False\<rparr>)"

inductive_cases producer_stepE: "producer_step s t"
inductive_cases consumer_stepE: "consumer_step s t"

section \<open>Invariant\<close>

text \<open>
  How many messages the producer has been asked for, has written, counted and posted; whether it
  holds the token of its semaphore; and the same for the consumer.
\<close>

fun p_index :: "stress_producer \<Rightarrow> nat" where
  "p_index (PLoop i) = i" | "p_index (PWait i) = i" | "p_index (PCheck i) = i" | "p_index (PWrite i) = i"
| "p_index (PAdvance i) = i" | "p_index (PTotal i) = i" | "p_index (PBytes i) = i" | "p_index (PPost i) = i"
| "p_index (PStop i) = i" | "p_index (PWake i) = i" | "p_index (PDone i) = i"

fun p_holds :: "stress_producer \<Rightarrow> bool" where
  "p_holds (PCheck _) = True" | "p_holds (PWrite _) = True" | "p_holds (PAdvance _) = True"
| "p_holds (PTotal _) = True" | "p_holds (PBytes _) = True" | "p_holds (PPost _) = True" | "p_holds _ = False"

fun p_written :: "stress_producer \<Rightarrow> nat" where
  "p_written (PAdvance i) = i + 1" | "p_written (PTotal i) = i + 1" | "p_written (PBytes i) = i + 1"
| "p_written (PPost i) = i + 1" | "p_written p = p_index p"

fun p_advanced :: "stress_producer \<Rightarrow> nat" where
  "p_advanced (PTotal i) = i + 1" | "p_advanced (PBytes i) = i + 1" | "p_advanced (PPost i) = i + 1"
| "p_advanced p = p_index p"

fun p_counted :: "stress_producer \<Rightarrow> nat" where
  "p_counted (PBytes i) = i + 1" | "p_counted (PPost i) = i + 1" | "p_counted p = p_index p"

fun p_goal :: "stress_producer \<Rightarrow> nat" where
  "p_goal (PLoop i) = i" | "p_goal (PStop i) = i" | "p_goal (PWake i) = i" | "p_goal (PDone i) = i"
| "p_goal p = p_index p + 1"

fun p_ending :: "stress_producer \<Rightarrow> bool" where
  "p_ending (PWake _) = True" | "p_ending (PDone _) = True" | "p_ending _ = False"

fun p_done :: "stress_producer \<Rightarrow> bool" where
  "p_done (PDone _) = True" | "p_done _ = False"

fun p_left :: "stress_producer \<Rightarrow> bool" where
  "p_left (PStop _) = True" | "p_left (PWake _) = True" | "p_left (PDone _) = True" | "p_left _ = False"

fun c_index :: "stress_consumer \<Rightarrow> nat" where
  "c_index (CLoop r) = r" | "c_index (CLoopTotal r) = r" | "c_index (CWait r) = r" | "c_index (CCheck r) = r"
| "c_index (CCheckTotal r) = r" | "c_index (CRead r) = r" | "c_index (CAdvance r) = r" | "c_index (CPost r) = r"
| "c_index (CLeft r) = r" | "c_index (CBroke r) = r"

fun c_holds :: "stress_consumer \<Rightarrow> bool" where
  "c_holds (CCheck _) = True" | "c_holds (CCheckTotal _) = True" | "c_holds (CRead _) = True"
| "c_holds (CAdvance _) = True" | "c_holds (CBroke _) = True" | "c_holds _ = False"

fun c_seen :: "stress_consumer \<Rightarrow> nat" where
  "c_seen (CAdvance r) = r + 1" | "c_seen c = c_index c"

fun c_posted :: "stress_consumer \<Rightarrow> nat" where
  "c_posted (CPost r) = r - 1" | "c_posted c = c_index c"

text \<open>What the consumer's position says: about the message at hand and, once it has left, about the end.\<close>

fun c_fact :: "stress_consumer \<Rightarrow> stress \<Rightarrow> bool" where
  "c_fact (CLoopTotal _) s = (\<not> st_running s)"
| "c_fact (CCheckTotal _) s = (\<not> st_running s)"
| "c_fact (CRead r) s = (r < st_total s)"
| "c_fact (CAdvance r) s = (r < st_total s)"
| "c_fact (CPost r) s = (0 < r)"
| "c_fact (CLeft r) s = (st_consumer_go s \<longrightarrow> \<not> st_running s \<and> st_total s \<le> r)"
| "c_fact (CBroke r) s = (\<not> st_running s \<and> st_total s \<le> r)"
| "c_fact _ s = True"

definition stress_inv :: "stress \<Rightarrow> bool" where
  "stress_inv s \<longleftrightarrow>
     st_sem_producer s + p_index (st_producer s) + of_bool (p_holds (st_producer s)) = 1 + c_posted (st_consumer s) \<and>
     st_sem_consumer s + c_index (st_consumer s) + of_bool (c_holds (st_consumer s))
       = p_index (st_producer s) + of_bool (p_done (st_producer s)) \<and>
     st_write_pos s = p_advanced (st_producer s) \<and> st_total s = p_counted (st_producer s) \<and>
     st_read_pos s = c_index (st_consumer s) \<and> c_index (st_consumer s) \<le> st_total s \<and>
     (st_running s \<longleftrightarrow> \<not> p_ending (st_producer s)) \<and>
     p_goal (st_producer s) \<le> NUM_MESSAGES \<and>
     (p_left (st_producer s) \<and> st_producer_go s \<longrightarrow> p_index (st_producer s) = NUM_MESSAGES) \<and>
     (\<forall>k. c_index (st_consumer s) \<le> k \<and> k < p_written (st_producer s) \<longrightarrow> st_buffer s (k mod slot_count) = message_text k) \<and>
     st_seen s = map message_text [0..<c_seen (st_consumer s)] \<and>
     c_fact (st_consumer s) s"

lemma stress_invD:
  assumes "stress_inv s"
  shows "st_sem_producer s + p_index (st_producer s) + of_bool (p_holds (st_producer s)) = 1 + c_posted (st_consumer s)"
    and "st_sem_consumer s + c_index (st_consumer s) + of_bool (c_holds (st_consumer s))
       = p_index (st_producer s) + of_bool (p_done (st_producer s))"
    and "st_write_pos s = p_advanced (st_producer s)" "st_total s = p_counted (st_producer s)"
    and "st_read_pos s = c_index (st_consumer s)" "c_index (st_consumer s) \<le> st_total s"
    and "st_running s \<longleftrightarrow> \<not> p_ending (st_producer s)" "p_goal (st_producer s) \<le> NUM_MESSAGES"
    and "p_left (st_producer s) \<Longrightarrow> st_producer_go s \<Longrightarrow> p_index (st_producer s) = NUM_MESSAGES"
    and "\<And>k. c_index (st_consumer s) \<le> k \<Longrightarrow> k < p_written (st_producer s) \<Longrightarrow>
      st_buffer s (k mod slot_count) = message_text k"
    and "st_seen s = map message_text [0..<c_seen (st_consumer s)]" "c_fact (st_consumer s) s"
  using assms by (simp_all add: stress_inv_def)

text \<open>A process that holds its token excludes the other one.\<close>

lemma c_posted_le: "c_posted c \<le> c_index c"
  by (cases c) simp_all

lemma holds_exclusive:
  assumes "stress_inv s" "p_holds (st_producer s)"
  shows "\<not> c_holds (st_consumer s) \<and> c_index (st_consumer s) = p_index (st_producer s)"
proof -
  have "\<not> p_done (st_producer s)" using assms(2) by (cases "st_producer s") simp_all
  then show ?thesis
    using stress_invD(1,2) [OF assms(1)] assms(2) c_posted_le [of "st_consumer s"] by (auto simp: of_bool_def split: if_splits)
qed

lemma producer_step_inv:
  assumes "producer_step s t" "stress_inv s"
  shows "stress_inv t"
  using assms(1)
proof cases
  case (p_loop i)
  show ?thesis using assms(2) p_loop by (cases "st_consumer s") (auto simp: stress_inv_def)
next
  case (p_wait i)
  show ?thesis using assms(2) p_wait by (cases "st_consumer s") (auto simp: stress_inv_def)
next
  case (p_check i)
  show ?thesis using assms(2) p_check by (cases "st_consumer s") (auto simp: stress_inv_def)
next
  case (p_write i)
  have "c_index (st_consumer s) = i" using holds_exclusive [OF assms(2)] p_write by simp
  with assms(2) p_write show ?thesis
    by (cases "st_consumer s") (auto simp: stress_inv_def less_Suc_eq)
next
  case (p_advance i)
  show ?thesis using assms(2) p_advance by (cases "st_consumer s") (auto simp: stress_inv_def)
next
  case (p_total i)
  show ?thesis using assms(2) p_total by (cases "st_consumer s") (auto simp: stress_inv_def)
next
  case (p_bytes i)
  show ?thesis using assms(2) p_bytes by (cases "st_consumer s") (auto simp: stress_inv_def)
next
  case (p_post i)
  show ?thesis using assms(2) p_post by (cases "st_consumer s") (auto simp: stress_inv_def)
next
  case (p_stop i)
  show ?thesis using assms(2) p_stop by (cases "st_consumer s") (auto simp: stress_inv_def)
next
  case (p_wake i)
  show ?thesis using assms(2) p_wake by (cases "st_consumer s") (auto simp: stress_inv_def)
qed

lemma consumer_step_inv:
  assumes "consumer_step s t" "stress_inv s"
  shows "stress_inv t"
  using assms(1)
proof cases
  case (c_loop r)
  show ?thesis using assms(2) c_loop by (cases "st_producer s") (auto simp: stress_inv_def)
next
  case (c_loop_total r)
  show ?thesis using assms(2) c_loop_total by (cases "st_producer s") (auto simp: stress_inv_def)
next
  case (c_wait r)
  show ?thesis using assms(2) c_wait by (cases "st_producer s") (auto simp: stress_inv_def)
next
  case (c_check r)
  show ?thesis using assms(2) c_check by (cases "st_producer s") (auto simp: stress_inv_def)
next
  case (c_check_total r)
  show ?thesis using assms(2) c_check_total by (cases "st_producer s") (auto simp: stress_inv_def)
next
  case (c_read r)
  show ?thesis using assms(2) c_read by (cases "st_producer s") (auto simp: stress_inv_def)
next
  case (c_advance r)
  show ?thesis using assms(2) c_advance by (cases "st_producer s") (auto simp: stress_inv_def)
next
  case (c_post r)
  show ?thesis using assms(2) c_post by (cases "st_producer s") (auto simp: stress_inv_def)
qed

lemma stress_run_inv: "stress_inv s \<Longrightarrow> stress_run s t \<Longrightarrow> stress_inv t"
  by (auto simp: stress_run_def intro: producer_step_inv consumer_step_inv)

lemma signal_inv: "stress_inv s \<Longrightarrow> stress_inv (s\<lparr>st_producer_go := False\<rparr>) \<and> stress_inv (s\<lparr>st_consumer_go := False\<rparr>)"
  by (cases "st_consumer s") (auto simp: stress_inv_def)

lemma stress_step_inv [model_inv]: "stress_inv s \<Longrightarrow> stress_step s t \<Longrightarrow> stress_inv t"
  using signal_inv [of s] by (auto elim!: stress_step.cases intro: stress_run_inv)

lemma stress_init_inv: "stress_inv (stress_init 1 0 old)"
  by (simp add: stress_inv_def stress_init_def)

interpretation stm: safe_machine "\<lambda>s. \<exists>old. s = stress_init 1 0 old" stress_step stress_inv
  by unfold_locales (blast intro: stress_init_inv stress_step_inv)+

section \<open>Progress\<close>

fun p_weight :: "stress_producer \<Rightarrow> nat" where
  "p_weight (PLoop _) = 13" | "p_weight (PWait _) = 12" | "p_weight (PCheck _) = 11" | "p_weight (PWrite _) = 10"
| "p_weight (PAdvance _) = 9" | "p_weight (PTotal _) = 8" | "p_weight (PBytes _) = 7" | "p_weight (PPost _) = 6"
| "p_weight (PStop _) = 2" | "p_weight (PWake _) = 1" | "p_weight (PDone _) = 0"

fun c_weight :: "stress_consumer \<Rightarrow> nat" where
  "c_weight (CLoop _) = 13" | "c_weight (CLoopTotal _) = 12" | "c_weight (CWait _) = 11" | "c_weight (CCheck _) = 10"
| "c_weight (CCheckTotal _) = 9" | "c_weight (CRead _) = 8" | "c_weight (CAdvance _) = 7" | "c_weight (CPost _) = 15"
| "c_weight (CLeft _) = 0" | "c_weight (CBroke _) = 0"

definition stress_fuel :: "stress \<Rightarrow> nat" where
  "stress_fuel s = 10 * (NUM_MESSAGES - p_index (st_producer s)) + p_weight (st_producer s)
     + 10 * (NUM_MESSAGES - c_index (st_consumer s)) + c_weight (st_consumer s)"

lemma total_le: "stress_inv s \<Longrightarrow> st_total s \<le> NUM_MESSAGES"
  using stress_invD(4,8) [of s] by (cases "st_producer s") auto

lemma stress_run_fuel:
  assumes "stress_inv s" "stress_run s t"
  shows "stress_fuel t < stress_fuel s"
proof (cases "producer_step s t")
  case True
  then show ?thesis using stress_invD(8) [OF assms(1)] by cases (auto simp: stress_fuel_def)
next
  case False
  with assms(2) have "consumer_step s t" by (simp add: stress_run_def)
  then show ?thesis
    using stress_invD(12) [OF assms(1)] total_le [OF assms(1)] by cases (auto simp: stress_fuel_def)
qed

definition uninterrupted :: "stress \<Rightarrow> bool" where
  "uninterrupted s \<longleftrightarrow> stress_inv s \<and> st_producer_go s \<and> st_consumer_go s"

lemma uninterrupted_run: "uninterrupted s \<Longrightarrow> stress_run s t \<Longrightarrow> uninterrupted t"
  using stress_run_inv [of s t]
  by (auto simp: uninterrupted_def stress_run_def elim: producer_step.cases consumer_step.cases)

interpretation stb: bounded_machine stress_run uninterrupted stress_fuel
  by unfold_locales (erule (1) uninterrupted_run, auto intro: stress_run_fuel simp: uninterrupted_def)

definition stress_final :: "stress \<Rightarrow> bool" where
  "stress_final s \<longleftrightarrow> st_producer s = PDone NUM_MESSAGES \<and>
     (st_consumer s = CLeft NUM_MESSAGES \<or> st_consumer s = CBroke NUM_MESSAGES) \<and>
     st_seen s = map message_text [0..<NUM_MESSAGES]"

text \<open>A process can only be stuck before a semaphore, or when it has returned.\<close>

lemma producer_stuck:
  assumes "\<nexists>t. producer_step s t"
  shows "(\<exists>i. st_producer s = PDone i) \<or> (\<exists>i. st_producer s = PWait i) \<and> st_sem_producer s = 0"
proof (cases "st_producer s")
  case (PWait i)
  with assms p_wait show ?thesis by blast
qed (use assms in \<open>blast dest: p_loop p_check p_write p_advance p_total p_bytes p_post p_stop p_wake\<close>)+

lemma consumer_stuck:
  assumes "\<nexists>t. consumer_step s t"
  shows "(\<exists>r. st_consumer s = CLeft r \<or> st_consumer s = CBroke r) \<or> (\<exists>r. st_consumer s = CWait r) \<and> st_sem_consumer s = 0"
proof (cases "st_consumer s")
  case (CWait r)
  with assms c_wait show ?thesis by blast
qed (use assms in \<open>blast dest: c_loop c_loop_total c_check c_check_total c_read c_advance c_post\<close>)+

lemma stress_stuck:
  assumes "uninterrupted s" "\<nexists>t. stress_run s t"
  shows "stress_final s"
proof -
  have inv: "stress_inv s" "st_producer_go s" "st_consumer_go s" using assms(1) by (simp_all add: uninterrupted_def)
  note D = stress_invD [OF inv(1)]
  from assms(2) have "\<nexists>t. producer_step s t" "\<nexists>t. consumer_step s t" by (auto simp: stress_run_def)
  from producer_stuck [OF this(1)] consumer_stuck [OF this(2)]
  have "st_producer s = PDone NUM_MESSAGES \<and> c_index (st_consumer s) = NUM_MESSAGES \<and>
      c_seen (st_consumer s) = NUM_MESSAGES \<and> (\<exists>r. st_consumer s = CLeft r \<or> st_consumer s = CBroke r)"
    using D(1,2,4,6,7,9,12) inv(2,3) by (auto dest: le_antisym)
  with D(11) show ?thesis by (auto simp: stress_final_def)
qed

section \<open>Correctness\<close>



text \<open>The first three steps of a run, for both theorems.\<close>

definition stress_demo :: stress where
  "stress_demo = (stress_init 1 0 (\<lambda>_. []))\<lparr>st_producer := PWrite 0, st_sem_producer := 0\<rparr>"

lemma stress_demo_run: "(stress_run ^^ 3) (stress_init 1 0 (\<lambda>_. [])) stress_demo"
proof -
  let ?s = "stress_init 1 0 (\<lambda>_. [])"
  have "stress_run ?s (?s\<lparr>st_producer := PWait 0\<rparr>)"
    using p_loop [of ?s 0] by (simp add: stress_run_def NUM_MESSAGES_def) (simp add: stress_init_def)
  moreover have "stress_run (?s\<lparr>st_producer := PWait 0\<rparr>) (?s\<lparr>st_producer := PCheck 0, st_sem_producer := 0\<rparr>)"
    using p_wait [of "?s\<lparr>st_producer := PWait 0\<rparr>" 0] by (simp add: stress_run_def) (simp add: stress_init_def)
  moreover have "stress_run (?s\<lparr>st_producer := PCheck 0, st_sem_producer := 0\<rparr>) stress_demo"
    using p_check [of "?s\<lparr>st_producer := PCheck 0, st_sem_producer := 0\<rparr>" 0]
    by (simp add: stress_run_def stress_demo_def) (simp add: stress_init_def)
  ultimately show ?thesis
    unfolding numeral_3_eq_3 by (meson relpowp_0_I relpowp_Suc_I)
qed



section \<open>What a run leaves behind\<close>

text \<open>
  The named semaphores are closed but never unlinked. A complete run ends with one token too many
  whenever the consumer leaves by its loop test, because the producer posts once more to wake it.
\<close>

theorem stress_leaves_token:
  assumes "stress_run\<^sup>*\<^sup>* (stress_init 1 0 old) s" "stress_final s"
  shows "st_sem_producer s = 1 \<and> st_sem_consumer s = of_bool (st_consumer s = CLeft NUM_MESSAGES)"
proof -
  have "stress_step\<^sup>*\<^sup>* (stress_init 1 0 old) s"
    using assms(1) by (rule rtranclp_mono [THEN predicate2D, rotated]) (auto intro: st_own)
  then have "stress_inv s" by (rule stm.reach_inv [OF exI, OF refl])
  from stress_invD(1,2) [OF this] assms(2) show ?thesis by (auto simp: stress_final_def)
qed

text \<open>
  In the next run the consumer then reads a slot before the producer has written it: here what
  the segment held before.
\<close>

theorem stress_leftover_reads_early:
  "\<exists>t. stress_run\<^sup>*\<^sup>* (stress_init 1 1 old) t \<and> st_seen t = [old 0] \<and> st_total t = 0"
proof -
  let ?s = "stress_init 1 1 old"
  let ?c = "\<lambda>c. ?s\<lparr>st_consumer := c, st_sem_consumer := 0\<rparr>"
  have "stress_run ?s (?s\<lparr>st_consumer := CWait 0\<rparr>)"
    using c_loop [of ?s 0] by (simp add: stress_run_def) (simp add: stress_init_def)
  moreover have "stress_run (?s\<lparr>st_consumer := CWait 0\<rparr>) (?c (CCheck 0))"
    using c_wait [of "?s\<lparr>st_consumer := CWait 0\<rparr>" 0] by (simp add: stress_run_def) (simp add: stress_init_def)
  moreover have "stress_run (?c (CCheck 0)) (?c (CRead 0))"
    using c_check [of "?c (CCheck 0)" 0] by (simp add: stress_run_def) (simp add: stress_init_def)
  moreover have "stress_run (?c (CRead 0)) (?c (CAdvance 0)\<lparr>st_seen := [old 0]\<rparr>)"
    using c_read [of "?c (CRead 0)" 0] by (simp add: stress_run_def) (simp add: stress_init_def)
  ultimately have "stress_run\<^sup>*\<^sup>* ?s (?c (CAdvance 0)\<lparr>st_seen := [old 0]\<rparr>)"
    by (meson rtranclp.rtrancl_refl rtranclp.rtrancl_into_rtrancl)
  then show ?thesis
    by (intro exI [of _ "?c (CAdvance 0)\<lparr>st_seen := [old 0]\<rparr>"] conjI) (assumption | simp add: stress_init_def)+
qed

section \<open>The program\<close>

text \<open>
  Setting up: \<open>run_producer\<close> and \<open>run_consumer\<close> give up with exit code 1 at the first system call
  that fails. The arguments are the answers of \<open>shm_open\<close>, \<open>ftruncate\<close> (producer only), \<open>mmap\<close> and
  the two \<open>sem_open\<close>.
\<close>

definition producer_setup :: "bool \<Rightarrow> bool \<Rightarrow> bool \<Rightarrow> bool \<Rightarrow> bool \<Rightarrow> int option" where
  "producer_setup shm trunc mapped sem1 sem2 =
     (if \<not> shm then Some 1 else if \<not> trunc then Some 1 else if \<not> mapped then Some 1
      else if \<not> sem1 \<or> \<not> sem2 then Some 1 else None)"

definition consumer_setup :: "bool \<Rightarrow> bool \<Rightarrow> bool \<Rightarrow> bool \<Rightarrow> int option" where
  "consumer_setup shm mapped sem1 sem2 =
     (if \<not> shm then Some 1 else if \<not> mapped then Some 1 else if \<not> sem1 \<or> \<not> sem2 then Some 1 else None)"

datatype stress_role = Producer | Consumer

definition stress_main :: "string list \<Rightarrow> int + stress_role" where
  "stress_main args =
     (case args of
        [role] \<Rightarrow> if role = ''producer'' then Inr Producer else if role = ''consumer'' then Inr Consumer else Inl 1
      | _ \<Rightarrow> Inl 1)"

text \<open>Every slot lies inside the buffer of the segment.\<close>

lemma slot_in_buffer: "(k mod slot_count) * MSG_SIZE + MSG_SIZE \<le> SHM_SIZE"
proof -
  have "k mod slot_count < slot_count" by (simp add: slot_count_def SHM_SIZE_def MSG_SIZE_def)
  then have "(k mod slot_count + 1) * MSG_SIZE \<le> slot_count * MSG_SIZE" by (intro mult_le_mono1) simp
  then show ?thesis by (simp add: slot_count_def SHM_SIZE_def MSG_SIZE_def)
qed

end
