(* ===== verification/ProgramReports.thy ===== *)
theory ProgramReports
  imports NetworkBridge StressTest
begin

text \<open>
  The figures that \<open>examples/example_network_bridge.cpp\<close> and \<open>examples/example_ipc_stress.cpp\<close> print when
  they end, as rationals; \<open>None\<close> is a division by zero, for which the programs print \<open>inf\<close> or \<open>nan\<close>.
\<close>

section \<open>Rates\<close>

definition quotient :: "rat \<Rightarrow> rat \<Rightarrow> rat option" where
  "quotient a b = (if b = 0 then None else Some (a / b))"

record report =
  rp_count :: nat
  rp_duration :: rat
  rp_throughput :: "rat option"
  rp_bandwidth :: "rat option"

text \<open>Messages per second and megabytes per second, of a duration in milliseconds.\<close>

definition report_of :: "nat \<Rightarrow> nat \<Rightarrow> rat \<Rightarrow> report" where
  "report_of n bytes ms = \<lparr>rp_count = n, rp_duration = ms, rp_throughput = quotient (of_nat n * 1000) ms,
     rp_bandwidth = quotient (of_nat bytes / 1024 / 1024 * 1000) ms\<rparr>"

section \<open>The network bridge\<close>

definition sender_report :: "nat \<Rightarrow> int \<Rightarrow> report" where
  "sender_report sent duration = report_of sent (sent * sizeof_packet) (of_int duration)"

definition receiver_report :: "receipt \<Rightarrow> int \<Rightarrow> report \<times> nat \<times> rat option" where
  "receiver_report r duration = (report_of (rc_received r) (rc_received r * sizeof_packet) (of_int duration), rc_errors r,
     quotient (of_nat (unat (rc_total_latency r))) (of_nat (rc_received r)))"

definition bridge_usage :: "string \<Rightarrow> string list" where
  "bridge_usage prog = [''Usage:'', ''  '' @ prog @ '' sender                    # Send test packets'',
     ''  '' @ prog @ '' bridge <ip> <port>        # Bridge packets to remote'',
     ''  '' @ prog @ '' receiver <port>           # Receive forwarded packets'']"

section \<open>The stress test\<close>

text \<open>The producer reads the counters of the segment, the consumer its own and the time the producer began.\<close>

definition producer_report :: "stress \<Rightarrow> int \<Rightarrow> report" where
  "producer_report s duration = report_of (st_total s) (st_total_bytes s) (of_int duration)"

definition consumer_report :: "nat \<Rightarrow> u64 \<Rightarrow> u64 \<Rightarrow> report" where
  "consumer_report received start_time end_time =
     report_of received (received * MSG_SIZE) (of_nat (unat (end_time - start_time)) / 1000)"

section \<open>What the figures say\<close>

lemma quotient_none_iff [simp]: "quotient a b = None \<longleftrightarrow> b = 0"
  by (simp add: quotient_def)

text \<open>A report is consistent: the bandwidth is the throughput times the size of a message.\<close>

lemma report_bandwidth:
  "rp_bandwidth (report_of n (n * len) ms) = map_option (\<lambda>r. r * of_nat len / 1048576) (rp_throughput (report_of n (n * len) ms))"
  by (simp add: report_of_def quotient_def field_simps)

lemma report_rates: "ms \<noteq> 0 \<Longrightarrow> rp_throughput (report_of n bytes ms) = Some (of_nat n * 1000 / ms)"
  by (simp add: report_of_def quotient_def)

text \<open>The bytes counted in the segment; between its two additions the producer has counted one message more.\<close>

fun p_counting :: "stress_producer \<Rightarrow> bool" where
  "p_counting (PBytes _) = True"
| "p_counting _ = False"

definition bytes_inv :: "stress \<Rightarrow> bool" where
  "bytes_inv s \<longleftrightarrow> st_total_bytes s + (if p_counting (st_producer s) then MSG_SIZE else 0) = st_total s * MSG_SIZE"

lemma bytes_inv_step: "stress_step s t \<Longrightarrow> bytes_inv s \<Longrightarrow> bytes_inv t"
proof (induction rule: stress_step.induct)
  case (st_own s t)
  from st_own(1) show ?case unfolding stress_run_def
  proof
    assume "producer_step s t"
    then show ?thesis using st_own(2) by cases (simp_all add: bytes_inv_def)
  next
    assume "consumer_step s t"
    then show ?thesis using st_own(2) by cases (simp_all add: bytes_inv_def)
  qed
qed (simp_all add: bytes_inv_def)

lemma bytes_inv_init: "bytes_inv (stress_init p c old)"
  by (simp add: bytes_inv_def stress_init_def)

interpretation stc: safe_machine "\<lambda>s. \<exists>old. s = stress_init 1 0 old" stress_step bytes_inv
  by unfold_locales (blast intro: bytes_inv_init bytes_inv_step)+

text \<open>
  Both processes of the stress test print the same number of messages when they have ended, and the
  number of bytes is that of the messages, whatever the interleaving and even if the producer was
  interrupted.
\<close>

theorem stress_reports_agree:
  assumes "stress_step\<^sup>*\<^sup>* (stress_init 1 0 old) s" "st_producer s = PDone i" "st_consumer_go s"
    and "st_consumer s = CLeft r \<or> st_consumer s = CBroke r"
  shows "rp_count (consumer_report r t0 t1) = rp_count (producer_report s d) \<and> rp_count (producer_report s d) = i \<and>
    rp_bandwidth (producer_report s d) = map_option (\<lambda>x. x * of_nat MSG_SIZE / 1048576) (rp_throughput (producer_report s d))"
proof -
  have inv: "stress_inv s" using stm.reach_inv [OF exI, OF refl assms(1)] .
  note D = stress_invD [OF inv]
  have "st_total s = i" using D(4) assms(2) by simp
  moreover have "r = st_total s" using D(6,12) assms(3,4) by auto
  moreover have "st_total_bytes s = st_total s * MSG_SIZE"
    using stc.reach_inv [OF exI, OF refl assms(1)] assms(2) by (simp add: bytes_inv_def)
  ultimately show ?thesis by (simp add: producer_report_def consumer_report_def report_bandwidth) (simp add: report_of_def)
qed

text \<open>A delay that is added to a 64-bit clock and subtracted again.\<close>

lemma delay_sum:
  "length ds = length ks \<Longrightarrow>
    (\<Sum>(k, now) \<leftarrow> zip ks (map2 (\<lambda>k d. clock k + of_nat d) ks ds). now - clock k) = (of_nat (sum_list ds) :: u64)"
  by (induction ds ks rule: list_induct2) simp_all

text \<open>
  What the receiver prints: for packets of a run that arrive with delays \<open>ds\<close>, whose sum does not
  wrap, the number of packets and of gaps, and their mean delay; and nothing that is a number when
  no packet has arrived, or when the run took less than a millisecond.
\<close>

theorem receiver_report_exact:
  assumes "length pad1 = 4" "length pad2 = 4" "\<forall>k \<in> set ks. k < NUM_PACKETS" "length ks \<le> NUM_PACKETS"
    and "length ds = length ks" "sum_list ds < 2 ^ 64"
    and "run_receiver True True (map (\<lambda>(d, now). (Datagram d, now))
      (zip (map (packet_at clock pad1 pad2) ks) (map2 (\<lambda>k d. clock k + of_nat d) ks ds))) = (code, r)"
    and "receiver_report r ms = (rep, errors, latency)"
  shows "code = 0 \<and> rp_count rep = length ks \<and> errors = gaps ks \<and>
    latency = (if ks = [] then None else Some (of_nat (sum_list ds) / of_nat (length ks))) \<and>
    rp_throughput rep = (if ms = 0 then None else Some (of_nat (length ks) * 1000 / of_int ms))"
proof -
  have "\<exists>last_seq. r = \<lparr>rc_received = length ks, rc_errors = gaps ks, rc_last_seq = last_seq,
      rc_total_latency = of_nat (sum_list ds)\<rparr> \<and> code = 0"
    using receiver_all [OF assms(1-4), of "map2 (\<lambda>k d. clock k + of_nat d) ks ds" clock] assms(5,7)
    by (simp add: run_receiver_def delay_sum)
  then obtain last_seq where r: "r = \<lparr>rc_received = length ks, rc_errors = gaps ks, rc_last_seq = last_seq,
      rc_total_latency = of_nat (sum_list ds)\<rparr>" "code = 0" by blast
  have "unat (of_nat (sum_list ds) :: u64) = sum_list ds" using assms(6) by (simp add: unat_of_nat take_bit_nat_eq_self_iff)
  with r assms(8) show ?thesis by (auto simp: receiver_report_def report_of_def quotient_def)
qed

theorem receiver_report_exact_witness:
  "\<exists>r. run_receiver True True (map (\<lambda>(d, now). (Datagram d, now))
      (zip (map (packet_at (\<lambda>_. 9) [0, 0, 0, 0] [0, 0, 0, 0]) [5, 7]) [13, 17])) = (0, r) \<and>
    snd (receiver_report r 4) = (1, Some 6) \<and> rp_throughput (fst (receiver_report r 4)) = Some 500"
proof -
  obtain code r where r: "run_receiver True True (map (\<lambda>(d, now). (Datagram d, now))
      (zip (map (packet_at (\<lambda>_. 9) [0, 0, 0, 0] [0, 0, 0, 0]) [5, 7]) (map2 (\<lambda>k d. 9 + of_nat d) [5, 7 :: nat] [4, 8]))) = (code, r)"
    by (rule prod.exhaust)
  obtain rep errors latency where rep: "receiver_report r 4 = (rep, errors, latency)" by (rule prod_cases3)
  have "\<forall>k \<in> set [5, 7 :: nat]. k < NUM_PACKETS" "length [5, 7 :: nat] \<le> NUM_PACKETS" by (simp_all add: NUM_PACKETS_def)
  from receiver_report_exact [OF _ _ this _ _ r rep] r rep show ?thesis by simp
qed

end
