(* ===== verification/ReceiverThreads.thy ===== *)
theory ReceiverThreads
  imports NodeApi
begin

text \<open>
  \<open>Receiver\<close> of \<open>src/node/receiver.cpp\<close> with its polling threads: every \<open>SetCallback\<close> on an initialised
  receiver starts one, which is detached and uses the receiver until it sees that \<open>initialized_\<close> is false.
  What the shared memory of the channels holds is changed by others at any time.
\<close>

section \<open>Steps\<close>

text \<open>
  A polling thread: at the loop test, before \<open>Poll\<close>, before the call of \<open>callback_\<close> with size and bytes,
  returned, or left by an exception: that of the callback, or the one that calling an empty \<open>std::function\<close>
  throws. Nothing in the thread catches it, which ends the program; the steps of the others do not matter then.
\<close>

datatype poller = PollTest | PollRead | PollCall nat "byte list" | PollEnd | PollThrow

text \<open>
  \<open>rt_history\<close> has what the channel of the receiver has held, \<open>rt_called\<close> what the callback was given;
  \<open>rt_dangling\<close> says that a thread has used the receiver after its destruction.
\<close>

record rthreads =
  rt_rx :: receiver
  rt_alive :: bool
  rt_memory :: "string \<Rightarrow> byte list option"
  rt_pollers :: "poller list"
  rt_history :: "byte list set"
  rt_called :: "(nat \<times> byte list) list"
  rt_dangling :: bool

definition rx_key :: "receiver \<Rightarrow> string" where
  "rx_key r = ''/lwipc_'' @ rx_channel r"

definition rt_start :: "rthreads \<Rightarrow> bool" where
  "rt_start s \<longleftrightarrow> (\<exists>channel qos. rt_rx s = receiver_new channel qos) \<and> rt_alive s \<and> rt_pollers s = [] \<and>
     set_option (rt_memory s (rx_key (rt_rx s))) \<subseteq> rt_history s \<and> rt_called s = [] \<and> \<not> rt_dangling s"

text \<open>What the owner of the receiver does, and the processes that write to the channels.\<close>

inductive owner_step :: "rthreads \<Rightarrow> rthreads \<Rightarrow> bool" where
  rt_init: "rt_alive s \<Longrightarrow> owner_step s (s\<lparr>rt_rx := snd (rx_init (rt_rx s))\<rparr>)"
| rt_shutdown: "rt_alive s \<Longrightarrow> owner_step s (s\<lparr>rt_rx := rx_shutdown (rt_rx s)\<rparr>)"
| rt_set_callback: "rt_alive s \<Longrightarrow> owner_step s (s\<lparr>rt_rx := rx_set_callback callable (rt_rx s),
     rt_pollers := rt_pollers s @ (if callable \<and> rx_initialized (rt_rx s) then [PollTest] else [])\<rparr>)"
| rt_destroy: "rt_alive s \<Longrightarrow> owner_step s (s\<lparr>rt_rx := rx_destroy (rt_rx s), rt_alive := False\<rparr>)"
| rt_write: "owner_step s (s\<lparr>rt_memory := m, rt_history := rt_history s \<union> set_option (m (rx_key (rt_rx s)))\<rparr>)"

definition after_poll :: "rthreads \<Rightarrow> poller" where
  "after_poll s = (case rx_poll (rt_memory s) (rt_rx s) of
      None \<Rightarrow> PollTest
    | Some (n, bytes) \<Rightarrow> if rx_has_callback (rt_rx s) \<and> 0 < n then PollCall n bytes else PollTest)"

abbreviation rt_goto :: "nat \<Rightarrow> poller \<Rightarrow> rthreads \<Rightarrow> rthreads" where
  "rt_goto i c s \<equiv> s\<lparr>rt_pollers := (rt_pollers s)[i := c], rt_dangling := (rt_dangling s \<or> \<not> rt_alive s)\<rparr>"

inductive poller_step :: "rthreads \<Rightarrow> rthreads \<Rightarrow> bool" where
  rt_test: "i < length (rt_pollers s) \<Longrightarrow> rt_pollers s ! i = PollTest \<Longrightarrow>
     poller_step s (rt_goto i (if rx_initialized (rt_rx s) then PollRead else PollEnd) s)"
| rt_poll: "i < length (rt_pollers s) \<Longrightarrow> rt_pollers s ! i = PollRead \<Longrightarrow> poller_step s (rt_goto i (after_poll s) s)"
| rt_call: "i < length (rt_pollers s) \<Longrightarrow> rt_pollers s ! i = PollCall n bytes \<Longrightarrow>
     poller_step s (if rx_has_callback (rt_rx s)
       then rt_goto i PollTest (s\<lparr>rt_called := rt_called s @ [(n, bytes)]\<rparr>) else rt_goto i PollThrow s)"
| rt_call_throws: "i < length (rt_pollers s) \<Longrightarrow> rt_pollers s ! i = PollCall n bytes \<Longrightarrow> rx_has_callback (rt_rx s) \<Longrightarrow>
     poller_step s (rt_goto i PollThrow (s\<lparr>rt_called := rt_called s @ [(n, bytes)]\<rparr>))"

definition rt_step :: "rthreads \<Rightarrow> rthreads \<Rightarrow> bool" where
  "rt_step s t \<longleftrightarrow> owner_step s t \<or> poller_step s t"

section \<open>Invariant\<close>

text \<open>A delivery: the size of a message of the channel, and as much of it as fits the buffer.\<close>

definition delivery_of :: "byte list set \<Rightarrow> nat \<times> byte list \<Rightarrow> bool" where
  "delivery_of held r \<longleftrightarrow> (\<exists>data \<in> held. data \<noteq> [] \<and> r = (length data, take MAX_MSG_SIZE data))"

fun poller_ok :: "byte list set \<Rightarrow> poller \<Rightarrow> bool" where
  "poller_ok held (PollCall n bytes) = delivery_of held (n, bytes)"
| "poller_ok held _ = True"

definition rt_inv :: "rthreads \<Rightarrow> bool" where
  "rt_inv s \<longleftrightarrow> set_option (rt_memory s (rx_key (rt_rx s))) \<subseteq> rt_history s \<and>
     (\<forall>c \<in> set (rt_pollers s). poller_ok (rt_history s) c) \<and> (\<forall>r \<in> set (rt_called s). delivery_of (rt_history s) r) \<and>
     (rt_alive s \<longrightarrow> \<not> rt_dangling s)"

lemma delivery_of_mono: "delivery_of held r \<Longrightarrow> held \<subseteq> held' \<Longrightarrow> delivery_of held' r"
  by (auto simp: delivery_of_def)

lemma poller_ok_mono: "poller_ok held c \<Longrightarrow> held \<subseteq> held' \<Longrightarrow> poller_ok held' c"
  by (cases c) (auto intro: delivery_of_mono)

lemma rx_key_same [simp]:
  "rx_key (snd (rx_init r)) = rx_key r" "rx_key (rx_shutdown r) = rx_key r" "rx_key (rx_destroy r) = rx_key r"
  "rx_key (rx_set_callback c r) = rx_key r"
  by (simp_all add: rx_key_def rx_init_def rx_shutdown_def rx_destroy_def rx_set_callback_def Let_def)

lemma after_poll_ok:
  assumes "rt_inv s"
  shows "poller_ok (rt_history s) (after_poll s)"
proof (cases "rt_memory s (rx_key (rt_rx s))")
  case (Some data)
  with assms have "data \<in> rt_history s" by (auto simp: rt_inv_def)
  moreover have "take (min (length data) MAX_MSG_SIZE) data = take MAX_MSG_SIZE data" by (simp add: min_def)
  ultimately show ?thesis using Some
    by (auto simp: after_poll_def rx_poll_def rx_key_def delivery_of_def split: option.split)
qed (simp add: after_poll_def rx_poll_def rx_key_def)

lemma poller_goto_ok:
  "(\<forall>c \<in> set ps. poller_ok held c) \<Longrightarrow> poller_ok held d \<Longrightarrow> \<forall>c \<in> set (ps[i := d]). poller_ok held c"
  using set_update_subset_insert [of ps i d] by blast

lemma rt_goto_inv: "rt_inv s \<Longrightarrow> poller_ok (rt_history s) d \<Longrightarrow> rt_inv (rt_goto i d s)"
  using poller_goto_ok [of "rt_pollers s" "rt_history s" d i] unfolding rt_inv_def by simp

lemma owner_step_inv: "owner_step s t \<Longrightarrow> rt_inv s \<Longrightarrow> rt_inv t"
proof (induction rule: owner_step.induct)
  case (rt_write s m)
  have mono: "rt_history s \<subseteq> rt_history s \<union> set_option (m (rx_key (rt_rx s)))" by blast
  from rt_write show ?case unfolding rt_inv_def
    using poller_ok_mono [OF _ mono] delivery_of_mono [OF _ mono] by simp
next
  case (rt_set_callback s callable)
  then show ?case by (auto simp: rt_inv_def)
qed (simp_all add: rt_inv_def)

lemma poller_step_inv: "poller_step s t \<Longrightarrow> rt_inv s \<Longrightarrow> rt_inv t"
proof (induction rule: poller_step.induct)
  case (rt_test i s)
  then show ?case using rt_goto_inv [of s _ i] by simp
next
  case (rt_poll i s)
  then show ?case using rt_goto_inv [OF _ after_poll_ok] by simp
next
  case (rt_call i s n bytes)
  then have "delivery_of (rt_history s) (n, bytes)" by (metis nth_mem poller_ok.simps(1) rt_inv_def)
  with rt_call.prems have "rt_inv (s\<lparr>rt_called := rt_called s @ [(n, bytes)]\<rparr>)" by (auto simp: rt_inv_def)
  from rt_goto_inv [OF this, of PollTest i] rt_goto_inv [OF rt_call.prems, of PollThrow i] show ?case by simp
next
  case (rt_call_throws i s n bytes)
  then have "delivery_of (rt_history s) (n, bytes)" by (metis nth_mem poller_ok.simps(1) rt_inv_def)
  with rt_call_throws.prems have "rt_inv (s\<lparr>rt_called := rt_called s @ [(n, bytes)]\<rparr>)" by (auto simp: rt_inv_def)
  from rt_goto_inv [OF this, of PollThrow i] show ?case by simp
qed

lemma rt_start_inv: "rt_start s \<Longrightarrow> rt_inv s"
  by (auto simp: rt_start_def rt_inv_def)

interpretation rtm: safe_machine rt_start rt_step rt_inv
  by unfold_locales (auto simp: rt_step_def intro: rt_start_inv owner_step_inv poller_step_inv)

section \<open>After shutdown\<close>

text \<open>How many steps a polling thread still takes once \<open>initialized_\<close> is false.\<close>

fun poller_left :: "poller \<Rightarrow> nat" where
  "poller_left PollTest = 1"
| "poller_left PollRead = 2"
| "poller_left (PollCall n bytes) = 2"
| "poller_left _ = 0"

fun about_to_call :: "poller \<Rightarrow> bool" where
  "about_to_call (PollCall n bytes) = True"
| "about_to_call _ = False"

definition rt_fuel :: "rthreads \<Rightarrow> nat" where
  "rt_fuel s = sum_list (map poller_left (rt_pollers s))"

definition rt_calls_left :: "rthreads \<Rightarrow> nat" where
  "rt_calls_left s = length (filter about_to_call (rt_pollers s))"

definition rt_off :: "rthreads \<Rightarrow> bool" where
  "rt_off s \<longleftrightarrow> \<not> rx_initialized (rt_rx s)"

lemma sum_list_goto:
  "i < length ps \<Longrightarrow> sum_list (map f (ps[i := c])) + f (ps ! i) = sum_list (map f ps) + (f c :: nat)"
  by (induction ps arbitrary: i) (auto split: nat.split)

lemma poller_off: "rt_off s \<Longrightarrow> poller_step s t \<Longrightarrow> rt_off t"
  by (erule poller_step.cases) (auto simp: rt_off_def)

lemma after_poll_off: "rt_off s \<Longrightarrow> after_poll s = PollTest"
  by (simp add: after_poll_def rx_poll_def rt_off_def)

lemma poller_fuel: "rt_off s \<Longrightarrow> poller_step s t \<Longrightarrow> rt_fuel t < rt_fuel s"
proof -
  assume off: "rt_off s" and step: "poller_step s t"
  from step show ?thesis
  proof cases
    case (rt_test i)
    with off sum_list_goto [of i "rt_pollers s" poller_left PollEnd] show ?thesis by (simp add: rt_fuel_def rt_off_def)
  next
    case (rt_poll i)
    with off sum_list_goto [of i "rt_pollers s" poller_left PollTest] show ?thesis
      by (simp add: rt_fuel_def after_poll_off)
  next
    case (rt_call i n bytes)
    with sum_list_goto [of i "rt_pollers s" poller_left PollTest] sum_list_goto [of i "rt_pollers s" poller_left PollThrow]
    show ?thesis by (simp add: rt_fuel_def)
  next
    case (rt_call_throws i n bytes)
    with sum_list_goto [of i "rt_pollers s" poller_left PollThrow] show ?thesis by (simp add: rt_fuel_def)
  qed
qed

interpretation rtb: bounded_machine poller_step rt_off rt_fuel
  by unfold_locales (auto intro: poller_off poller_fuel)

text \<open>Of the threads, only those that were about to call the callback still do.\<close>

lemma length_filter_sum: "length (filter P xs) = sum_list (map (\<lambda>x. if P x then 1 else 0) xs)"
  by (induction xs) simp_all

lemma rt_calls_left_sum: "rt_calls_left s = sum_list (map (\<lambda>c. if about_to_call c then 1 else 0) (rt_pollers s))"
  by (simp add: rt_calls_left_def length_filter_sum)

lemma poller_calls: "rt_off s \<Longrightarrow> poller_step s t \<Longrightarrow>
  length (rt_called t) + rt_calls_left t \<le> length (rt_called s) + rt_calls_left s"
proof -
  assume off: "rt_off s" and step: "poller_step s t"
  from step show ?thesis
  proof cases
    case (rt_test i)
    with off sum_list_goto [of i "rt_pollers s" "\<lambda>c. if about_to_call c then 1 else 0" PollEnd] show ?thesis by (simp add: rt_calls_left_sum rt_off_def)
  next
    case (rt_poll i)
    with off sum_list_goto [of i "rt_pollers s" "\<lambda>c. if about_to_call c then 1 else 0" PollTest] show ?thesis
      by (simp add: rt_calls_left_sum after_poll_off)
  next
    case (rt_call i n bytes)
    with sum_list_goto [of i "rt_pollers s" "\<lambda>c. if about_to_call c then 1 else 0" PollTest] sum_list_goto [of i "rt_pollers s" "\<lambda>c. if about_to_call c then 1 else 0" PollThrow]
    show ?thesis by (simp add: rt_calls_left_sum)
  next
    case (rt_call_throws i n bytes)
    with sum_list_goto [of i "rt_pollers s" "\<lambda>c. if about_to_call c then 1 else 0" PollThrow]
    show ?thesis by (simp add: rt_calls_left_sum)
  qed
qed

lemma poller_calls_run:
  assumes "(poller_step ^^ n) s t" "rt_off s"
  shows "length (rt_called t) + rt_calls_left t \<le> length (rt_called s) + rt_calls_left s"
  using assms
proof (induction n arbitrary: t)
  case (Suc n)
  then obtain u where u: "(poller_step ^^ n) s u" "poller_step u t" by (auto elim: relpowp_Suc_E)
  with Suc poller_calls [of u t] rtb.run_bound [OF u(1)] show ?case by fastforce
qed simp

lemma fuel_bound: "rt_fuel s \<le> 2 * length (rt_pollers s)"
proof -
  have "sum_list (map poller_left ps) \<le> 2 * length ps" for ps
  proof (induction ps)
    case (Cons c ps)
    then show ?case by (cases c) simp_all
  qed simp
  then show ?thesis by (simp add: rt_fuel_def)
qed

lemma stuck_returned: "\<nexists>t. poller_step s t \<Longrightarrow> c \<in> set (rt_pollers s) \<Longrightarrow> c = PollEnd \<or> c = PollThrow"
  by (cases c) (metis in_set_conv_nth poller_step.intros)+


section \<open>Safety\<close>

text \<open>
  While the receiver exists no thread uses a destroyed one, and each call of the callback gets the
  size of a non-empty message that the channel has held, with as many of its bytes as fit the buffer.
\<close>

theorem receiver_threads_safe:
  assumes "rt_start s" "rt_step\<^sup>*\<^sup>* s t"
  shows "(rt_alive t \<longrightarrow> \<not> rt_dangling t) \<and>
    (\<forall>r \<in> set (rt_called t). \<exists>data \<in> rt_history t. data \<noteq> [] \<and> r = (length data, take MAX_MSG_SIZE data))"
  using rtm.reach_inv [OF assms] by (simp add: rt_inv_def delivery_of_def)

text \<open>Runs: the receiver of the channel \<open>c\<close>, which holds one message.\<close>

definition demo_rx :: rthreads where
  "demo_rx = \<lparr>rt_rx = receiver_new ''c'' qos_default, rt_alive = True,
     rt_memory = (\<lambda>key. if key = ''/lwipc_c'' then Some [7] else None), rt_pollers = [], rt_history = {[7]},
     rt_called = [], rt_dangling = False\<rparr>"

lemmas rx_evals = demo_rx_def receiver_new_def rx_init_def rx_set_callback_def rx_destroy_def rx_shutdown_def Let_def
  after_poll_def rx_poll_def MAX_MSG_SIZE_def

lemma demo_rx_start: "rt_start demo_rx"
  by (auto simp: rt_start_def demo_rx_def rx_key_def receiver_new_def)

lemma rt_stepI: "owner_step s t \<Longrightarrow> rt_step s t" "poller_step s t \<Longrightarrow> rt_step s t"
  by (simp_all add: rt_step_def)

lemmas owner_moves = owner_step.intros [THEN rt_stepI(1)]
lemmas poller_moves = poller_step.intros [THEN rt_stepI(2)]

theorem receiver_threads_safe_witness:
  "\<forall>r \<in> set (rt_called demo_rx). \<exists>data \<in> rt_history demo_rx. data \<noteq> [] \<and> r = (length data, take MAX_MSG_SIZE data)"
  using receiver_threads_safe [OF demo_rx_start rtranclp.rtrancl_refl] by blast

definition demo_polling :: rthreads where
  "demo_polling = demo_rx\<lparr>rt_rx := (rt_rx demo_rx)\<lparr>rx_has_callback := True, rx_initialized := True\<rparr>,
     rt_pollers := [PollCall 1 [7]]\<rparr>"


section \<open>What the threads still do\<close>

text \<open>
  The thread is detached and holds a bare pointer to the receiver. A receiver that is destroyed while
  its thread runs is used after its end, although the destructor has shut it down.
\<close>

theorem receiver_used_after_destruction:
  "\<exists>s t. rt_start s \<and> rt_step\<^sup>*\<^sup>* s t \<and> \<not> rt_alive t \<and> rt_dangling t"
proof (rule exI, rule exI, rule conjI, rule demo_rx_start, rule conjI)
  show "rt_step\<^sup>*\<^sup>* demo_rx \<lparr>rt_rx = \<lparr>rx_channel = ''c'', rx_qos = qos_default, rx_has_callback = True,
     rx_initialized = False, rx_polling = True\<rparr>, rt_alive = False, rt_memory = rt_memory demo_rx,
     rt_pollers = [PollEnd], rt_history = {[7]}, rt_called = [], rt_dangling = True\<rparr>"
    apply (rule run_step, rule owner_moves(1), simp add: rx_evals, simp add: rx_evals)
    apply (rule run_step, rule owner_moves(3) [where callable = True], simp add: rx_evals, simp add: rx_evals)
    apply (rule run_step, rule owner_moves(4), simp add: rx_evals, simp add: rx_evals)
    apply (rule run_step, rule poller_moves(1) [where i = 0], simp add: rx_evals, simp add: rx_evals, simp add: rx_evals)
    apply (rule rtranclp_refl_eq, simp add: rx_evals)
    done
qed simp_all

text \<open>
  The transport hands out its newest message again at every \<open>Poll\<close>, and every \<open>SetCallback\<close> adds a
  thread: a message that was sent once reaches the callback any number of times.
\<close>

theorem receiver_redelivers:
  "\<exists>s t. rt_start s \<and> rt_step\<^sup>*\<^sup>* s t \<and> rt_history t = {[7]} \<and> length (rt_pollers t) = 2 \<and>
     rt_called t = [(1, [7]), (1, [7])]"
proof (rule exI, rule exI, rule conjI, rule demo_rx_start, rule conjI)
  show "rt_step\<^sup>*\<^sup>* demo_rx \<lparr>rt_rx = \<lparr>rx_channel = ''c'', rx_qos = qos_default, rx_has_callback = True,
     rx_initialized = True, rx_polling = True\<rparr>, rt_alive = True, rt_memory = rt_memory demo_rx,
     rt_pollers = [PollTest, PollTest], rt_history = {[7]}, rt_called = [(1, [7]), (1, [7])], rt_dangling = False\<rparr>"
    apply (rule run_step, rule owner_moves(1), simp add: rx_evals, simp add: rx_evals)
    apply (rule run_step, rule owner_moves(3) [where callable = True], simp add: rx_evals, simp add: rx_evals)
    apply (rule run_step, rule owner_moves(3) [where callable = True], simp add: rx_evals, simp add: rx_evals)
    apply (rule run_step, rule poller_moves(1) [where i = 0], simp add: rx_evals, simp add: rx_evals, simp add: rx_evals)
    apply (rule run_step, rule poller_moves(2) [where i = 0], simp add: rx_evals, simp add: rx_evals, simp add: rx_evals)
    apply (rule run_step, rule poller_moves(3) [where i = 0 and n = 1 and bytes = "[7]"], simp add: rx_evals, simp add: rx_evals, simp add: rx_evals)
    apply (rule run_step, rule poller_moves(1) [where i = 1], simp add: rx_evals, simp add: rx_evals, simp add: rx_evals)
    apply (rule run_step, rule poller_moves(2) [where i = 1], simp add: rx_evals, simp add: rx_evals, simp add: rx_evals)
    apply (rule run_step, rule poller_moves(3) [where i = 1 and n = 1 and bytes = "[7]"], simp add: rx_evals, simp add: rx_evals, simp add: rx_evals)
    apply (rule rtranclp_refl_eq, simp add: rx_evals)
    done
qed simp_all

text \<open>
  \<open>callback_\<close> is tested and called without a lock: when it is taken away in between, the call throws
  in a thread that has nothing to catch it.
\<close>

theorem receiver_callback_taken_away:
  "\<exists>s t. rt_start s \<and> rt_step\<^sup>*\<^sup>* s t \<and> rt_alive t \<and> PollThrow \<in> set (rt_pollers t)"
proof (rule exI, rule exI, rule conjI, rule demo_rx_start, rule conjI)
  show "rt_step\<^sup>*\<^sup>* demo_rx \<lparr>rt_rx = \<lparr>rx_channel = ''c'', rx_qos = qos_default, rx_has_callback = False,
     rx_initialized = True, rx_polling = True\<rparr>, rt_alive = True, rt_memory = rt_memory demo_rx,
     rt_pollers = [PollThrow], rt_history = {[7]}, rt_called = [], rt_dangling = False\<rparr>"
    apply (rule run_step, rule owner_moves(1), simp add: rx_evals, simp add: rx_evals)
    apply (rule run_step, rule owner_moves(3) [where callable = True], simp add: rx_evals, simp add: rx_evals)
    apply (rule run_step, rule poller_moves(1) [where i = 0], simp add: rx_evals, simp add: rx_evals, simp add: rx_evals)
    apply (rule run_step, rule poller_moves(2) [where i = 0], simp add: rx_evals, simp add: rx_evals, simp add: rx_evals)
    apply (rule run_step, rule owner_moves(3) [where callable = False], simp add: rx_evals, simp add: rx_evals)
    apply (rule run_step, rule poller_moves(3) [where i = 0 and n = 1 and bytes = "[7]"], simp add: rx_evals, simp add: rx_evals, simp add: rx_evals)
    apply (rule rtranclp_refl_eq, simp add: rx_evals)
    done
qed simp_all

end
