(* ===== verification/RwLock.thy ===== *)
theory RwLock
  imports Interfaces
begin

unbundle bit_operations_syntax

text \<open>
  \<open>include/lwipc/atomic_rw_lock.hpp\<close>: a readers-writer lock in one 32-bit word. The top bit
  marks a writer, the other bits count readers. The calls are modelled one at a time on the
  word itself, then as steps of any number of threads.
\<close>

section \<open>The operations on the word\<close>

definition WRITE_LOCK_BIT :: u32 where
  "WRITE_LOCK_BIT = push_bit 31 1"

definition READER_MASK :: u32 where
  "READER_MASK = NOT WRITE_LOCK_BIT"

text \<open>
  The retry loop of \<open>try_lock_read\<close>; \<open>spur k\<close> is a spurious failure of the \<open>k\<close>-th weak
  exchange. A failed exchange reloads \<open>current\<close>.
\<close>

partial_function (option) rw_read_loop :: "(nat \<Rightarrow> bool) \<Rightarrow> nat \<Rightarrow> u32 \<Rightarrow> u32 \<Rightarrow> (bool \<times> u32) option" where
  "rw_read_loop spur k current st =
     (if st = current \<and> \<not> spur k then Some (True, current + 1)
      else if st AND WRITE_LOCK_BIT \<noteq> 0 then Some (False, st)
      else rw_read_loop spur (k + 1) st st)"

definition rw_try_lock_read :: "(nat \<Rightarrow> bool) \<Rightarrow> u32 \<Rightarrow> (bool \<times> u32) option" where
  "rw_try_lock_read spur st =
     (if st AND WRITE_LOCK_BIT \<noteq> 0 then Some (False, st) else rw_read_loop spur 0 st st)"

definition rw_unlock_read :: "u32 \<Rightarrow> u32" where
  "rw_unlock_read st = st - 1"

definition rw_try_lock_write :: "u32 \<Rightarrow> bool \<times> u32" where
  "rw_try_lock_write st = (if st = 0 then (True, WRITE_LOCK_BIT) else (False, st))"

definition rw_unlock_write :: "u32 \<Rightarrow> u32" where
  "rw_unlock_write st = 0"

definition rw_is_write_locked :: "u32 \<Rightarrow> bool" where
  "rw_is_write_locked st \<longleftrightarrow> st AND WRITE_LOCK_BIT \<noteq> 0"

definition rw_reader_count :: "u32 \<Rightarrow> u32" where
  "rw_reader_count st = st AND READER_MASK"

text \<open>The RAII guards: what construction stores in \<open>locked_\<close> and what destruction does.\<close>

definition read_guard_enter :: "(nat \<Rightarrow> bool) \<Rightarrow> u32 \<Rightarrow> (bool \<times> u32) option" where
  "read_guard_enter spur st = rw_try_lock_read spur st"

definition read_guard_exit :: "bool \<Rightarrow> u32 \<Rightarrow> u32" where
  "read_guard_exit locked st = (if locked then rw_unlock_read st else st)"

definition write_guard_enter :: "u32 \<Rightarrow> bool \<times> u32" where
  "write_guard_enter st = rw_try_lock_write st"

definition write_guard_exit :: "bool \<Rightarrow> u32 \<Rightarrow> u32" where
  "write_guard_exit locked st = (if locked then rw_unlock_write st else st)"

text \<open>The word as numbers: below \<open>2 ^ 31\<close> there is no writer and the word counts readers.\<close>

lemma write_bit_value: "unat WRITE_LOCK_BIT = 2 ^ 31"
  by (simp add: WRITE_LOCK_BIT_def)

lemma write_bit_nonzero [simp]: "WRITE_LOCK_BIT \<noteq> 0"
  by (simp add: WRITE_LOCK_BIT_def)

lemma write_bit_clear_iff: "(w :: u32) AND WRITE_LOCK_BIT = 0 \<longleftrightarrow> unat w < 2 ^ 31"
proof -
  have lt: "unat w < 2 ^ LENGTH(32)" by (rule unsigned_less)
  have "(w AND WRITE_LOCK_BIT = 0) \<longleftrightarrow> \<not> bit w 31"
    using and_exp_eq_0_iff_not_bit [of w 31] by (simp add: WRITE_LOCK_BIT_def)
  also have "bit w 31 \<longleftrightarrow> bit (unat w) 31" by (simp add: bit_unsigned_iff)
  also have "\<dots> \<longleftrightarrow> odd (unat w div 2 ^ 31)" by (rule bit_iff_odd)
  also have "\<dots> \<longleftrightarrow> \<not> unat w < 2 ^ 31"
  proof (cases "unat w < 2 ^ 31")
    case False
    then have "unat w div 2 ^ 31 = 1" using lt by (intro div_nat_eqI) auto
    with False show ?thesis by simp
  qed simp
  finally show ?thesis by simp
qed

lemma reader_count_value: "unat w < 2 ^ 31 \<Longrightarrow> rw_reader_count w = w"
proof -
  assume "unat w < 2 ^ 31"
  then have z: "w AND WRITE_LOCK_BIT = 0" by (simp add: write_bit_clear_iff)
  have "w = (w AND WRITE_LOCK_BIT) OR (w AND NOT WRITE_LOCK_BIT)"
    by (rule bit_word_eqI) (auto simp: bit_simps)
  with z show ?thesis by (simp add: rw_reader_count_def READER_MASK_def)
qed

lemma unat_succ_small: "unat (w :: u32) < 2 ^ 31 \<Longrightarrow> unat (w + 1) = Suc (unat w)"
  by (simp add: unat_word_ariths)

lemma unat_pred: "w \<noteq> (0 :: u32) \<Longrightarrow> unat (w - 1) = unat w - 1"
  by (simp add: unat_minus_one)

lemma read_loop_free:
  assumes "st AND WRITE_LOCK_BIT = 0" "k \<le> m" "\<not> spur m"
  shows "rw_read_loop spur k st st = Some (True, st + 1)"
  using assms(2)
proof (induction "m - k" arbitrary: k)
  case 0
  then show ?case using assms(3) by (subst rw_read_loop.simps) simp
next
  case (Suc j)
  then have "rw_read_loop spur (k + 1) st st = Some (True, st + 1)" by simp
  then show ?case using assms(1) by (subst rw_read_loop.simps) simp
qed

lemma try_lock_read_cases:
  assumes "\<not> spur m"
  shows "rw_try_lock_read spur st =
    (if rw_is_write_locked st then Some (False, st) else Some (True, st + 1))"
  using read_loop_free [of st 0 m spur] assms by (simp add: rw_try_lock_read_def rw_is_write_locked_def)

section \<open>Threads\<close>

datatype rw_pc = RwIdle | RwTry u32 | RwReading | RwWriting

record rw_sys =
  rw_state :: u32
  rw_pcs :: "rw_pc list"

definition rw_start :: "rw_sys \<Rightarrow> bool" where
  "rw_start s \<longleftrightarrow> rw_state s = 0 \<and> length (rw_pcs s) < 2 ^ 31 \<and> (\<forall>c \<in> set (rw_pcs s). c = RwIdle)"

abbreviation rw_goto :: "nat \<Rightarrow> rw_pc \<Rightarrow> rw_sys \<Rightarrow> rw_sys" where
  "rw_goto i c s \<equiv> s\<lparr>rw_pcs := (rw_pcs s)[i := c]\<rparr>"

text \<open>
  A failed \<open>try_lock_read\<close> or \<open>try_lock_write\<close> goes back to idle. \<open>rw_retry\<close> covers the
  exchange that fails because the word changed and the one that fails spuriously.
\<close>

inductive rw_step :: "rw_sys \<Rightarrow> rw_sys \<Rightarrow> bool" where
  rw_load: "i < length (rw_pcs s) \<Longrightarrow> rw_pcs s ! i = RwIdle \<Longrightarrow> rw_state s AND WRITE_LOCK_BIT = 0 \<Longrightarrow>
     rw_step s (rw_goto i (RwTry (rw_state s)) s)"
| rw_refuse: "i < length (rw_pcs s) \<Longrightarrow> rw_pcs s ! i = RwIdle \<Longrightarrow> rw_state s AND WRITE_LOCK_BIT \<noteq> 0 \<Longrightarrow>
     rw_step s s"
| rw_enter: "i < length (rw_pcs s) \<Longrightarrow> rw_pcs s ! i = RwTry c \<Longrightarrow> rw_state s = c \<Longrightarrow>
     rw_step s (rw_goto i RwReading (s\<lparr>rw_state := c + 1\<rparr>))"
| rw_retry: "i < length (rw_pcs s) \<Longrightarrow> rw_pcs s ! i = RwTry c \<Longrightarrow> rw_state s AND WRITE_LOCK_BIT = 0 \<Longrightarrow>
     rw_step s (rw_goto i (RwTry (rw_state s)) s)"
| rw_give_up: "i < length (rw_pcs s) \<Longrightarrow> rw_pcs s ! i = RwTry c \<Longrightarrow> rw_state s AND WRITE_LOCK_BIT \<noteq> 0 \<Longrightarrow>
     rw_step s (rw_goto i RwIdle s)"
| rw_leave: "i < length (rw_pcs s) \<Longrightarrow> rw_pcs s ! i = RwReading \<Longrightarrow>
     rw_step s (rw_goto i RwIdle (s\<lparr>rw_state := rw_unlock_read (rw_state s)\<rparr>))"
| rw_write: "i < length (rw_pcs s) \<Longrightarrow> rw_pcs s ! i = RwIdle \<Longrightarrow> rw_try_lock_write (rw_state s) = (True, st) \<Longrightarrow>
     rw_step s (rw_goto i RwWriting (s\<lparr>rw_state := st\<rparr>))"
| rw_write_busy: "i < length (rw_pcs s) \<Longrightarrow> rw_pcs s ! i = RwIdle \<Longrightarrow> rw_try_lock_write (rw_state s) = (False, st) \<Longrightarrow>
     rw_step s (s\<lparr>rw_state := st\<rparr>)"
| rw_unwrite: "i < length (rw_pcs s) \<Longrightarrow> rw_pcs s ! i = RwWriting \<Longrightarrow>
     rw_step s (rw_goto i RwIdle (s\<lparr>rw_state := rw_unlock_write (rw_state s)\<rparr>))"

text \<open>The number of threads in a given position, and how it changes when one thread moves.\<close>

definition rw_at :: "rw_pc \<Rightarrow> rw_sys \<Rightarrow> nat" where
  "rw_at c s = count_list (rw_pcs s) c"

lemma count_list_update:
  "i < length xs \<Longrightarrow> count_list (xs[i := y]) c + (if xs ! i = c then 1 else 0) = count_list xs c + (if y = c then 1 else 0)"
proof (induction xs arbitrary: i)
  case (Cons x xs)
  then show ?case using Cons.IH [of "i - 1"] by (cases i; cases "y = c") simp_all
qed simp

definition rw_inv :: "rw_sys \<Rightarrow> bool" where
  "rw_inv s \<longleftrightarrow> length (rw_pcs s) < 2 ^ 31 \<and>
     (\<forall>c. RwTry c \<in> set (rw_pcs s) \<longrightarrow> unat c < 2 ^ 31) \<and>
     (rw_at RwWriting s = 0 \<and> unat (rw_state s) = rw_at RwReading s \<or>
      rw_at RwWriting s = 1 \<and> rw_at RwReading s = 0 \<and> rw_state s = WRITE_LOCK_BIT)"

lemma rw_at_goto:
  assumes "i < length (rw_pcs s)"
  shows "rw_at RwReading (rw_goto i c (s\<lparr>rw_state := w\<rparr>)) + (if rw_pcs s ! i = RwReading then 1 else 0)
       = rw_at RwReading s + (if c = RwReading then 1 else 0)"
    and "rw_at RwWriting (rw_goto i c (s\<lparr>rw_state := w\<rparr>)) + (if rw_pcs s ! i = RwWriting then 1 else 0)
       = rw_at RwWriting s + (if c = RwWriting then 1 else 0)"
  using count_list_update [OF assms] by (simp_all add: rw_at_def)

lemma rw_at_pos: "i < length (rw_pcs s) \<Longrightarrow> rw_pcs s ! i = d \<Longrightarrow> 0 < rw_at d s"
  unfolding rw_at_def by (metis count_list_0_iff gr0I nth_mem)

lemma rw_at_le: "rw_at d s \<le> length (rw_pcs s)"
  unfolding rw_at_def by (rule count_le_length)

lemma rw_goto_inv:
  assumes "rw_inv s" "i < length (rw_pcs s)" "\<And>c'. c = RwTry c' \<Longrightarrow> unat c' < 2 ^ 31"
    and "rw_at RwWriting (rw_goto i c (s\<lparr>rw_state := w\<rparr>)) = 0 \<and>
           unat w = rw_at RwReading (rw_goto i c (s\<lparr>rw_state := w\<rparr>)) \<or>
         rw_at RwWriting (rw_goto i c (s\<lparr>rw_state := w\<rparr>)) = 1 \<and>
           rw_at RwReading (rw_goto i c (s\<lparr>rw_state := w\<rparr>)) = 0 \<and> w = WRITE_LOCK_BIT"
  shows "rw_inv (rw_goto i c (s\<lparr>rw_state := w\<rparr>))"
proof -
  have "unat c' < 2 ^ 31" if "RwTry c' \<in> set ((rw_pcs s)[i := c])" for c'
    using that set_update_subset_insert [of "rw_pcs s" i c] assms(1,3) by (auto simp: rw_inv_def)
  with assms(1,4) show ?thesis by (simp add: rw_inv_def)
qed

lemma rw_quiet_inv:
  assumes "rw_inv s" "i < length (rw_pcs s)" "\<And>c'. c = RwTry c' \<Longrightarrow> unat c' < 2 ^ 31"
    and "rw_pcs s ! i \<noteq> RwReading" "rw_pcs s ! i \<noteq> RwWriting" "c \<noteq> RwReading" "c \<noteq> RwWriting"
  shows "rw_inv (rw_goto i c s)"
proof -
  let ?t = "rw_goto i c (s\<lparr>rw_state := rw_state s\<rparr>)"
  have "rw_at RwReading ?t = rw_at RwReading s" "rw_at RwWriting ?t = rw_at RwWriting s"
    using rw_at_goto [OF assms(2), where c = c and w = "rw_state s"] assms(4-7) by simp_all
  moreover have "rw_at RwWriting s = 0 \<and> unat (rw_state s) = rw_at RwReading s \<or>
      rw_at RwWriting s = 1 \<and> rw_at RwReading s = 0 \<and> rw_state s = WRITE_LOCK_BIT"
    using assms(1) unfolding rw_inv_def by blast
  ultimately have "rw_inv ?t"
    by (intro rw_goto_inv [OF assms(1,2,3)]) simp_all
  then show ?thesis by simp
qed

lemma rw_state_write_bit:
  assumes "rw_inv s"
  shows "rw_is_write_locked (rw_state s) \<longleftrightarrow> 0 < rw_at RwWriting s"
proof -
  have "rw_at RwReading s < 2 ^ 31" using assms rw_at_le [of RwReading s] by (simp add: rw_inv_def)
  with assms show ?thesis
    by (auto simp: rw_is_write_locked_def rw_inv_def write_bit_clear_iff write_bit_value)
qed

lemma rw_step_inv [model_inv]: "rw_step s t \<Longrightarrow> rw_inv s \<Longrightarrow> rw_inv t"
proof (induction rule: rw_step.induct)
  case (rw_load i s)
  then show ?case by (intro rw_quiet_inv) (auto simp: write_bit_clear_iff)
next
  case (rw_retry i s c)
  then show ?case by (intro rw_quiet_inv) (auto simp: write_bit_clear_iff)
next
  case (rw_give_up i s c)
  then show ?case by (intro rw_quiet_inv) auto
next
  case (rw_enter i s c)
  then have "RwTry c \<in> set (rw_pcs s)" by (metis nth_mem)
  with rw_enter have c: "unat c < 2 ^ 31" by (simp add: rw_inv_def)
  with rw_enter have "rw_at RwWriting s = 0" "unat c = rw_at RwReading s"
    by (auto simp: rw_inv_def write_bit_value)
  with rw_enter c show ?case
    using rw_goto_inv [of s i RwReading "c + 1"] rw_at_goto [where i = i and s = s and c = RwReading and w = "c + 1"]
    by (simp add: unat_succ_small)
next
  case (rw_leave i s)
  then have "0 < rw_at RwReading s" by (simp add: rw_at_pos)
  with rw_leave have st: "rw_at RwWriting s = 0" "unat (rw_state s) = rw_at RwReading s" "rw_state s \<noteq> 0"
    by (auto simp: rw_inv_def)
  with rw_leave show ?case
    using rw_goto_inv [of s i RwIdle "rw_state s - 1"] rw_at_goto [where i = i and s = s and c = RwIdle and w = "rw_state s - 1"]
    by (simp add: rw_unlock_read_def unat_pred)
next
  case (rw_write i s st)
  then have st: "rw_state s = 0" "st = WRITE_LOCK_BIT" by (auto simp: rw_try_lock_write_def split: if_splits)
  with rw_write have "rw_at RwWriting s = 0" "rw_at RwReading s = 0"
    using write_bit_value by (auto simp: rw_inv_def)
  with rw_write st show ?case
    using rw_goto_inv [of s i RwWriting st] rw_at_goto [where i = i and s = s and c = RwWriting and w = st] by simp
next
  case (rw_write_busy i s st)
  then show ?case by (auto simp: rw_try_lock_write_def split: if_splits)
next
  case (rw_unwrite i s)
  then have "0 < rw_at RwWriting s" by (simp add: rw_at_pos)
  with rw_unwrite have "rw_at RwWriting s = 1" "rw_at RwReading s = 0" by (auto simp: rw_inv_def)
  with rw_unwrite show ?case
    using rw_goto_inv [of s i RwIdle 0] rw_at_goto [where i = i and s = s and c = RwIdle and w = 0]
    by (simp add: rw_unlock_write_def)
qed simp

lemma rw_start_inv: "rw_start s \<Longrightarrow> rw_inv s"
  by (auto simp: rw_start_def rw_inv_def rw_at_def count_list_0_iff)

interpretation rwm: safe_machine rw_start rw_step rw_inv
  by unfold_locales (auto intro: rw_start_inv rw_step_inv)

lemma count_two_positions:
  assumes "i < length xs" "j < length xs" "i \<noteq> j" "xs ! i = c" "xs ! j = c"
  shows "2 \<le> count_list xs c"
  using assms
proof (induction xs arbitrary: i j)
  case (Cons x xs)
  then show ?case
  proof (cases "i = 0 \<or> j = 0")
    case True
    with Cons.prems have "x = c" "c \<in> set xs" by (cases i; cases j; force)+
    then show ?thesis using count_list_0_iff [of xs c] by (simp add: Suc_le_eq)
  next
    case False
    then obtain i' j' where "i = Suc i'" "j = Suc j'" by (metis not0_implies_Suc)
    with Cons.prems Cons.IH [of i' j'] show ?thesis by simp
  qed
qed simp

lemma rw_inv_exclusive:
  assumes "rw_inv s" "i < length (rw_pcs s)" "rw_pcs s ! i = RwWriting"
    and "j < length (rw_pcs s)" "rw_pcs s ! j = RwReading \<or> rw_pcs s ! j = RwWriting"
  shows "j = i"
proof (rule ccontr)
  assume ne: "j \<noteq> i"
  have "0 < rw_at RwWriting s" using rw_at_pos assms(2,3) by blast
  with assms(1) have w: "rw_at RwWriting s = 1" "rw_at RwReading s = 0" by (auto simp: rw_inv_def)
  show False
    using assms(5) count_two_positions [OF assms(4,2) ne _ assms(3)] rw_at_pos [OF assms(4), of RwReading] w
    by (auto simp: rw_at_def)
qed

lemma rw_inv_no_writer:
  assumes "rw_inv s" "unat (rw_state s) < 2 ^ 31" "i < length (rw_pcs s)"
  shows "rw_pcs s ! i \<noteq> RwWriting"
  using assms rw_at_pos [of i s RwWriting] by (auto simp: rw_inv_def write_bit_value)

lemma rw_inv_unlocked:
  assumes "rw_inv s" "rw_state s = 0" "i < length (rw_pcs s)"
  shows "rw_pcs s ! i \<noteq> RwWriting \<and> rw_pcs s ! i \<noteq> RwReading"
  using assms rw_at_pos [of i s RwWriting] rw_at_pos [of i s RwReading] by (auto simp: rw_inv_def)

text \<open>
  Mutual exclusion: with fewer than \<open>2 ^ 31\<close> threads, in every reachable interleaving a
  thread that holds the write lock is the only thread that holds the lock in any mode.
\<close>

theorem rw_mutual_exclusion:
  assumes "rw_start s" "rw_step\<^sup>*\<^sup>* s t" "i < length (rw_pcs t)" "j < length (rw_pcs t)"
    and "rw_pcs t ! i = RwWriting" "i \<noteq> j"
  shows "rw_pcs t ! j \<noteq> RwWriting \<and> rw_pcs t ! j \<noteq> RwReading"
  using rw_inv_exclusive [OF rwm.reach_inv [OF assms(1,2)]] assms(3-6) by blast

text \<open>
  In every reachable interleaving the two observers tell the truth:
  \<open>is_write_locked\<close> says whether a thread is writing, and \<open>reader_count\<close> is the number of reading threads.
\<close>

theorem rw_observers_exact:
  assumes "rw_start s" "rw_step\<^sup>*\<^sup>* s t"
  shows "(rw_is_write_locked (rw_state t) \<longleftrightarrow> 0 < rw_at RwWriting t) \<and>
    unat (rw_reader_count (rw_state t)) = rw_at RwReading t"
proof
  have inv: "rw_inv t" by (rule rwm.reach_inv [OF assms])
  then show "rw_is_write_locked (rw_state t) \<longleftrightarrow> 0 < rw_at RwWriting t"
    by (rule rw_state_write_bit)
  have lt: "rw_at RwReading t < 2 ^ 31" using inv rw_at_le [of RwReading t] by (simp add: rw_inv_def)
  have "rw_reader_count WRITE_LOCK_BIT = 0"
    by (simp add: rw_reader_count_def READER_MASK_def)
  with inv lt show "unat (rw_reader_count (rw_state t)) = rw_at RwReading t"
    by (auto simp: rw_inv_def reader_count_value)
qed

lemma rw_demo_start: "rw_start \<lparr>rw_state = 0, rw_pcs = [RwIdle, RwIdle]\<rparr>"
  by (simp add: rw_start_def)

lemma rw_demo_run:
  "rw_step\<^sup>*\<^sup>* \<lparr>rw_state = 0, rw_pcs = [RwIdle, RwIdle]\<rparr>
     \<lparr>rw_state = WRITE_LOCK_BIT, rw_pcs = [RwWriting, RwIdle]\<rparr>"
  apply (rule converse_rtranclp_into_rtranclp, rule rw_write [where i = 0])
     apply (simp_all add: rw_try_lock_write_def)
  apply (rule rtranclp.rtrancl_refl)
  done

theorem rw_mutual_exclusion_witness:
  "\<exists>t. rw_step\<^sup>*\<^sup>* \<lparr>rw_state = 0, rw_pcs = [RwIdle, RwIdle]\<rparr> t \<and> rw_pcs t ! 0 = RwWriting \<and>
     rw_pcs t ! 1 \<noteq> RwWriting \<and> rw_pcs t ! 1 \<noteq> RwReading"
  using rw_demo_run rw_mutual_exclusion [OF rw_demo_start rw_demo_run, of 0 1]
  by (intro exI [of _ "\<lparr>rw_state = WRITE_LOCK_BIT, rw_pcs = [RwWriting, RwIdle]\<rparr>"]) simp

theorem rw_observers_exact_witness:
  "rw_is_write_locked WRITE_LOCK_BIT \<and> unat (rw_reader_count WRITE_LOCK_BIT) = 0"
  using rw_observers_exact [OF rw_demo_start rw_demo_run] by (simp add: rw_at_def)

text \<open>
  The reader count can overflow into the writer bit: with \<open>2 ^ 31 - 1\<close> readers and no
  writer, \<open>try_lock_read\<close> still succeeds, and afterwards the lock claims to be held by a writer
  and by no reader at all.
\<close>

theorem rw_reader_overflow:
  assumes "\<not> spur m" "unat st = 2 ^ 31 - 1"
  shows "\<not> rw_is_write_locked st \<and> (\<exists>st'. rw_try_lock_read spur st = Some (True, st') \<and>
     rw_is_write_locked st' \<and> rw_reader_count st' = 0)"
proof -
  have free: "st AND WRITE_LOCK_BIT = 0" using assms(2) by (simp add: write_bit_clear_iff)
  have "unat (st + 1) = unat WRITE_LOCK_BIT" using assms(2) by (simp add: unat_succ_small write_bit_value)
  then have "st + 1 = WRITE_LOCK_BIT" by (simp add: word_unat_eq_iff)
  moreover have "rw_is_write_locked WRITE_LOCK_BIT"
    by (simp add: rw_is_write_locked_def write_bit_clear_iff write_bit_value)
  ultimately show ?thesis
    using free by (simp add: try_lock_read_cases [of spur m, OF assms(1)] rw_is_write_locked_def
        rw_reader_count_def READER_MASK_def)
qed

theorem rw_reader_overflow_witness:
  "\<exists>st'. rw_try_lock_read even (2147483647 :: u32) = Some (True, st') \<and> rw_is_write_locked st'"
  using rw_reader_overflow [of even 1 2147483647] by auto

text \<open>A guard's scope leaves the lock word as it found it, whether or not it got the lock.\<close>

lemma read_guard_scope:
  "read_guard_enter spur st = Some (b, st') \<Longrightarrow> \<not> spur m \<Longrightarrow> read_guard_exit b st' = st"
  by (auto simp: read_guard_enter_def read_guard_exit_def rw_unlock_read_def try_lock_read_cases split: if_splits)

lemma write_guard_scope:
  "write_guard_enter st = (b, st') \<Longrightarrow> write_guard_exit b st' = st"
  by (auto simp: write_guard_enter_def write_guard_exit_def rw_unlock_write_def rw_try_lock_write_def split: if_splits)

end
