(* ===== verification/RwWeak.thy ===== *)
theory RwWeak
  imports RwLock Ordering
begin

text \<open>
  The readers-writer lock of \<open>include/lwipc/atomic_rw_lock.hpp\<close> under its memory orders, and the plain
  accesses that its users make to the data it protects. The plain loads and the failing exchanges of
  \<open>state_\<close> may find any old value of it; a successful exchange works on the latest one.
\<close>

section \<open>Steps\<close>

record rw_orders =
  ro_read_lock :: memory_order
  ro_read_unlock :: memory_order
  ro_write_lock :: memory_order
  ro_write_unlock :: memory_order

definition rw_code_orders :: rw_orders where
  "rw_code_orders = \<lparr>ro_read_lock = Acquire, ro_read_unlock = Release, ro_write_lock = Acquire, ro_write_unlock = Release\<rparr>"

text \<open>
  \<open>rk_log\<close> are the messages of \<open>state_\<close>. \<open>rk_access\<close> are the accesses to the protected data so far, \<open>True\<close>
  for those that write; an access is named by its index. \<open>rk_knows i\<close> are the accesses that happen before
  what thread \<open>i\<close> does next.
\<close>

record rw_weak =
  rk_sys :: rw_sys
  rk_log :: "(u32, nat set) messages"
  rk_knows :: "nat \<Rightarrow> nat set"
  rk_access :: "bool list"
  rk_raced :: bool

definition rw_weak_start :: "rw_weak \<Rightarrow> bool" where
  "rw_weak_start s \<longleftrightarrow> rw_start (rk_sys s) \<and> rk_log s = [(0, {})] \<and> (\<forall>i. rk_knows s i = {}) \<and> rk_access s = [] \<and> \<not> rk_raced s"

abbreviation rk_pc :: "rw_weak \<Rightarrow> nat \<Rightarrow> rw_pc" where
  "rk_pc s i \<equiv> rw_pcs (rk_sys s) ! i"

definition rk_goto :: "nat \<Rightarrow> rw_pc \<Rightarrow> rw_weak \<Rightarrow> rw_weak" where
  "rk_goto i c s = s\<lparr>rk_sys := rw_goto i c (rk_sys s)\<rparr>"

text \<open>The accesses so far, and those of them that write.\<close>

definition rk_all :: "rw_weak \<Rightarrow> nat set" where
  "rk_all s = {a. a < length (rk_access s)}"

definition rk_writes :: "rw_weak \<Rightarrow> nat set" where
  "rk_writes s = {a. a < length (rk_access s) \<and> rk_access s ! a}"

text \<open>
  A read-modify-write continues the release sequence of the message it replaces: its message has the
  knowledge of that one, and that of the thread when it releases. A store begins a new sequence.
\<close>

definition rk_known :: "rw_weak \<Rightarrow> nat set" where
  "rk_known s = snd (last (rk_log s))"

definition rk_exchange :: "memory_order \<Rightarrow> nat \<Rightarrow> u32 \<Rightarrow> rw_weak \<Rightarrow> rw_weak" where
  "rk_exchange ord i w s = s\<lparr>rk_sys := (rk_sys s)\<lparr>rw_state := w\<rparr>,
     rk_log := rk_log s @ [(w, if ord = Release then rk_known s \<union> rk_knows s i else rk_known s)],
     rk_knows := (rk_knows s)(i := if ord = Acquire then rk_knows s i \<union> rk_known s else rk_knows s i)\<rparr>"

definition rk_store :: "memory_order \<Rightarrow> nat \<Rightarrow> u32 \<Rightarrow> rw_weak \<Rightarrow> rw_weak" where
  "rk_store ord i w s = s\<lparr>rk_sys := (rk_sys s)\<lparr>rw_state := w\<rparr>,
     rk_log := rk_log s @ [(w, if ord = Release then rk_knows s i else {})]\<rparr>"

text \<open>A write conflicts with every access, a read with the writes.\<close>

definition rk_data_access :: "bool \<Rightarrow> nat \<Rightarrow> rw_weak \<Rightarrow> rw_weak" where
  "rk_data_access writes i s = s\<lparr>rk_access := rk_access s @ [writes],
     rk_knows := (rk_knows s)(i := insert (length (rk_access s)) (rk_knows s i)),
     rk_raced := (rk_raced s \<or> \<not> (if writes then rk_all s else rk_writes s) \<subseteq> rk_knows s i)\<rparr>"

inductive rw_weak_step :: "rw_orders \<Rightarrow> rw_weak \<Rightarrow> rw_weak \<Rightarrow> bool" for ord where
  rkw_load: "i < length (rw_pcs (rk_sys s)) \<Longrightarrow> rk_pc s i = RwIdle \<Longrightarrow> (c, known) \<in> set (rk_log s) \<Longrightarrow>
     c AND WRITE_LOCK_BIT = 0 \<Longrightarrow> rw_weak_step ord s (rk_goto i (RwTry c) s)"
| rkw_enter: "i < length (rw_pcs (rk_sys s)) \<Longrightarrow> rk_pc s i = RwTry c \<Longrightarrow> rw_state (rk_sys s) = c \<Longrightarrow>
     rw_weak_step ord s (rk_goto i RwReading (rk_exchange (ro_read_lock ord) i (c + 1) s))"
| rkw_retry: "i < length (rw_pcs (rk_sys s)) \<Longrightarrow> rk_pc s i = RwTry c \<Longrightarrow> (c', known) \<in> set (rk_log s) \<Longrightarrow>
     c' AND WRITE_LOCK_BIT = 0 \<Longrightarrow> rw_weak_step ord s (rk_goto i (RwTry c') s)"
| rkw_give_up: "i < length (rw_pcs (rk_sys s)) \<Longrightarrow> rk_pc s i = RwTry c \<Longrightarrow> (c', known) \<in> set (rk_log s) \<Longrightarrow>
     c' AND WRITE_LOCK_BIT \<noteq> 0 \<Longrightarrow> rw_weak_step ord s (rk_goto i RwIdle s)"
| rkw_leave: "i < length (rw_pcs (rk_sys s)) \<Longrightarrow> rk_pc s i = RwReading \<Longrightarrow>
     rw_weak_step ord s (rk_goto i RwIdle (rk_exchange (ro_read_unlock ord) i (rw_unlock_read (rw_state (rk_sys s))) s))"
| rkw_write: "i < length (rw_pcs (rk_sys s)) \<Longrightarrow> rk_pc s i = RwIdle \<Longrightarrow> rw_try_lock_write (rw_state (rk_sys s)) = (True, st) \<Longrightarrow>
     rw_weak_step ord s (rk_goto i RwWriting (rk_exchange (ro_write_lock ord) i st s))"
| rkw_unwrite: "i < length (rw_pcs (rk_sys s)) \<Longrightarrow> rk_pc s i = RwWriting \<Longrightarrow>
     rw_weak_step ord s (rk_goto i RwIdle (rk_store (ro_write_unlock ord) i (rw_unlock_write (rw_state (rk_sys s))) s))"
| rkw_read_data: "i < length (rw_pcs (rk_sys s)) \<Longrightarrow> rk_pc s i \<in> {RwReading, RwWriting} \<Longrightarrow>
     rw_weak_step ord s (rk_data_access False i s)"
| rkw_write_data: "i < length (rw_pcs (rk_sys s)) \<Longrightarrow> rk_pc s i = RwWriting \<Longrightarrow>
     rw_weak_step ord s (rk_data_access True i s)"

text \<open>A call that is refused changes nothing: \<open>try_lock_write\<close> with any value of \<open>state_\<close> other than 0, \<open>try_lock_read\<close> with the bit set.\<close>

section \<open>Invariant\<close>

text \<open>
  The latest message knows all writes while nobody writes, and together with the readers it knows all
  reads; readers know all writes, and a writer knows everything.
\<close>

abbreviation rk_at :: "rw_weak \<Rightarrow> nat \<Rightarrow> rw_pc \<Rightarrow> bool" where
  "rk_at s i c \<equiv> i < length (rw_pcs (rk_sys s)) \<and> rk_pc s i = c"

definition rk_inv :: "rw_weak \<Rightarrow> bool" where
  "rk_inv s \<longleftrightarrow> rw_inv (rk_sys s) \<and> \<not> rk_raced s \<and>
     ((\<forall>i. \<not> rk_at s i RwWriting) \<longrightarrow> rk_writes s \<subseteq> rk_known s) \<and>
     (\<forall>a \<in> rk_all s. a \<in> rk_known s \<or> (\<exists>i. (rk_at s i RwReading \<or> rk_at s i RwWriting) \<and> a \<in> rk_knows s i)) \<and>
     (\<forall>i. rk_at s i RwReading \<longrightarrow> rk_writes s \<subseteq> rk_knows s i) \<and>
     (\<forall>i. rk_at s i RwWriting \<longrightarrow> rk_all s \<subseteq> rk_knows s i)"

lemma rk_writes_all: "rk_writes s \<subseteq> rk_all s"
  by (auto simp: rk_writes_def rk_all_def)

lemmas rk_defs = rk_goto_def rk_exchange_def rk_store_def rk_data_access_def rk_known_def rk_all_def rk_writes_def


lemma rkw_sys:
  "rw_weak_step ord s t \<Longrightarrow> rw_inv (rk_sys s) \<Longrightarrow> rw_inv (rk_sys t)"
proof (induction rule: rw_weak_step.induct)
  case (rkw_load i s c known)
  then show ?case by (auto simp: rk_goto_def write_bit_clear_iff intro!: rw_quiet_inv)
next
  case (rkw_enter i s c)
  then have "rw_step (rk_sys s) (rw_goto i RwReading ((rk_sys s)\<lparr>rw_state := c + 1\<rparr>))" by (intro rw_step.intros)
  from rw_step_inv [OF this rkw_enter(4)] show ?case by (simp add: rk_goto_def rk_exchange_def)
next
  case (rkw_retry i s c c' known)
  then show ?case by (auto simp: rk_goto_def write_bit_clear_iff intro!: rw_quiet_inv)
next
  case (rkw_give_up i s c c' known)
  then show ?case by (auto simp: rk_goto_def intro!: rw_quiet_inv)
next
  case (rkw_leave i s)
  then have "rw_step (rk_sys s) (rw_goto i RwIdle ((rk_sys s)\<lparr>rw_state := rw_unlock_read (rw_state (rk_sys s))\<rparr>))"
    by (intro rw_step.intros)
  from rw_step_inv [OF this rkw_leave(3)] show ?case by (simp add: rk_goto_def rk_exchange_def)
next
  case (rkw_write i s st)
  then have "rw_step (rk_sys s) (rw_goto i RwWriting ((rk_sys s)\<lparr>rw_state := st\<rparr>))" by (intro rw_step.intros)
  from rw_step_inv [OF this rkw_write(4)] show ?case by (simp add: rk_goto_def rk_exchange_def)
next
  case (rkw_unwrite i s)
  then have "rw_step (rk_sys s) (rw_goto i RwIdle ((rk_sys s)\<lparr>rw_state := rw_unlock_write (rw_state (rk_sys s))\<rparr>))"
    by (intro rw_step.intros)
  from rw_step_inv [OF this rkw_unwrite(3)] show ?case by (simp add: rk_goto_def rk_store_def)
qed (simp_all add: rk_data_access_def)

lemma rk_invD:
  assumes "rk_inv s"
  shows "rw_inv (rk_sys s)" "\<not> rk_raced s"
    "(\<And>i. \<not> rk_at s i RwWriting) \<Longrightarrow> rk_writes s \<subseteq> rk_known s"
    "a \<in> rk_all s \<Longrightarrow> a \<notin> rk_known s \<Longrightarrow> \<exists>i. (rk_at s i RwReading \<or> rk_at s i RwWriting) \<and> a \<in> rk_knows s i"
    "rk_at s i RwReading \<Longrightarrow> rk_writes s \<subseteq> rk_knows s i"
    "rk_at s i RwWriting \<Longrightarrow> rk_all s \<subseteq> rk_knows s i"
  using assms unfolding rk_inv_def by blast+

text \<open>A thread that neither had the lock nor gets it changes nothing that the invariant is about.\<close>

lemma rk_quiet_inv:
  assumes "rk_inv s" "rw_inv (rk_sys (rk_goto i c s))"
    and "rk_pc s i \<noteq> RwReading" "rk_pc s i \<noteq> RwWriting" "c \<noteq> RwReading" "c \<noteq> RwWriting"
  shows "rk_inv (rk_goto i c s)"
proof -
  have at: "rk_at (rk_goto i c s) j d \<longleftrightarrow> rk_at s j d" if "d = RwReading \<or> d = RwWriting" for j d
    using that assms(3-6) by (cases "j = i") (auto simp: rk_goto_def)
  have "rk_known (rk_goto i c s) = rk_known s" "rk_knows (rk_goto i c s) = rk_knows s"
    "rk_all (rk_goto i c s) = rk_all s" "rk_writes (rk_goto i c s) = rk_writes s"
    by (simp_all add: rk_defs)
  with assms(1,2) at show ?thesis unfolding rk_inv_def by (simp add: rk_goto_def)
qed

lemma rk_lock_inv:
  assumes inv: "rk_inv s" and sys: "rw_inv (rk_sys t)" and t: "t = rk_goto i d (rk_exchange Acquire i w s)"
    and i: "i < length (rw_pcs (rk_sys s))" and free: "\<And>j. \<not> rk_at s j RwWriting"
    and d: "d = RwReading \<or> d = RwWriting \<and> (\<forall>j. \<not> rk_at s j RwReading)"
  shows "rk_inv t"
proof -
  have same: "rk_known t = rk_known s" "rk_all t = rk_all s" "rk_writes t = rk_writes s" "rk_raced t = rk_raced s"
    "rk_knows t = (rk_knows s)(i := rk_knows s i \<union> rk_known s)"
    "\<And>j c. rk_at t j c \<longleftrightarrow> (if j = i then c = d else rk_at s j c)"
    using i by (auto simp: t rk_defs)
  have w: "rk_writes s \<subseteq> rk_known s" using rk_invD(3) [OF inv] free by blast
  have all: "\<exists>j. rk_at s j RwReading \<and> a \<in> rk_knows s j" if "a \<in> rk_all s" "a \<notin> rk_known s" for a
    using rk_invD(4) [OF inv that] free by blast
  show ?thesis unfolding rk_inv_def same
  proof (intro conjI ballI allI impI)
    show "\<not> rk_raced s" by (rule rk_invD(2) [OF inv])
    fix a assume "a \<in> rk_all s"
    with all show "a \<in> rk_known s \<or> (\<exists>j. ((if j = i then RwReading = d else rk_at s j RwReading) \<or>
        (if j = i then RwWriting = d else rk_at s j RwWriting)) \<and> a \<in> ((rk_knows s)(i := rk_knows s i \<union> rk_known s)) j)"
      using d by (metis UnI1 fun_upd_apply)
  next
    fix j assume j: "if j = i then RwReading = d else rk_at s j RwReading"
    then show "rk_writes s \<subseteq> ((rk_knows s)(i := rk_knows s i \<union> rk_known s)) j"
      using w rk_invD(5) [OF inv, of j] by (auto split: if_splits)
  next
    fix j assume "if j = i then RwWriting = d else rk_at s j RwWriting"
    with free have "j = i" "d = RwWriting" by (auto split: if_splits)
    with d all show "rk_all s \<subseteq> ((rk_knows s)(i := rk_knows s i \<union> rk_known s)) j" by auto
  qed (use sys w in auto)
qed

lemma rk_unlock_read_inv:
  assumes inv: "rk_inv s" and sys: "rw_inv (rk_sys t)" and t: "t = rk_goto i RwIdle (rk_exchange Release i w s)"
    and i: "rk_at s i RwReading"
  shows "rk_inv t"
proof -
  have same: "rk_known t = rk_known s \<union> rk_knows s i" "rk_all t = rk_all s" "rk_writes t = rk_writes s"
    "rk_raced t = rk_raced s" "rk_knows t = rk_knows s"
    "\<And>j c. rk_at t j c \<longleftrightarrow> (if j = i then c = RwIdle else rk_at s j c)"
    using i by (auto simp: t rk_defs)
  show ?thesis unfolding rk_inv_def same
  proof (intro conjI ballI allI impI)
    show "\<not> rk_raced s" by (rule rk_invD(2) [OF inv])
    show "rk_writes s \<subseteq> rk_known s \<union> rk_knows s i" using rk_invD(5) [OF inv i] by blast
    fix a assume "a \<in> rk_all s"
    then show "a \<in> rk_known s \<union> rk_knows s i \<or> (\<exists>j. ((if j = i then RwReading = RwIdle else rk_at s j RwReading) \<or>
        (if j = i then RwWriting = RwIdle else rk_at s j RwWriting)) \<and> a \<in> rk_knows s j)"
      using rk_invD(4) [OF inv, of a] by auto
  qed (use sys rk_invD(5,6) [OF inv] in \<open>auto split: if_splits\<close>)
qed

lemma rk_unlock_write_inv:
  assumes inv: "rk_inv s" and sys: "rw_inv (rk_sys t)" and t: "t = rk_goto i RwIdle (rk_store Release i w s)"
    and i: "rk_at s i RwWriting"
  shows "rk_inv t"
proof -
  have same: "rk_known t = rk_knows s i" "rk_all t = rk_all s" "rk_writes t = rk_writes s"
    "rk_raced t = rk_raced s" "rk_knows t = rk_knows s"
    "\<And>j c. rk_at t j c \<longleftrightarrow> (if j = i then c = RwIdle else rk_at s j c)"
    using i by (auto simp: t rk_defs)
  have all: "rk_all s \<subseteq> rk_knows s i" by (rule rk_invD(6) [OF inv i])
  show ?thesis unfolding rk_inv_def same
    using sys all rk_writes_all [of s] rk_invD(2,5,6) [OF inv] by (auto split: if_splits)
qed

lemma rk_data_inv:
  assumes inv: "rk_inv s" and t: "t = rk_data_access wr i s"
    and i: "rk_at s i RwWriting \<or> \<not> wr \<and> rk_at s i RwReading"
  shows "rk_inv t"
proof -
  let ?n = "length (rk_access s)"
  have same: "rk_known t = rk_known s" "rk_all t = insert ?n (rk_all s)" "rk_sys t = rk_sys s"
    "rk_writes t = (if wr then insert ?n (rk_writes s) else rk_writes s)"
    "rk_knows t = (rk_knows s)(i := insert ?n (rk_knows s i))"
    "rk_raced t \<longleftrightarrow> rk_raced s \<or> \<not> (if wr then rk_all s else rk_writes s) \<subseteq> rk_knows s i"
    by (auto simp: t rk_defs less_Suc_eq nth_append)
  have sys: "rw_inv (rk_sys s)" by (rule rk_invD(1) [OF inv])
  have alone: "j = i" if "rk_at s i RwWriting" "rk_at s j RwReading \<or> rk_at s j RwWriting" for j
    using rw_inv_exclusive [OF sys, of i j] that by blast
  have known: "(if wr then rk_all s else rk_writes s) \<subseteq> rk_knows s i"
    using i rk_invD(5,6) [OF inv, of i] rk_writes_all [of s] by auto
  have upd: "rk_knows s j \<subseteq> rk_knows t j" for j by (auto simp: same(5))
  show ?thesis unfolding rk_inv_def same(1-4,6)
  proof (intro conjI ballI allI impI)
    show "rw_inv (rk_sys s)" by (rule sys)
    show "\<not> (rk_raced s \<or> \<not> (if wr then rk_all s else rk_writes s) \<subseteq> rk_knows s i)"
      using known rk_invD(2) [OF inv] by blast
    fix a assume a: "a \<in> insert ?n (rk_all s)"
    have "?n \<in> rk_knows t i" by (simp add: same(5))
    with a i rk_invD(4) [OF inv, of a] upd
    show "a \<in> rk_known s \<or> (\<exists>j. (rk_at s j RwReading \<or> rk_at s j RwWriting) \<and> a \<in> rk_knows t j)" by blast
  next
    assume "\<forall>j. \<not> rk_at s j RwWriting"
    with i rk_invD(3) [OF inv] show "(if wr then insert ?n (rk_writes s) else rk_writes s) \<subseteq> rk_known s" by auto
  next
    fix j assume j: "rk_at s j RwReading"
    with i alone have "\<not> wr" by fastforce
    with rk_invD(5) [OF inv j] upd [of j] show "(if wr then insert ?n (rk_writes s) else rk_writes s) \<subseteq> rk_knows t j" by auto
  next
    fix j assume j: "rk_at s j RwWriting"
    with i sys have "j = i" using rw_inv_exclusive [OF sys, of j i] by blast
    with rk_invD(6) [OF inv j] show "insert ?n (rk_all s) \<subseteq> rk_knows t j" by (auto simp: same(5))
  qed
qed

lemma rw_try_no_writer:
  assumes "rw_inv m" "i < length (rw_pcs m)" "rw_pcs m ! i = RwTry (rw_state m)" "j < length (rw_pcs m)"
  shows "rw_pcs m ! j \<noteq> RwWriting"
proof (rule rw_inv_no_writer [OF assms(1) _ assms(4)])
  have "RwTry (rw_state m) \<in> set (rw_pcs m)" using assms(2,3) by (metis nth_mem)
  with assms(1) show "unat (rw_state m) < 2 ^ 31" by (simp add: rw_inv_def)
qed

lemma rw_weak_step_inv [model_inv]: "rw_weak_step rw_code_orders s t \<Longrightarrow> rk_inv s \<Longrightarrow> rk_inv t"
proof -
  assume step: "rw_weak_step rw_code_orders s t" and inv: "rk_inv s"
  note sys = rk_invD(1) [OF inv]
  have tsys: "rw_inv (rk_sys t)" by (rule rkw_sys [OF step sys])
  from step show "rk_inv t"
  proof cases
    case (rkw_enter i c)
    then show ?thesis
      using rw_try_no_writer [OF sys, of i] by (intro rk_lock_inv [OF inv tsys]) (auto simp: rw_code_orders_def)
  next
    case (rkw_write i st)
    then have "rw_state (rk_sys s) = 0" by (simp add: rw_try_lock_write_def split: if_splits)
    with rkw_write show ?thesis
      using rw_inv_unlocked [OF sys] by (intro rk_lock_inv [OF inv tsys]) (auto simp: rw_code_orders_def)
  next
    case (rkw_leave i)
    then show ?thesis by (intro rk_unlock_read_inv [OF inv tsys]) (auto simp: rw_code_orders_def)
  next
    case (rkw_unwrite i)
    then show ?thesis by (intro rk_unlock_write_inv [OF inv tsys]) (auto simp: rw_code_orders_def)
  next
    case (rkw_read_data i)
    then show ?thesis by (intro rk_data_inv [OF inv]) auto
  next
    case (rkw_write_data i)
    then show ?thesis by (intro rk_data_inv [OF inv]) auto
  qed (use tsys in \<open>auto intro!: rk_quiet_inv [OF inv]\<close>)
qed

lemma rw_weak_start_inv: "rw_weak_start s \<Longrightarrow> rk_inv s"
  by (auto simp: rw_weak_start_def rk_inv_def rk_all_def rk_writes_def rw_start_def dest!: nth_mem intro: rw_start_inv)

interpretation rkm: safe_machine rw_weak_start "rw_weak_step rw_code_orders" rk_inv
  by unfold_locales (auto intro: rw_weak_start_inv rw_weak_step_inv)

section \<open>The lock under its memory orders\<close>

text \<open>
  C8. With the memory orders of the code the lock protects plain data: however stale the values are
  that the loads of \<open>state_\<close> find, no execution of fewer than \<open>2 ^ 31\<close> threads has a data race on what
  is only read under the read or write lock and only written under the write lock; whoever holds the
  lock sees all writes there have been; and a writer is alone.
\<close>

theorem rw_weak_protects:
  assumes "rw_weak_start s" "(rw_weak_step rw_code_orders)\<^sup>*\<^sup>* s t"
  shows "\<not> rk_raced t \<and> (\<forall>i < length (rw_pcs (rk_sys t)). rk_pc t i = RwReading \<or> rk_pc t i = RwWriting \<longrightarrow>
    rk_writes t \<subseteq> rk_knows t i \<and> (\<forall>j < length (rw_pcs (rk_sys t)). rk_pc t j = RwWriting \<longrightarrow> j = i))"
proof -
  have inv: "rk_inv t" by (rule rkm.reach_inv [OF assms])
  show ?thesis
    using rk_invD(2,5,6) [OF inv] rk_writes_all [of t] rw_inv_exclusive [OF rk_invD(1) [OF inv]]
    by (intro conjI allI impI) blast+
qed

definition rk_demo :: "u32 \<Rightarrow> rw_pc list \<Rightarrow> (u32, nat set) messages \<Rightarrow> nat set \<Rightarrow> nat set \<Rightarrow> bool list \<Rightarrow> bool \<Rightarrow> rw_weak" where
  "rk_demo w pcs msgs k0 k1 acc raced = \<lparr>rk_sys = \<lparr>rw_state = w, rw_pcs = pcs\<rparr>, rk_log = msgs,
     rk_knows = (\<lambda>_. {})(0 := k0, 1 := k1), rk_access = acc, rk_raced = raced\<rparr>"

lemmas rk_eval = rk_demo_def rk_defs rw_code_orders_def rw_try_lock_write_def rw_unlock_read_def rw_unlock_write_def

lemma rk_demo_start: "rw_weak_start (rk_demo 0 [RwIdle, RwIdle] [(0, {})] {} {} [] False)"
  by (auto simp: rw_weak_start_def rw_start_def rk_demo_def)

text \<open>Thread 0 locks, writes and unlocks; thread 1 finds the old value of \<open>state_\<close>, which is the same, and reads.\<close>

lemma rk_demo_run:
  "(rw_weak_step rw_code_orders)\<^sup>*\<^sup>* (rk_demo 0 [RwIdle, RwIdle] [(0, {})] {} {} [] False)
     (rk_demo 1 [RwIdle, RwReading] [(0, {}), (WRITE_LOCK_BIT, {}), (0, {0}), (1, {0})] {0} {0, 1} [True, False] False)"
  apply (rule run_step, rule rkw_write [where i = 0], simp add: rk_eval, simp add: rk_eval, simp add: rk_eval, simp add: rk_eval)
  apply (rule run_step, rule rkw_write_data [where i = 0], simp add: rk_eval, simp add: rk_eval, simp add: rk_eval)
  apply (rule run_step, rule rkw_unwrite [where i = 0], simp add: rk_eval, simp add: rk_eval, simp add: rk_eval)
  apply (rule run_step, rule rkw_load [where i = 1 and c = 0 and known = "{}"], simp add: rk_eval, simp add: rk_eval, simp add: rk_eval, simp add: rk_eval, simp add: rk_eval)
  apply (rule run_step, rule rkw_enter [where i = 1], simp add: rk_eval, simp add: rk_eval, simp add: rk_eval, simp add: rk_eval)
  apply (rule run_step, rule rkw_read_data [where i = 1], simp add: rk_eval, simp add: rk_eval, simp add: rk_eval)
  apply (rule rtranclp_refl_eq, auto simp: rk_eval fun_eq_iff less_Suc_eq nth_Cons')
  done

theorem rw_weak_protects_witness:
  "\<not> rk_raced (rk_demo 1 [RwIdle, RwReading] [(0, {}), (WRITE_LOCK_BIT, {}), (0, {0}), (1, {0})] {0} {0, 1} [True, False] False) \<and>
   {0} \<subseteq> {0 :: nat, 1}"
  using rw_weak_protects [OF rk_demo_start rk_demo_run] by (simp add: rk_demo_def)

text \<open>
  Where a writer's unlocking and a reader's locking do not synchronise, the reader races with the last
  writer; where a reader's unlocking and a writer's locking do not, the writer races with the last reader.
\<close>

lemmas rk_race_eval = rk_demo_def rk_defs rw_try_lock_write_def rw_unlock_read_def rw_unlock_write_def

lemma rk_write_read_race:
  assumes "ro_write_unlock ord \<noteq> Release \<or> ro_read_lock ord \<noteq> Acquire"
  shows "\<exists>t. (rw_weak_step ord)\<^sup>*\<^sup>* (rk_demo 0 [RwIdle, RwIdle] [(0, {})] {} {} [] False) t \<and> rk_raced t"
  apply (rule exI, rule conjI)
  apply (rule run_step, rule rkw_write [where i = 0], simp add: rk_race_eval, simp add: rk_race_eval, simp add: rk_race_eval, simp add: rk_race_eval)
  apply (rule run_step, rule rkw_write_data [where i = 0], simp add: rk_race_eval, simp add: rk_race_eval, simp add: rk_race_eval)
  apply (rule run_step, rule rkw_unwrite [where i = 0], simp add: rk_race_eval, simp add: rk_race_eval, simp add: rk_race_eval)
  apply (rule run_step, rule rkw_load [where i = 1 and c = 0 and known = "{}"], simp add: rk_race_eval, simp add: rk_race_eval, simp add: rk_race_eval, simp add: rk_race_eval, simp add: rk_race_eval)
  apply (rule run_step, rule rkw_enter [where i = 1], simp add: rk_race_eval, simp add: rk_race_eval, simp add: rk_race_eval, simp add: rk_race_eval)
  apply (rule run_step, rule rkw_read_data [where i = 1], simp add: rk_race_eval, simp add: rk_race_eval, simp add: rk_race_eval)
   apply (rule rtranclp.rtrancl_refl)
  using assms apply (auto simp: rk_race_eval)
  done

lemma rk_read_write_race:
  assumes "ro_read_unlock ord \<noteq> Release \<or> ro_write_lock ord \<noteq> Acquire"
  shows "\<exists>t. (rw_weak_step ord)\<^sup>*\<^sup>* (rk_demo 0 [RwIdle, RwIdle] [(0, {})] {} {} [] False) t \<and> rk_raced t"
  apply (rule exI, rule conjI)
  apply (rule run_step, rule rkw_load [where i = 0 and c = 0 and known = "{}"], simp add: rk_race_eval, simp add: rk_race_eval, simp add: rk_race_eval, simp add: rk_race_eval, simp add: rk_race_eval)
  apply (rule run_step, rule rkw_enter [where i = 0], simp add: rk_race_eval, simp add: rk_race_eval, simp add: rk_race_eval, simp add: rk_race_eval)
  apply (rule run_step, rule rkw_read_data [where i = 0], simp add: rk_race_eval, simp add: rk_race_eval, simp add: rk_race_eval)
  apply (rule run_step, rule rkw_leave [where i = 0], simp add: rk_race_eval, simp add: rk_race_eval, simp add: rk_race_eval)
  apply (rule run_step, rule rkw_write [where i = 1], simp add: rk_race_eval, simp add: rk_race_eval, simp add: rk_race_eval, simp add: rk_race_eval)
  apply (rule run_step, rule rkw_write_data [where i = 1], simp add: rk_race_eval, simp add: rk_race_eval, simp add: rk_race_eval)
   apply (rule rtranclp.rtrancl_refl)
  using assms apply (auto simp: rk_race_eval)
  done

text \<open>C9. The orders of the code are the only ones, of those that the model has, under which the lock protects plain data.\<close>

theorem rw_orders_exact:
  "(\<forall>s t. rw_weak_start s \<longrightarrow> (rw_weak_step ord)\<^sup>*\<^sup>* s t \<longrightarrow> \<not> rk_raced t) \<longleftrightarrow> ord = rw_code_orders" (is "?safe \<longleftrightarrow> _")
proof
  assume safe: ?safe
  have "ro_write_unlock ord = Release \<and> ro_read_lock ord = Acquire" using safe rk_demo_start rk_write_read_race by blast
  moreover have "ro_read_unlock ord = Release \<and> ro_write_lock ord = Acquire" using safe rk_demo_start rk_read_write_race by blast
  ultimately show "ord = rw_code_orders" by (cases ord) (simp add: rw_code_orders_def)
next
  assume "ord = rw_code_orders"
  then show ?safe using rkm.reach_inv by (auto simp: rk_inv_def)
qed

theorem rw_orders_exact_witness:
  "\<exists>s t. rw_weak_start s \<and> (rw_weak_step (rw_code_orders\<lparr>ro_write_unlock := Relaxed\<rparr>))\<^sup>*\<^sup>* s t \<and> rk_raced t"
  using rw_orders_exact [of "rw_code_orders\<lparr>ro_write_unlock := Relaxed\<rparr>"] by (auto simp: rw_code_orders_def)

end
