(* ===== verification/Sensor.thy ===== *)
theory Sensor
  imports Message
begin

text \<open>
  \<open>include/lwipc/sensor_interface.hpp\<close> and \<open>src/sensor_interface.cpp\<close>: the sensor data types with
  their initial values and the \<open>SensorManager\<close>. A sensor is an implementation of \<open>ISensor\<close> that
  the repository does not contain; what its \<open>start\<close> and \<open>stop\<close> do to the world are arguments.
\<close>

section \<open>Data\<close>

datatype sensor_type = SENSOR_UNKNOWN | LIDAR | CAMERA | IMU | GNSS | ULTRASONIC | RADAR | TEMPERATURE | PRESSURE | CUSTOM

datatype sensor_status = STATUS_OK | INITIALIZING | STATUS_ERROR | STATUS_TIMEOUT | CALIBRATING | STATUS_STOPPED

datatype pixel_format = FORMAT_UNKNOWN | RGB8 | BGR8 | RGBA8 | BGRA8 | MONO8 | YUV422 | COMPRESSED

record sensor_data =
  sn_timestamp :: u64
  sn_sequence :: u64
  sn_type :: sensor_type
  sn_status :: sensor_status
  sn_frame_id :: string
  sn_topic :: string

definition sensor_data_default :: "sensor_type \<Rightarrow> sensor_data" where
  "sensor_data_default ty = \<lparr>sn_timestamp = 0, sn_sequence = 0, sn_type = ty, sn_status = STATUS_OK,
     sn_frame_id = [], sn_topic = []\<rparr>"

record lidar_point =
  lp_x :: rat
  lp_y :: rat
  lp_z :: rat
  lp_intensity :: rat
  lp_ring :: u16

record lidar_data = sensor_data +
  ld_point_count :: u32
  ld_points :: "lidar_point list"
  ld_scan_time :: rat

definition lidar_default :: lidar_data where
  "lidar_default = sensor_data.extend (sensor_data_default LIDAR)
     (lidar_data.fields 0 [] 0)"

record image_data = sensor_data +
  im_width :: u32
  im_height :: u32
  im_step :: u32
  im_format :: pixel_format
  im_data :: "byte list"

definition image_default :: image_data where
  "image_default = sensor_data.extend (sensor_data_default CAMERA)
     (image_data.fields 0 0 0 FORMAT_UNKNOWN [])"

record imu_data = sensor_data +
  iu_accel :: "rat \<times> rat \<times> rat"
  iu_gyro :: "rat \<times> rat \<times> rat"
  iu_magnet :: "rat \<times> rat \<times> rat"
  iu_attitude :: "rat \<times> rat \<times> rat \<times> rat"
  iu_temperature :: rat

definition imu_default :: imu_data where
  "imu_default = sensor_data.extend (sensor_data_default IMU)
     (imu_data.fields (0, 0, 0) (0, 0, 0) (0, 0, 0) (1, 0, 0, 0) 0)"

text \<open>\<open>pdop\<close> starts as \<open>99.9\<close>, here the exact number.\<close>

record gnss_data = sensor_data +
  gd_latitude :: rat
  gd_longitude :: rat
  gd_altitude :: rat
  gd_speed :: rat
  gd_heading :: rat
  gd_pdop :: rat
  gd_fix_type :: byte
  gd_satellite_count :: byte

definition gnss_default :: gnss_data where
  "gnss_default = sensor_data.extend (sensor_data_default GNSS)
     (gnss_data.fields 0 0 0 0 0 (999 / 10) 0 0)"

record distance_data = sensor_data +
  dd_distance :: rat
  dd_min_range :: rat
  dd_max_range :: rat

definition distance_default :: distance_data where
  "distance_default = sensor_data.extend (sensor_data_default ULTRASONIC) (distance_data.fields 0 0 0)"

record sensor_config =
  sf_name :: string
  sf_type :: sensor_type
  sf_device_path :: string
  sf_sample_rate :: int
  sf_enabled :: bool
  sf_qos :: qos_profile
  sf_topic :: string

definition sensor_config_default :: sensor_config where
  "sensor_config_default = \<lparr>sf_name = [], sf_type = SENSOR_UNKNOWN, sf_device_path = [], sf_sample_rate = 0,
     sf_enabled = True, sf_qos = qos_default, sf_topic = []\<rparr>"

section \<open>The manager\<close>

type_synonym 's sensors = "(string, 's) umap"

text \<open>\<open>emplace\<close> does not replace an existing entry; a null pointer is refused.\<close>

definition register_sensor :: "string \<Rightarrow> 's option \<Rightarrow> 's sensors \<Rightarrow> bool \<times> 's sensors" where
  "register_sensor name sensor m =
     (case sensor of
        None \<Rightarrow> (False, m)
      | Some s \<Rightarrow> (case um_find m name of Some _ \<Rightarrow> (False, m) | None \<Rightarrow> (True, um_put name s m)))"

definition unregister_sensor :: "('s \<Rightarrow> 'w \<Rightarrow> 'w) \<Rightarrow> string \<Rightarrow> 's sensors \<Rightarrow> 'w \<Rightarrow> 's sensors \<times> 'w" where
  "unregister_sensor stop name m w =
     (case um_find m name of None \<Rightarrow> (m, w) | Some s \<Rightarrow> (um_erase name m, stop s w))"

definition get_sensor :: "string \<Rightarrow> 's sensors \<Rightarrow> 's option" where
  "get_sensor name m = um_find m name"

definition get_sensor_names :: "'s sensors \<Rightarrow> string list" where
  "get_sensor_names m = map fst m"

fun start_loop :: "('s \<Rightarrow> 'w \<Rightarrow> bool \<times> 'w) \<Rightarrow> 's sensors \<Rightarrow> bool \<Rightarrow> 'w \<Rightarrow> bool \<times> 'w" where
  "start_loop start [] ok w = (ok, w)"
| "start_loop start ((_, s) # m) ok w =
     (case start s w of (b, w') \<Rightarrow> start_loop start m (if \<not> b then False else ok) w')"

definition start_all :: "('s \<Rightarrow> 'w \<Rightarrow> bool \<times> 'w) \<Rightarrow> 's sensors \<Rightarrow> 'w \<Rightarrow> bool \<times> 'w" where
  "start_all start m w = start_loop start m True w"

definition stop_all :: "('s \<Rightarrow> 'w \<Rightarrow> 'w) \<Rightarrow> 's sensors \<Rightarrow> 'w \<Rightarrow> 'w" where
  "stop_all stop m w = fold (\<lambda>(_, s) w. stop s w) m w"

definition get_sensor_count :: "'s sensors \<Rightarrow> nat" where
  "get_sensor_count m = length m"

section \<open>Properties\<close>

text \<open>Sensors that only record the calls; \<open>works s\<close> is what \<open>start\<close> returns.\<close>

definition logged_start :: "('s \<Rightarrow> bool) \<Rightarrow> 's \<Rightarrow> (bool \<times> 's) list \<Rightarrow> bool \<times> (bool \<times> 's) list" where
  "logged_start works s seen = (works s, seen @ [(True, s)])"

definition logged_stop :: "'s \<Rightarrow> (bool \<times> 's) list \<Rightarrow> (bool \<times> 's) list" where
  "logged_stop s seen = seen @ [(False, s)]"

lemma start_loop_logged:
  "start_loop (logged_start works) m ok seen =
     (ok \<and> (\<forall>s \<in> set (map snd m). works s), seen @ map (\<lambda>(_, s). (True, s)) m)"
  by (induction m arbitrary: ok seen) (auto simp: logged_start_def)

lemma all_values: "umap_ok m \<Longrightarrow> (\<forall>s \<in> set (map snd m). P s) \<longleftrightarrow> (\<forall>name s. um_find m name = Some s \<longrightarrow> P s)"
  by (simp add: um_find_in_set) force

text \<open>
  \<open>startAll\<close> starts every registered sensor exactly once, also after one has failed, and
  reports whether all of them started.
\<close>

theorem start_all_exact:
  assumes "umap_ok m"
  shows "start_all (logged_start works) m seen =
      (\<forall>name s. um_find m name = Some s \<longrightarrow> works s, seen @ map (\<lambda>(_, s). (True, s)) m)"
  unfolding start_all_def start_loop_logged all_values [OF assms] by simp

theorem start_all_exact_witness:
  "start_all (logged_start (\<lambda>s. s \<noteq> 2)) [(''a'', 1::nat), (''b'', 2), (''c'', 3)] [] = (False, [(True, 1), (True, 2), (True, 3)])"
proof -
  let ?m = "[(''a'', 1::nat), (''b'', 2), (''c'', 3)]"
  have ok: "umap_ok ?m" by simp
  have "um_find ?m ''b'' = Some 2" by simp
  then have "(\<forall>name s. um_find ?m name = Some s \<longrightarrow> s \<noteq> 2) = False" by blast
  then show ?thesis
    unfolding start_all_exact [OF ok] by (simp only: list.map prod.case append_Nil)
qed

lemma stop_all_logged: "stop_all logged_stop m seen = seen @ map (\<lambda>(_, s). (False, s)) m"
  unfolding stop_all_def by (induction m arbitrary: seen) (auto simp: logged_stop_def)

text \<open>
  A registered sensor can only be replaced by unregistering it, and that stops it exactly
  once; registering under a used name changes nothing.
\<close>

theorem register_unregister_sensor:
  assumes "umap_ok m" "get_sensor name m = Some s"
  shows "register_sensor name s' m = (False, m) \<and>
    snd (unregister_sensor logged_stop name m seen) = seen @ [(False, s)] \<and>
    get_sensor name (fst (unregister_sensor logged_stop name m seen)) = None \<and>
    fst (register_sensor name (Some t) (fst (unregister_sensor logged_stop name m seen)))"
  using assms by (auto simp: register_sensor_def get_sensor_def unregister_sensor_def logged_stop_def split: option.split)

theorem register_unregister_sensor_witness:
  "register_sensor ''a'' (Some 2) [(''a'', 1::nat)] = (False, [(''a'', 1)])"
  by (rule conjunct1 [OF register_unregister_sensor [where s = 1 and seen = "[]" and t = 5]]) (simp_all add: get_sensor_def)

end
