(* ===== verification/SensorSim.thy ===== *)
theory SensorSim
  imports Sensor
begin

text \<open>
  \<open>examples/example_sensor.cpp\<close>: two simulated sensors that implement \<open>ISensor\<close>, and the program
  that runs them under a \<open>SensorManager\<close>. Random numbers and the clock are arguments; the
  generators are static, so all sensors of a class draw from one sequence. Floating point values
  are exact rationals, with \<open>9.8f\<close> and \<open>0.1f\<close> the numbers these literals stand for.
\<close>

section \<open>The contract of a sensor\<close>

text \<open>
  What a client of \<open>ISensor\<close> sees: starting needs an initialised sensor, and the status tells
  which of the calls have been made. \<open>ready\<close> and \<open>live\<close> are the two facts a sensor remembers.
\<close>

datatype sensor_call = Initialize sensor_config | Start | Stop

locale isensor =
  fixes initialize :: "sensor_config \<Rightarrow> 's \<Rightarrow> bool \<times> 's"
    and start :: "'s \<Rightarrow> bool \<times> 's"
    and stop :: "'s \<Rightarrow> 's"
    and status :: "'s \<Rightarrow> sensor_status"
    and ready :: "'s \<Rightarrow> bool"
    and live :: "'s \<Rightarrow> bool"
  assumes initialize_ready [simp]: "fst (initialize c s)" "ready (snd (initialize c s))"
    and initialize_live [simp]: "live (snd (initialize c s)) = live s"
    and start_result [simp]: "fst (start s) = ready s"
    and start_ready [simp]: "ready (snd (start s)) = ready s"
    and start_live [simp]: "live (snd (start s)) = (ready s \<or> live s)"
    and stop_ready [simp]: "ready (stop s) = ready s"
    and stop_live [simp]: "\<not> live (stop s)"
    and status_eq: "status s = (if \<not> ready s then INITIALIZING else if live s then STATUS_OK else STATUS_STOPPED)"
begin

definition perform :: "sensor_call \<Rightarrow> 's \<Rightarrow> 's" where
  "perform c s = (case c of Initialize cf \<Rightarrow> snd (initialize cf s) | Start \<Rightarrow> snd (start s) | Stop \<Rightarrow> stop s)"

lemma status_started: "fst (start s) \<Longrightarrow> status (snd (start s)) = STATUS_OK"
  by (simp add: status_eq)

lemma status_stopped: "ready s \<Longrightarrow> status (stop s) = STATUS_STOPPED"
  by (simp add: status_eq)

lemma never_initialized:
  "\<forall>c \<in> set cs. \<forall>cf. c \<noteq> Initialize cf \<Longrightarrow> \<not> ready s \<Longrightarrow> \<not> fst (start (fold perform cs s)) \<and> status (fold perform cs s) = INITIALIZING"
proof (induction cs arbitrary: s)
  case Nil
  then show ?case by (simp add: status_eq)
next
  case (Cons c cs)
  have "\<not> ready (perform c s)" using Cons.prems by (cases c) (simp_all add: perform_def)
  with Cons show ?case by simp
qed

end

section \<open>Simulated lidar\<close>

record sim_lidar =
  sl_initialized :: bool
  sl_running :: bool
  sl_sequence :: u64
  sl_config :: sensor_config

definition sim_lidar_new :: sim_lidar where
  "sim_lidar_new = \<lparr>sl_initialized = False, sl_running = False, sl_sequence = 0, sl_config = sensor_config_default\<rparr>"

definition lidar_initialize :: "sensor_config \<Rightarrow> sim_lidar \<Rightarrow> bool \<times> sim_lidar" where
  "lidar_initialize config s = (True, s\<lparr>sl_config := config, sl_initialized := True\<rparr>)"

definition lidar_start :: "sim_lidar \<Rightarrow> bool \<times> sim_lidar" where
  "lidar_start s = (if \<not> sl_initialized s then (False, s) else (True, s\<lparr>sl_running := True\<rparr>))"

definition lidar_stop :: "sim_lidar \<Rightarrow> sim_lidar" where
  "lidar_stop s = s\<lparr>sl_running := False\<rparr>"

definition lidar_status :: "sim_lidar \<Rightarrow> sensor_status" where
  "lidar_status s = (if \<not> sl_initialized s then INITIALIZING else if sl_running s then STATUS_OK else STATUS_STOPPED)"

interpretation lis: isensor lidar_initialize lidar_start lidar_stop lidar_status sl_initialized sl_running
  by unfold_locales (simp_all add: lidar_initialize_def lidar_start_def lidar_stop_def lidar_status_def)

text \<open>
  One scan: \<open>points.resize(360)\<close> zeroes the points, the loop draws three numbers for each, and
  \<open>point_count\<close> keeps its initial value. \<open>draw\<close> is the number of values drawn so far.
\<close>

definition scan_point :: "(nat \<Rightarrow> rat) \<Rightarrow> nat \<Rightarrow> lidar_point" where
  "scan_point random k = \<lparr>lp_x = random k, lp_y = random (k + 1), lp_z = 0, lp_intensity = random (k + 2), lp_ring = 0\<rparr>"

definition lidar_get_data :: "(nat \<Rightarrow> rat) \<Rightarrow> u64 \<Rightarrow> nat \<Rightarrow> sim_lidar \<Rightarrow> lidar_data \<times> nat \<times> sim_lidar" where
  "lidar_get_data random now draw s =
     (lidar_default\<lparr>sn_timestamp := now, sn_sequence := sl_sequence s,
        ld_points := map (\<lambda>i. scan_point random (draw + 3 * i)) [0..<360]\<rparr>,
      draw + 3 * 360, s\<lparr>sl_sequence := sl_sequence s + 1\<rparr>)"

section \<open>Simulated IMU\<close>

record sim_imu =
  su_initialized :: bool
  su_running :: bool
  su_sequence :: u64
  su_config :: sensor_config

definition sim_imu_new :: sim_imu where
  "sim_imu_new = \<lparr>su_initialized = False, su_running = False, su_sequence = 0, su_config = sensor_config_default\<rparr>"

definition imu_initialize :: "sensor_config \<Rightarrow> sim_imu \<Rightarrow> bool \<times> sim_imu" where
  "imu_initialize config s = (True, s\<lparr>su_config := config, su_initialized := True\<rparr>)"

definition imu_start :: "sim_imu \<Rightarrow> bool \<times> sim_imu" where
  "imu_start s = (if \<not> su_initialized s then (False, s) else (True, s\<lparr>su_running := True\<rparr>))"

definition imu_stop :: "sim_imu \<Rightarrow> sim_imu" where
  "imu_stop s = s\<lparr>su_running := False\<rparr>"

definition imu_status :: "sim_imu \<Rightarrow> sensor_status" where
  "imu_status s = (if \<not> su_initialized s then INITIALIZING else if su_running s then STATUS_OK else STATUS_STOPPED)"

interpretation ims: isensor imu_initialize imu_start imu_stop imu_status su_initialized su_running
  by unfold_locales (simp_all add: imu_initialize_def imu_start_def imu_stop_def imu_status_def)

definition gravity :: rat where "gravity = 10276045 / 2 ^ 20"
definition tenth :: rat where "tenth = 13421773 / 2 ^ 27"

definition imu_get_data :: "(nat \<Rightarrow> rat) \<Rightarrow> u64 \<Rightarrow> nat \<Rightarrow> sim_imu \<Rightarrow> imu_data \<times> nat \<times> sim_imu" where
  "imu_get_data random now draw s =
     (imu_default\<lparr>sn_timestamp := now, sn_sequence := su_sequence s,
        iu_accel := (random draw, random (draw + 1), random (draw + 2) + gravity),
        iu_gyro := (random (draw + 3) * tenth, random (draw + 4) * tenth, random (draw + 5) * tenth),
        iu_attitude := (1, 0, 0, 0)\<rparr>,
      draw + 6, s\<lparr>su_sequence := su_sequence s + 1\<rparr>)"

section \<open>The program\<close>

text \<open>
  The manager holds pointers; the objects and the two generators are in the world. Calls through
  a pointer go to the class of the object.
\<close>

datatype sensor_ref = LidarRef | ImuRef

record sim_world =
  sw_lidar :: sim_lidar
  sw_imu :: sim_imu
  sw_lidar_draws :: nat
  sw_imu_draws :: nat

definition world_new :: sim_world where
  "world_new = \<lparr>sw_lidar = sim_lidar_new, sw_imu = sim_imu_new, sw_lidar_draws = 0, sw_imu_draws = 0\<rparr>"

fun sim_start :: "sensor_ref \<Rightarrow> sim_world \<Rightarrow> bool \<times> sim_world" where
  "sim_start LidarRef w = (let (b, s) = lidar_start (sw_lidar w) in (b, w\<lparr>sw_lidar := s\<rparr>))"
| "sim_start ImuRef w = (let (b, s) = imu_start (sw_imu w) in (b, w\<lparr>sw_imu := s\<rparr>))"

fun sim_stop :: "sensor_ref \<Rightarrow> sim_world \<Rightarrow> sim_world" where
  "sim_stop LidarRef w = w\<lparr>sw_lidar := lidar_stop (sw_lidar w)\<rparr>"
| "sim_stop ImuRef w = w\<lparr>sw_imu := imu_stop (sw_imu w)\<rparr>"

definition read_both :: "(nat \<Rightarrow> rat) \<Rightarrow> (nat \<Rightarrow> rat) \<Rightarrow> u64 \<Rightarrow> u64 \<Rightarrow> sim_world \<Rightarrow> (lidar_data \<times> imu_data) \<times> sim_world" where
  "read_both r1 r2 t1 t2 w =
     (let (l, d1, s1) = lidar_get_data r1 t1 (sw_lidar_draws w) (sw_lidar w);
          (u, d2, s2) = imu_get_data r2 t2 (sw_imu_draws w) (sw_imu w)
      in ((l, u), w\<lparr>sw_lidar := s1, sw_imu := s2, sw_lidar_draws := d1, sw_imu_draws := d2\<rparr>))"

text \<open>The reading loop; \<open>ticks\<close> holds the two clock readings of each pass.\<close>

fun read_loop ::
  "(nat \<Rightarrow> rat) \<Rightarrow> (nat \<Rightarrow> rat) \<Rightarrow> (u64 \<times> u64) list \<Rightarrow> sim_world \<Rightarrow> (lidar_data \<times> imu_data) list \<times> sim_world" where
  "read_loop r1 r2 [] w = ([], w)"
| "read_loop r1 r2 ((t1, t2) # ts) w =
     (let (d, w1) = read_both r1 r2 t1 t2 w; (ds, w2) = read_loop r1 r2 ts w1 in (d # ds, w2))"

definition main_lidar_config :: sensor_config where
  "main_lidar_config = sensor_config_default\<lparr>sf_name := ''main_lidar'', sf_type := LIDAR, sf_sample_rate := 10\<rparr>"

definition main_imu_config :: sensor_config where
  "main_imu_config = sensor_config_default\<lparr>sf_name := ''main_imu'', sf_type := IMU, sf_sample_rate := 100\<rparr>"

record sensor_run =
  sm_registered :: "bool \<times> bool"
  sm_started :: bool
  sm_status :: "sensor_status \<times> sensor_status"
  sm_data :: "(lidar_data \<times> imu_data) list"
  sm_names :: "string list"
  sm_world :: sim_world

text \<open>\<open>main\<close>; \<open>sm_status\<close> is what \<open>getStatus\<close> would say between starting and reading.\<close>

definition sensor_main :: "(nat \<Rightarrow> rat) \<Rightarrow> (nat \<Rightarrow> rat) \<Rightarrow> (u64 \<times> u64) list \<Rightarrow> sensor_run" where
  "sensor_main r1 r2 ticks =
     (let (b1, m1) = register_sensor ''main_lidar'' (Some LidarRef) [];
          (b2, m2) = register_sensor ''main_imu'' (Some ImuRef) m1;
          w1 = world_new\<lparr>sw_lidar := snd (lidar_initialize main_lidar_config (sw_lidar world_new))\<rparr>;
          w2 = w1\<lparr>sw_imu := snd (imu_initialize main_imu_config (sw_imu w1))\<rparr>;
          (ok, w3) = start_all sim_start m2 w2;
          (ds, w4) = read_loop r1 r2 ticks w3;
          w5 = stop_all sim_stop m2 w4
      in \<lparr>sm_registered = (b1, b2), sm_started = ok, sm_status = (lidar_status (sw_lidar w3), imu_status (sw_imu w3)),
          sm_data = ds, sm_names = get_sensor_names m2, sm_world = w5\<rparr>)"

section \<open>What the program does\<close>

lemma read_both_exact:
  "fst (fst (read_both r1 r2 t1 t2 w)) = lidar_default\<lparr>sn_timestamp := t1, sn_sequence := sl_sequence (sw_lidar w),
     ld_points := map (\<lambda>i. scan_point r1 (sw_lidar_draws w + 3 * i)) [0..<360]\<rparr>"
  "sn_sequence (snd (fst (read_both r1 r2 t1 t2 w))) = su_sequence (sw_imu w)"
  "sn_timestamp (snd (fst (read_both r1 r2 t1 t2 w))) = t2"
  "snd (read_both r1 r2 t1 t2 w) = w\<lparr>
     sw_lidar := (sw_lidar w)\<lparr>sl_sequence := sl_sequence (sw_lidar w) + 1\<rparr>,
     sw_imu := (sw_imu w)\<lparr>su_sequence := su_sequence (sw_imu w) + 1\<rparr>,
     sw_lidar_draws := sw_lidar_draws w + 1080, sw_imu_draws := sw_imu_draws w + 6\<rparr>"
  by (simp_all add: read_both_def lidar_get_data_def imu_get_data_def)

lemma lidar_default_count [simp]: "ld_point_count lidar_default = 0"
  by (simp add: lidar_default_def sensor_data.defs lidar_data.defs sensor_data_default_def)

lemma read_loop_exact:
  "read_loop r1 r2 ts w = (ds, w') \<Longrightarrow>
     map (\<lambda>(l, u). (sn_sequence l, sn_sequence u)) ds
       = map (\<lambda>k. (sl_sequence (sw_lidar w) + of_nat k, su_sequence (sw_imu w) + of_nat k)) [0..<length ts] \<and>
     map (\<lambda>(l, u). (sn_timestamp l, sn_timestamp u)) ds = ts \<and>
     map (\<lambda>(l, u). (length (ld_points l), ld_point_count l)) ds = replicate (length ts) (360, 0) \<and>
     sl_initialized (sw_lidar w') = sl_initialized (sw_lidar w) \<and> su_initialized (sw_imu w') = su_initialized (sw_imu w)"
proof (induction ts arbitrary: w ds w')
  case Nil
  then show ?case by simp
next
  case (Cons t ts)
  obtain t1 t2 where t: "t = (t1, t2)" by (cases t)
  obtain ds2 w2 where rest: "read_loop r1 r2 ts (snd (read_both r1 r2 t1 t2 w)) = (ds2, w2)"
    by (cases "read_loop r1 r2 ts (snd (read_both r1 r2 t1 t2 w))")
  have ds: "ds = fst (read_both r1 r2 t1 t2 w) # ds2" "w' = w2"
    using Cons.prems rest by (simp_all add: t case_prod_beta)
  have "[0..<length (t # ts)] = 0 # map Suc [0..<length ts]" by (simp add: upt_conv_Cons map_Suc_upt del: upt_Suc)
  with Cons.IH [OF rest] show ?case
    unfolding ds t by (simp add: read_both_exact case_prod_beta add.assoc o_def)
qed

text \<open>
  C36. The program runs as intended: both sensors register and start, report \<open>OK\<close> while running
  and \<open>STOPPED\<close> afterwards, and every pass of the reading loop gets the next sequence numbers and
  a scan of 360 points from the lidar, whose \<open>point_count\<close> however says that there are none.
\<close>

theorem sensor_main_run:
  "sm_registered (sensor_main r1 r2 ticks) = (True, True) \<and> sm_started (sensor_main r1 r2 ticks) \<and>
   sm_status (sensor_main r1 r2 ticks) = (STATUS_OK, STATUS_OK) \<and>
   map (\<lambda>(l, u). (sn_sequence l, sn_sequence u)) (sm_data (sensor_main r1 r2 ticks))
     = map (\<lambda>k. (of_nat k, of_nat k)) [0..<length ticks] \<and>
   map (\<lambda>(l, u). (length (ld_points l), ld_point_count l)) (sm_data (sensor_main r1 r2 ticks))
     = replicate (length ticks) (360, 0) \<and>
   lidar_status (sw_lidar (sm_world (sensor_main r1 r2 ticks))) = STATUS_STOPPED \<and>
   imu_status (sw_imu (sm_world (sensor_main r1 r2 ticks))) = STATUS_STOPPED"
proof -
  let ?m = "[(''main_lidar'', LidarRef), (''main_imu'', ImuRef)]"
  let ?w2 = "world_new\<lparr>sw_lidar := snd (lidar_initialize main_lidar_config (sw_lidar world_new)),
    sw_imu := snd (imu_initialize main_imu_config (sw_imu world_new))\<rparr>"
  let ?w3 = "?w2\<lparr>sw_lidar := snd (lidar_start (sw_lidar ?w2)), sw_imu := snd (imu_start (sw_imu ?w2))\<rparr>"
  obtain ds w4 where loop: "read_loop r1 r2 ticks ?w3 = (ds, w4)" by (cases "read_loop r1 r2 ticks ?w3")
  have started: "start_all sim_start ?m ?w2 = (True, ?w3)"
    by (simp add: start_all_def lidar_start_def imu_start_def lidar_initialize_def imu_initialize_def)
  have "register_sensor ''main_lidar'' (Some LidarRef) [] = (True, [(''main_lidar'', LidarRef)])"
    "register_sensor ''main_imu'' (Some ImuRef) [(''main_lidar'', LidarRef)] = (True, ?m)"
    by (simp_all add: register_sensor_def)
  with started loop have run: "sensor_main r1 r2 ticks = \<lparr>sm_registered = (True, True), sm_started = True,
      sm_status = (lidar_status (sw_lidar ?w3), imu_status (sw_imu ?w3)), sm_data = ds,
      sm_names = get_sensor_names ?m, sm_world = stop_all sim_stop ?m w4\<rparr>"
    by (simp add: sensor_main_def)
  have status: "lidar_status (sw_lidar ?w3) = STATUS_OK" "imu_status (sw_imu ?w3) = STATUS_OK"
    by (simp_all add: lis.status_started ims.status_started)
  from read_loop_exact [OF loop] have w4: "sl_initialized (sw_lidar w4)" "su_initialized (sw_imu w4)" by simp_all
  from read_loop_exact [OF loop] status w4 show ?thesis
    unfolding run by (simp add: stop_all_def lis.status_stopped ims.status_stopped)
      (simp add: lidar_start_def imu_start_def lidar_initialize_def imu_initialize_def world_new_def sim_lidar_new_def sim_imu_new_def)
qed

text \<open>Starting before initialising, which the order of \<open>main\<close> avoids, is refused by both sensors.\<close>

lemma start_uninitialized:
  "fst (start_all sim_start [(''main_lidar'', LidarRef), (''main_imu'', ImuRef)] world_new) = False"
  by (simp add: start_all_def world_new_def lidar_start_def imu_start_def sim_lidar_new_def sim_imu_new_def)

end
