(* ===== verification/ShmInit.thy ===== *)
theory ShmInit
  imports ShmLife
begin

text \<open>
  The creation of a shared-memory channel as the other processes see it: the stores of
  \<open>initializeCreator\<close> in \<open>src/shm_channel.cpp\<close> one after the other, and what an \<open>open\<close> between two of
  them gets, which looks at the name but not at \<open>initialized\<close>.
\<close>

section \<open>The stores of the creator\<close>

definition slot_put :: "nat \<Rightarrow> (shm_slot \<Rightarrow> shm_slot) \<Rightarrow> control_block \<Rightarrow> control_block" where
  "slot_put i f cb = cb\<lparr>cb_slots := (cb_slots cb)[i := f (cb_slots cb ! i)]\<rparr>"

definition init_slot :: "nat \<Rightarrow> (control_block \<Rightarrow> control_block) list" where
  "init_slot i = [slot_put i (\<lambda>s. s\<lparr>cs_sequence := 0\<rparr>), slot_put i (\<lambda>s. s\<lparr>cs_state := STATE_EMPTY\<rparr>)]"

text \<open>Up to the sizes that an \<open>open\<close> copies, and the rest before the last store.\<close>

definition init_head :: "channel_config \<Rightarrow> (control_block \<Rightarrow> control_block) list" where
  "init_head config =
     [\<lambda>cb. cb\<lparr>cb_version := 1\<rparr>,
      \<lambda>cb. cb\<lparr>cb_initialized := False\<rparr>,
      \<lambda>cb. cb\<lparr>cb_channel_name := []\<rparr>,
      \<lambda>cb. cb\<lparr>cb_channel_name := stored_name (cc_name config)\<rparr>,
      \<lambda>cb. cb\<lparr>cb_buffer_size := cc_buffer_size config\<rparr>,
      \<lambda>cb. cb\<lparr>cb_payload_max := cc_payload_max config\<rparr>]"

definition init_rest :: "channel_config \<Rightarrow> (control_block \<Rightarrow> control_block) list" where
  "init_rest config =
     [\<lambda>cb. cb\<lparr>cb_slot_size := channel_slot_size config\<rparr>,
      \<lambda>cb. cb\<lparr>cb_total_size := channel_total_size config\<rparr>,
      \<lambda>cb. cb\<lparr>cb_head := 0\<rparr>,
      \<lambda>cb. cb\<lparr>cb_tail := 0\<rparr>,
      \<lambda>cb. cb\<lparr>cb_sent := 0\<rparr>,
      \<lambda>cb. cb\<lparr>cb_received := 0\<rparr>,
      \<lambda>cb. cb\<lparr>cb_dropped := 0\<rparr>]
     @ concat (map init_slot [0..<unat (cc_buffer_size config)])"

definition init_stores :: "channel_config \<Rightarrow> (control_block \<Rightarrow> control_block) list" where
  "init_stores config = init_head config @ init_rest config @ [\<lambda>cb. cb\<lparr>cb_initialized := True\<rparr>]"

text \<open>The memory after the first \<open>k\<close> stores.\<close>

definition init_after :: "channel_config \<Rightarrow> nat \<Rightarrow> control_block \<Rightarrow> control_block" where
  "init_after config k cb0 = fold (\<lambda>w cb. w cb) (take k (init_stores config)) cb0"

section \<open>What the stores keep\<close>

lemma fold_keeps:
  "(\<And>w cb. w \<in> set ws \<Longrightarrow> f (w cb) = f cb) \<Longrightarrow> f (fold (\<lambda>w cb. w cb) ws cb) = f cb"
  by (induction ws arbitrary: cb) simp_all

definition front :: "control_block \<Rightarrow> string \<times> size_t \<times> size_t \<times> bool" where
  "front cb = (cb_channel_name cb, cb_buffer_size cb, cb_payload_max cb, cb_initialized cb)"

lemma init_rest_front: "w \<in> set (init_rest config) \<Longrightarrow> front (w cb) = front cb"
  by (auto simp: init_rest_def init_slot_def slot_put_def front_def)

lemma fold_rest_front: "set ws \<subseteq> set (init_rest config) \<Longrightarrow> front (fold (\<lambda>w cb. w cb) ws cb) = front cb"
  by (rule fold_keeps) (use init_rest_front in blast)

lemma init_after_rest:
  assumes "6 \<le> k" "k < length (init_stores config)"
  shows "front (init_after config k cb0) = (stored_name (cc_name config), cc_buffer_size config, cc_payload_max config, False)"
proof -
  let ?r = "take (k - 6) (init_rest config)"
  have "length (init_head config) = 6" by (simp add: init_head_def)
  with assms have "take k (init_stores config) = init_head config @ ?r" by (simp add: init_stores_def)
  then have "init_after config k cb0 = fold (\<lambda>w cb. w cb) ?r (fold (\<lambda>w cb. w cb) (init_head config) cb0)"
    by (simp add: init_after_def)
  moreover have "set ?r \<subseteq> set (init_rest config)" by (rule set_take_subset)
  ultimately show ?thesis using fold_rest_front by (simp add: init_head_def) (simp add: front_def)
qed

lemma init_after_few:
  "init_after config 2 cb0 = cb0\<lparr>cb_version := 1, cb_initialized := False\<rparr>"
  "init_after config 3 cb0 = cb0\<lparr>cb_version := 1, cb_initialized := False, cb_channel_name := []\<rparr>"
  "init_after config 4 cb0 = cb0\<lparr>cb_version := 1, cb_initialized := False, cb_channel_name := stored_name (cc_name config)\<rparr>"
  "init_after config 5 cb0 = cb0\<lparr>cb_version := 1, cb_initialized := False, cb_channel_name := stored_name (cc_name config),
     cb_buffer_size := cc_buffer_size config\<rparr>"
  by (simp_all add: init_after_def init_stores_def init_head_def numeral_eq_Suc)

text \<open>The loop over the slots.\<close>

definition slot_reset :: "shm_slot \<Rightarrow> shm_slot" where
  "slot_reset s = s\<lparr>cs_sequence := 0, cs_state := STATE_EMPTY\<rparr>"

lemma fold_init_slots:
  assumes "cb_slots cb = map old [0..<n]" "k \<le> n"
  shows "fold (\<lambda>w cb. w cb) (concat (map init_slot [0..<k])) cb
       = cb\<lparr>cb_slots := map (\<lambda>i. if i < k then slot_reset (old i) else old i) [0..<n]\<rparr>"
  using assms(2)
proof (induction k)
  case 0
  then show ?case using assms(1) by simp
next
  case (Suc k)
  let ?g = "\<lambda>k i. if i < k then slot_reset (old i) else old i"
  have "(map (?g k) [0..<n])[k := slot_reset (old k)] = map (?g (Suc k)) [0..<n]"
    by (rule nth_equalityI) (auto simp: nth_list_update less_Suc_eq)
  with Suc show ?case by (simp add: init_slot_def slot_put_def slot_reset_def)
qed

section \<open>Creation and opening interleaved\<close>

lemma all_stores:
  assumes "cb_slots cb0 = map old [0..<unat (cc_buffer_size config)]"
  shows "init_after config (length (init_stores config)) cb0 = fresh_control config old"
proof -
  let ?n = "unat (cc_buffer_size config)"
  have "fold (\<lambda>w cb. w cb) (concat (map init_slot [0..<?n])) cb = cb\<lparr>cb_slots := map (\<lambda>i. slot_reset (old i)) [0..<?n]\<rparr>"
    if "cb_slots cb = map old [0..<?n]" for cb
    using fold_init_slots [OF that order_refl] by (simp cong: map_cong)
  then show ?thesis using assms
    by (simp add: init_after_def init_stores_def init_head_def init_rest_def fresh_control_def slot_reset_def)
qed

text \<open>
  C28. The stores of the creator, one after the other, amount to the fresh control block of
  \<open>channel_create\<close>, and from the second store on \<open>initialized\<close> is false until the last one: a process
  that reads it as true then sees a complete, empty ring, whatever the segment held before.
\<close>

theorem channel_init_published:
  assumes "cb_slots cb0 = map old [0..<unat (cc_buffer_size config)]" "2 \<le> k"
  shows "init_after config (length (init_stores config)) cb0 = fresh_control config old \<and>
    (cb_initialized (init_after config k cb0) \<longleftrightarrow> length (init_stores config) \<le> k)"
proof -
  have "cb_initialized (init_after config k cb0) \<longleftrightarrow> length (init_stores config) \<le> k"
  proof (cases "k < length (init_stores config)")
    case True
    consider "k = 2" | "k = 3" | "k = 4" | "k = 5" | "6 \<le> k" using assms(2) by linarith
    then have "\<not> cb_initialized (init_after config k cb0)"
    proof cases
      case 5
      with init_after_rest [OF _ True, of cb0] show ?thesis by (simp add: front_def)
    qed (simp_all add: init_after_few)
    with True show ?thesis by simp
  next
    case False
    then have "init_after config k cb0 = init_after config (length (init_stores config)) cb0"
      by (simp add: init_after_def)
    with False all_stores [OF assms(1)] show ?thesis by (simp add: fresh_control_def)
  qed
  with all_stores [OF assms(1)] show ?thesis by blast
qed

text \<open>The memory of a new segment of the example: all zero.\<close>

definition demo_blank :: control_block where
  "demo_blank = \<lparr>cb_version = 0, cb_initialized = False, cb_channel_name = [], cb_buffer_size = 0, cb_payload_max = 0,
     cb_slot_size = 0, cb_total_size = 0, cb_head = 0, cb_tail = 0, cb_sent = 0, cb_received = 0, cb_dropped = 0,
     cb_slots = map demo_old [0..<3]\<rparr>"

lemma demo_blank_slots: "cb_slots demo_blank = map demo_old [0..<unat (cc_buffer_size demo_config)]"
  by (simp add: demo_blank_def demo_config_def)

lemma demo_store_count: "length (init_stores demo_config) = 20"
  by (simp add: init_stores_def init_head_def init_rest_def init_slot_def demo_config_def upt_rec)

theorem channel_init_published_witness:
  "init_after demo_config 20 demo_blank = fresh_control demo_config demo_old \<and>
   \<not> cb_initialized (init_after demo_config 19 demo_blank)"
  using channel_init_published [OF demo_blank_slots, of 19] by (simp add: demo_store_count)

text \<open>
  But \<open>open\<close> does not look at \<open>initialized\<close>: between the third and the fourth store it finds no name,
  fails, and removes the segment that is being created; between the fourth and the sixth it
  succeeds and keeps sizes that the segment held before, for ever.
\<close>

theorem channel_open_during_creation:
  assumes "fst (sh_open os (''/lwipc_'' @ cc_name config) segment_none h)"
    and "cc_name config \<noteq> []" "length (cc_name config) < 64" "CHR 0x00 \<notin> set (cc_name config)"
    and "3 \<le> k" "k < length (init_stores config)"
  shows "if k = 3
    then fst (channel_open os (cc_name config) (init_after config k cb0) h) = None \<and>
      hd (snd (snd (channel_open os (cc_name config) (init_after config k cb0) h))) = ShmUnlink (''/lwipc_'' @ cc_name config)
    else \<exists>d. fst (channel_open os (cc_name config) (init_after config k cb0) h) = Some d \<and>
      cc_buffer_size (sc_config d) = (if k = 4 then cb_buffer_size cb0 else cc_buffer_size config) \<and>
      cc_payload_max (sc_config d) = (if k \<le> 5 then cb_payload_max cb0 else cc_payload_max config)"
proof -
  obtain seg h1 where o: "sh_open os (''/lwipc_'' @ cc_name config) segment_none h = (True, seg, h1)"
    using assms(1) by (cases "sh_open os (''/lwipc_'' @ cc_name config) segment_none h") auto
  then have "sh_name seg = ''/lwipc_'' @ cc_name config"
    by (auto simp: sh_open_def sh_map_def sys_def Let_def normalize_name_def split: if_splits)
  then have unlink: "hd (snd (sh_close os seg h1)) = ShmUnlink (''/lwipc_'' @ cc_name config)"
    by (simp add: sh_close_def sys_def Let_def)
  have name: "stored_name (cc_name config) = cc_name config" by (rule stored_name_id [OF assms(3,4)])
  consider "k = 3" | "k = 4" | "k = 5" | "6 \<le> k" using assms(5) by linarith
  then show ?thesis
  proof cases
    case 1
    with o unlink assms(2) show ?thesis
      by (simp add: init_after_few channel_open_def channel_delete_def Let_def)
  next
    case 4
    with init_after_rest [OF 4 assms(6), of cb0] o name show ?thesis
      by (simp add: channel_open_def front_def Let_def)
  qed (use o name in \<open>simp_all add: init_after_few channel_open_def Let_def\<close>)
qed

theorem channel_open_during_creation_witness:
  "\<exists>d. fst (channel_open os_demo ''cam'' (init_after demo_config 4 demo_blank) []) = Some d \<and> cc_payload_max (sc_config d) = 0"
  using channel_open_during_creation [OF demo_open, of 4 demo_blank] demo_store_count
  by (auto simp: demo_config_def demo_blank_def)

end
