(* ===== verification/ShmThreads.thy ===== *)
theory ShmThreads
  imports ShmChannel
begin

text \<open>
  One publishing and one consuming process on a shared-memory channel, interleaved at every
  access to the control block and the slots. The steps follow \<open>channel_publish\<close> and one pass of
  \<open>channel_consume\<close>; a local variable of a call is in its program counter. The sequential model
  shows that the ring indices stay below \<open>buffer_size\<close>, so they are natural numbers here.
  \<open>hs_sent\<close>, \<open>hs_got\<close>, \<open>hs_taken\<close> and \<open>hs_refused\<close> record the history: the payloads published
  and delivered, the number of advances of the read index, and the publications that failed at
  the exchange of the slot's state.
\<close>

section \<open>Steps\<close>

datatype 'd publishing =
    PubIdle
  | PubLoaded 'd nat    \<comment> \<open>\<open>head\<close> read\<close>
  | PubChecked 'd nat   \<comment> \<open>the ring was not full\<close>
  | PubOwns 'd nat      \<comment> \<open>the slot is \<open>WRITING\<close>\<close>
  | PubWritten 'd nat   \<comment> \<open>header and payload are written\<close>
  | PubReady 'd nat     \<comment> \<open>the slot is \<open>READY\<close>\<close>

datatype consuming =
    ConIdle
  | ConLoaded nat       \<comment> \<open>\<open>tail\<close> read\<close>
  | ConSeen nat         \<comment> \<open>the ring was not empty\<close>
  | ConReady nat        \<comment> \<open>the slot was \<open>READY\<close>\<close>
  | ConDelivered nat    \<comment> \<open>the callback has returned\<close>
  | ConReading nat      \<comment> \<open>the slot is \<open>READING\<close>\<close>
  | ConAdvanced nat     \<comment> \<open>\<open>tail\<close> written\<close>

record 'd shm_sys =
  hs_n :: nat
  hs_head :: nat
  hs_tail :: nat
  hs_state :: "nat \<Rightarrow> u32"
  hs_data :: "nat \<Rightarrow> 'd"
  hs_pub :: "'d publishing"
  hs_con :: consuming
  hs_sent :: "'d list"
  hs_got :: "'d list"
  hs_taken :: nat
  hs_refused :: nat

definition shm_start :: "'d shm_sys \<Rightarrow> bool" where
  "shm_start s \<longleftrightarrow> 0 < hs_n s \<and> hs_head s = 0 \<and> hs_tail s = 0 \<and> (\<forall>i. hs_state s i = STATE_EMPTY) \<and>
     hs_pub s = PubIdle \<and> hs_con s = ConIdle \<and> hs_sent s = [] \<and> hs_got s = [] \<and> hs_taken s = 0 \<and> hs_refused s = 0"

inductive shm_step :: "'d shm_sys \<Rightarrow> 'd shm_sys \<Rightarrow> bool" where
  pub_call: "hs_pub s = PubIdle \<Longrightarrow> shm_step s (s\<lparr>hs_pub := PubLoaded d (hs_head s)\<rparr>)"
| pub_full: "hs_pub s = PubLoaded d h \<Longrightarrow> (h + 1) mod hs_n s = hs_tail s \<Longrightarrow> shm_step s (s\<lparr>hs_pub := PubIdle\<rparr>)"
| pub_room: "hs_pub s = PubLoaded d h \<Longrightarrow> (h + 1) mod hs_n s \<noteq> hs_tail s \<Longrightarrow> shm_step s (s\<lparr>hs_pub := PubChecked d h\<rparr>)"
| pub_own: "hs_pub s = PubChecked d h \<Longrightarrow> hs_state s h = STATE_EMPTY \<Longrightarrow>
     shm_step s (s\<lparr>hs_pub := PubOwns d h, hs_state := (hs_state s)(h := STATE_WRITING)\<rparr>)"
| pub_refused: "hs_pub s = PubChecked d h \<Longrightarrow> hs_state s h \<noteq> STATE_EMPTY \<Longrightarrow>
     shm_step s (s\<lparr>hs_pub := PubIdle, hs_refused := hs_refused s + 1\<rparr>)"
| pub_write: "hs_pub s = PubOwns d h \<Longrightarrow>
     shm_step s (s\<lparr>hs_pub := PubWritten d h, hs_data := (hs_data s)(h := d)\<rparr>)"
| pub_ready: "hs_pub s = PubWritten d h \<Longrightarrow>
     shm_step s (s\<lparr>hs_pub := PubReady d h, hs_state := (hs_state s)(h := STATE_READY)\<rparr>)"
| pub_advance: "hs_pub s = PubReady d h \<Longrightarrow>
     shm_step s (s\<lparr>hs_pub := PubIdle, hs_head := (h + 1) mod hs_n s, hs_sent := hs_sent s @ [d]\<rparr>)"
| con_call: "hs_con s = ConIdle \<Longrightarrow> shm_step s (s\<lparr>hs_con := ConLoaded (hs_tail s)\<rparr>)"
| con_empty: "hs_con s = ConLoaded t \<Longrightarrow> t = hs_head s \<Longrightarrow> shm_step s (s\<lparr>hs_con := ConIdle\<rparr>)"
| con_seen: "hs_con s = ConLoaded t \<Longrightarrow> t \<noteq> hs_head s \<Longrightarrow> shm_step s (s\<lparr>hs_con := ConSeen t\<rparr>)"
| con_not_ready: "hs_con s = ConSeen t \<Longrightarrow> hs_state s t \<noteq> STATE_READY \<Longrightarrow> shm_step s (s\<lparr>hs_con := ConIdle\<rparr>)"
| con_ready: "hs_con s = ConSeen t \<Longrightarrow> hs_state s t = STATE_READY \<Longrightarrow> shm_step s (s\<lparr>hs_con := ConReady t\<rparr>)"
| con_deliver: "hs_con s = ConReady t \<Longrightarrow>
     shm_step s (s\<lparr>hs_con := ConDelivered t, hs_got := hs_got s @ [hs_data s t]\<rparr>)"
| con_reading: "hs_con s = ConDelivered t \<Longrightarrow>
     shm_step s (s\<lparr>hs_con := ConReading t, hs_state := (hs_state s)(t := STATE_READING)\<rparr>)"
| con_advance: "hs_con s = ConReading t \<Longrightarrow>
     shm_step s (s\<lparr>hs_con := ConAdvanced t, hs_tail := (t + 1) mod hs_n s, hs_taken := hs_taken s + 1\<rparr>)"
| con_release: "hs_con s = ConAdvanced t \<Longrightarrow>
     shm_step s (s\<lparr>hs_con := ConIdle, hs_state := (hs_state s)(t := STATE_EMPTY)\<rparr>)"

section \<open>Invariant\<close>

text \<open>
  Positions count messages from the start: position \<open>p\<close> is in slot \<open>p mod n\<close>. The window of \<open>n\<close>
  positions from \<open>hs_taken\<close> covers every slot once; each has the state that its position and the
  two program counters call for.
\<close>

fun pub_state :: "'d publishing \<Rightarrow> u32" where
  "pub_state (PubOwns d h) = STATE_WRITING"
| "pub_state (PubWritten d h) = STATE_WRITING"
| "pub_state (PubReady d h) = STATE_READY"
| "pub_state _ = STATE_EMPTY"

fun is_reading :: "consuming \<Rightarrow> bool" where
  "is_reading (ConReading t) = True"
| "is_reading _ = False"

fun is_advanced :: "consuming \<Rightarrow> bool" where
  "is_advanced (ConAdvanced t) = True"
| "is_advanced _ = False"

fun delivering :: "consuming \<Rightarrow> bool" where
  "delivering (ConDelivered t) = True"
| "delivering (ConReading t) = True"
| "delivering _ = False"

abbreviation sent_n :: "'d shm_sys \<Rightarrow> nat" where "sent_n s \<equiv> length (hs_sent s)"

definition want :: "'d shm_sys \<Rightarrow> nat \<Rightarrow> u32" where
  "want s p = (if p < sent_n s then (if p = hs_taken s \<and> is_reading (hs_con s) then STATE_READING else STATE_READY)
     else if p + 1 = hs_taken s + hs_n s \<and> is_advanced (hs_con s) then STATE_READING
     else if p = sent_n s then pub_state (hs_pub s) else STATE_EMPTY)"

fun pub_inv :: "'d shm_sys \<Rightarrow> 'd publishing \<Rightarrow> bool" where
  "pub_inv s PubIdle = True"
| "pub_inv s (PubLoaded d h) = (h = hs_head s)"
| "pub_inv s (PubChecked d h) = (h = hs_head s \<and> sent_n s + 1 < hs_taken s + hs_n s)"
| "pub_inv s (PubOwns d h) = (h = hs_head s \<and> sent_n s + 1 < hs_taken s + hs_n s)"
| "pub_inv s (PubWritten d h) = (h = hs_head s \<and> sent_n s + 1 < hs_taken s + hs_n s \<and> hs_data s h = d)"
| "pub_inv s (PubReady d h) = (h = hs_head s \<and> sent_n s + 1 < hs_taken s + hs_n s \<and> hs_data s h = d)"

fun con_inv :: "'d shm_sys \<Rightarrow> consuming \<Rightarrow> bool" where
  "con_inv s ConIdle = True"
| "con_inv s (ConLoaded t) = (t = hs_tail s)"
| "con_inv s (ConSeen t) = (t = hs_tail s \<and> hs_taken s < sent_n s)"
| "con_inv s (ConReady t) = (t = hs_tail s \<and> hs_taken s < sent_n s)"
| "con_inv s (ConDelivered t) = (t = hs_tail s \<and> hs_taken s < sent_n s)"
| "con_inv s (ConReading t) = (t = hs_tail s \<and> hs_taken s < sent_n s)"
| "con_inv s (ConAdvanced t) = (t = (hs_taken s + hs_n s - 1) mod hs_n s \<and> 0 < hs_taken s)"

definition shm_inv :: "'d shm_sys \<Rightarrow> bool" where
  "shm_inv s \<longleftrightarrow> 0 < hs_n s \<and> hs_head s = sent_n s mod hs_n s \<and> hs_tail s = hs_taken s mod hs_n s \<and>
     hs_taken s \<le> sent_n s \<and> sent_n s < hs_taken s + hs_n s \<and> hs_refused s = 0 \<and>
     hs_got s = take (hs_taken s + (if delivering (hs_con s) then 1 else 0)) (hs_sent s) \<and>
     pub_inv s (hs_pub s) \<and> con_inv s (hs_con s) \<and>
     (\<forall>p. hs_taken s \<le> p \<and> p < hs_taken s + hs_n s \<longrightarrow> hs_state s (p mod hs_n s) = want s p) \<and>
     (\<forall>p. hs_taken s \<le> p \<and> p < sent_n s \<longrightarrow> hs_data s (p mod hs_n s) = hs_sent s ! p)"

lemma shm_invI:
  assumes "0 < hs_n s" "hs_head s = sent_n s mod hs_n s" "hs_tail s = hs_taken s mod hs_n s"
    and "hs_taken s \<le> sent_n s" "sent_n s < hs_taken s + hs_n s" "hs_refused s = 0"
    and "hs_got s = take (hs_taken s + (if delivering (hs_con s) then 1 else 0)) (hs_sent s)"
    and "pub_inv s (hs_pub s)" "con_inv s (hs_con s)"
    and "\<And>p. hs_taken s \<le> p \<Longrightarrow> p < hs_taken s + hs_n s \<Longrightarrow> hs_state s (p mod hs_n s) = want s p"
    and "\<And>p. hs_taken s \<le> p \<Longrightarrow> p < sent_n s \<Longrightarrow> hs_data s (p mod hs_n s) = hs_sent s ! p"
  shows "shm_inv s"
  using assms unfolding shm_inv_def by blast

lemma shm_invD:
  assumes "shm_inv s"
  shows "0 < hs_n s" "hs_head s = sent_n s mod hs_n s" "hs_tail s = hs_taken s mod hs_n s"
    and "hs_taken s \<le> sent_n s" "sent_n s < hs_taken s + hs_n s" "hs_refused s = 0"
    and "hs_got s = take (hs_taken s + (if delivering (hs_con s) then 1 else 0)) (hs_sent s)"
    and "pub_inv s (hs_pub s)" "con_inv s (hs_con s)"
    and "\<And>p. hs_taken s \<le> p \<Longrightarrow> p < hs_taken s + hs_n s \<Longrightarrow> hs_state s (p mod hs_n s) = want s p"
    and "\<And>p. hs_taken s \<le> p \<Longrightarrow> p < sent_n s \<Longrightarrow> hs_data s (p mod hs_n s) = hs_sent s ! p"
  using assms unfolding shm_inv_def by blast+

text \<open>Within the window, slots and positions determine each other.\<close>

lemma slot_pos:
  assumes "shm_inv s" "hs_taken s \<le> p" "p < hs_taken s + hs_n s" "hs_taken s \<le> q" "q < hs_taken s + hs_n s"
  shows "p mod hs_n s = q mod hs_n s \<longleftrightarrow> p = q"
  using mod_window_inj [OF assms(2,3,4,5)] by auto

lemma head_tail_eq: "shm_inv s \<Longrightarrow> hs_tail s = hs_head s \<longleftrightarrow> hs_taken s = sent_n s"
  using slot_pos [of s "hs_taken s" "sent_n s"] shm_invD(1-5) [of s] by auto

lemma next_tail_eq:
  assumes "shm_inv s"
  shows "(hs_head s + 1) mod hs_n s = hs_tail s \<longleftrightarrow> sent_n s + 1 = hs_taken s + hs_n s"
proof -
  note D = shm_invD [OF assms]
  have h: "(hs_head s + 1) mod hs_n s = (sent_n s + 1) mod hs_n s" by (simp add: D(2) mod_simps)
  show ?thesis
  proof (cases "sent_n s + 1 < hs_taken s + hs_n s")
    case True
    then have "(sent_n s + 1) mod hs_n s = hs_taken s mod hs_n s \<longleftrightarrow> sent_n s + 1 = hs_taken s"
      using D by (intro slot_pos [OF assms]) auto
    with True D(4) show ?thesis unfolding h D(3) by simp
  next
    case False
    then have "sent_n s + 1 = hs_taken s + hs_n s" using D(5) by simp
    then show ?thesis unfolding h D(3) by simp
  qed
qed

text \<open>Moves of a program counter that change neither slots nor indices.\<close>

lemma shm_pub_move:
  assumes "shm_inv s" "pub_inv s c" "pub_state c = pub_state (hs_pub s)"
  shows "shm_inv (s\<lparr>hs_pub := c\<rparr>)"
proof (rule shm_invI)
  show "pub_inv (s\<lparr>hs_pub := c\<rparr>) (hs_pub (s\<lparr>hs_pub := c\<rparr>))" using assms(2) by (cases c) simp_all
  show "con_inv (s\<lparr>hs_pub := c\<rparr>) (hs_con (s\<lparr>hs_pub := c\<rparr>))"
    using shm_invD(9) [OF assms(1)] by (cases "hs_con s") simp_all
qed (use shm_invD [OF assms(1)] assms(3) in \<open>auto simp: want_def\<close>)

lemma shm_con_move:
  assumes "shm_inv s" "con_inv s c" "delivering c = delivering (hs_con s)"
    and "is_reading c = is_reading (hs_con s)" "is_advanced c = is_advanced (hs_con s)"
  shows "shm_inv (s\<lparr>hs_con := c\<rparr>)"
proof (rule shm_invI)
  show "con_inv (s\<lparr>hs_con := c\<rparr>) (hs_con (s\<lparr>hs_con := c\<rparr>))" using assms(2) by (cases c) simp_all
  show "pub_inv (s\<lparr>hs_con := c\<rparr>) (hs_pub (s\<lparr>hs_con := c\<rparr>))"
    using shm_invD(8) [OF assms(1)] by (cases "hs_pub s") simp_all
qed (use shm_invD [OF assms(1)] assms(3-5) in \<open>auto simp: want_def\<close>)

text \<open>The publisher writes the state of the slot at the write index.\<close>

lemma shm_pub_slot:
  assumes "shm_inv s" "pub_inv s c" "sent_n s + 1 < hs_taken s + hs_n s"
  shows "shm_inv (s\<lparr>hs_pub := c, hs_state := (hs_state s)(hs_head s := pub_state c)\<rparr>)"
proof (rule shm_invI)
  let ?s = "s\<lparr>hs_pub := c, hs_state := (hs_state s)(hs_head s := pub_state c)\<rparr>"
  note D = shm_invD [OF assms(1)]
  show "pub_inv ?s (hs_pub ?s)" using assms(2) by (cases c) simp_all
  show "con_inv ?s (hs_con ?s)" using D(9) by (cases "hs_con s") simp_all
  fix p assume "hs_taken ?s \<le> p" "p < hs_taken ?s + hs_n ?s"
  then have p: "hs_taken s \<le> p" "p < hs_taken s + hs_n s" by simp_all
  have "p mod hs_n s = hs_head s \<longleftrightarrow> p = sent_n s"
    unfolding D(2) using p D(4,5) by (intro slot_pos [OF assms(1)]) auto
  with D(10) [OF p] assms(3) show "hs_state ?s (p mod hs_n ?s) = want ?s p"
    by (auto simp: want_def)
qed (use shm_invD [OF assms(1)] in auto)

lemma shm_pub_write:
  assumes "shm_inv s" "hs_pub s = PubOwns d h"
  shows "shm_inv (s\<lparr>hs_pub := PubWritten d h, hs_data := (hs_data s)(h := d)\<rparr>)"
proof (rule shm_invI)
  let ?s = "s\<lparr>hs_pub := PubWritten d h, hs_data := (hs_data s)(h := d)\<rparr>"
  note D = shm_invD [OF assms(1)]
  have pc: "h = hs_head s" "sent_n s + 1 < hs_taken s + hs_n s" using D(8) assms(2) by simp_all
  then show "pub_inv ?s (hs_pub ?s)" by simp
  show "con_inv ?s (hs_con ?s)" using D(9) by (cases "hs_con s") simp_all
  show "hs_state ?s (p mod hs_n ?s) = want ?s p" if "hs_taken ?s \<le> p" "p < hs_taken ?s + hs_n ?s" for p
    using D(10) [of p] that assms(2) by (simp add: want_def)
  fix p assume "hs_taken ?s \<le> p" "p < sent_n ?s"
  then have p: "hs_taken s \<le> p" "p < sent_n s" by simp_all
  have "p mod hs_n s \<noteq> h"
    unfolding pc(1) D(2) using p D(4,5) slot_pos [OF assms(1), of p "sent_n s"] by auto
  with D(11) [OF p] show "hs_data ?s (p mod hs_n ?s) = hs_sent ?s ! p" by simp
qed (use shm_invD [OF assms(1)] in auto)

lemma shm_pub_advance:
  assumes "shm_inv s" "hs_pub s = PubReady d h"
  shows "shm_inv (s\<lparr>hs_pub := PubIdle, hs_head := (h + 1) mod hs_n s, hs_sent := hs_sent s @ [d]\<rparr>)"
proof (rule shm_invI)
  let ?s = "s\<lparr>hs_pub := PubIdle, hs_head := (h + 1) mod hs_n s, hs_sent := hs_sent s @ [d]\<rparr>"
  note D = shm_invD [OF assms(1)]
  have pc: "h = hs_head s" "sent_n s + 1 < hs_taken s + hs_n s" "hs_data s h = d"
    using D(8) assms(2) by auto
  show "hs_head ?s = sent_n ?s mod hs_n ?s" using pc(1) D(2) by (simp add: mod_simps)
  show "con_inv ?s (hs_con ?s)" using D(9) by (cases "hs_con s") auto
  have "delivering (hs_con s) \<Longrightarrow> hs_taken s < sent_n s" using D(9) by (cases "hs_con s") auto
  then show "hs_got ?s = take (hs_taken ?s + (if delivering (hs_con ?s) then 1 else 0)) (hs_sent ?s)"
    using D(4,7) by auto
  show "hs_data ?s (p mod hs_n ?s) = hs_sent ?s ! p" if "hs_taken ?s \<le> p" "p < sent_n ?s" for p
    using that D(11) [of p] pc D(2) by (cases "p = sent_n s") (auto simp: nth_append)
  have "is_reading (hs_con s) \<Longrightarrow> hs_taken s < sent_n s" using D(9) by (cases "hs_con s") auto
  then show "hs_state ?s (p mod hs_n ?s) = want ?s p" if "hs_taken ?s \<le> p" "p < hs_taken ?s + hs_n ?s" for p
    using that D(10) [of p] pc(2) assms(2) by (auto simp: want_def)
qed (use shm_invD [OF assms(1)] assms(2) in auto)

lemma shm_con_deliver:
  assumes "shm_inv s" "hs_con s = ConReady t"
  shows "shm_inv (s\<lparr>hs_con := ConDelivered t, hs_got := hs_got s @ [hs_data s t]\<rparr>)"
proof (rule shm_invI)
  let ?s = "s\<lparr>hs_con := ConDelivered t, hs_got := hs_got s @ [hs_data s t]\<rparr>"
  note D = shm_invD [OF assms(1)]
  have pc: "t = hs_taken s mod hs_n s" "hs_taken s < sent_n s" using D(3,9) assms(2) by simp_all
  then show "con_inv ?s (hs_con ?s)" using D(3) by simp
  show "pub_inv ?s (hs_pub ?s)" using D(8) by (cases "hs_pub s") simp_all
  have "hs_data s t = hs_sent s ! hs_taken s" unfolding pc(1) by (rule D(11)) (use pc in simp_all)
  with D(7) assms(2) pc(2)
  show "hs_got ?s = take (hs_taken ?s + (if delivering (hs_con ?s) then 1 else 0)) (hs_sent ?s)"
    by (simp add: take_Suc_conv_app_nth)
  show "hs_state ?s (p mod hs_n ?s) = want ?s p" if "hs_taken ?s \<le> p" "p < hs_taken ?s + hs_n ?s" for p
    using D(10) [of p] that assms(2) by (simp add: want_def)
qed (use shm_invD [OF assms(1)] in auto)

lemma shm_con_reading:
  assumes "shm_inv s" "hs_con s = ConDelivered t"
  shows "shm_inv (s\<lparr>hs_con := ConReading t, hs_state := (hs_state s)(t := STATE_READING)\<rparr>)"
proof (rule shm_invI)
  let ?s = "s\<lparr>hs_con := ConReading t, hs_state := (hs_state s)(t := STATE_READING)\<rparr>"
  note D = shm_invD [OF assms(1)]
  have pc: "t = hs_taken s mod hs_n s" "hs_taken s < sent_n s" using D(3,9) assms(2) by simp_all
  then show "con_inv ?s (hs_con ?s)" using D(3) by simp
  show "pub_inv ?s (hs_pub ?s)" using D(8) by (cases "hs_pub s") simp_all
  fix p assume "hs_taken ?s \<le> p" "p < hs_taken ?s + hs_n ?s"
  then have p: "hs_taken s \<le> p" "p < hs_taken s + hs_n s" by simp_all
  have "p mod hs_n s = t \<longleftrightarrow> p = hs_taken s"
    unfolding pc(1) using p D(1) by (intro slot_pos [OF assms(1)]) auto
  with D(10) [OF p] pc(2) assms(2) show "hs_state ?s (p mod hs_n ?s) = want ?s p"
    by (auto simp: want_def)
qed (use shm_invD [OF assms(1)] assms(2) in auto)

lemma shm_con_advance:
  assumes "shm_inv s" "hs_con s = ConReading t"
  shows "shm_inv (s\<lparr>hs_con := ConAdvanced t, hs_tail := (t + 1) mod hs_n s, hs_taken := hs_taken s + 1\<rparr>)"
proof (rule shm_invI)
  let ?s = "s\<lparr>hs_con := ConAdvanced t, hs_tail := (t + 1) mod hs_n s, hs_taken := hs_taken s + 1\<rparr>"
  note D = shm_invD [OF assms(1)]
  have pc: "t = hs_taken s mod hs_n s" "hs_taken s < sent_n s" using D(3,9) assms(2) by simp_all
  have shift: "(hs_taken s + hs_n s) mod hs_n s = t" by (simp add: pc(1))
  then show "con_inv ?s (hs_con ?s)" by simp
  show "pub_inv ?s (hs_pub ?s)" using D(8) by (cases "hs_pub s") simp_all
  show "hs_tail ?s = hs_taken ?s mod hs_n ?s" by (simp add: pc(1) mod_simps)
  fix p assume "hs_taken ?s \<le> p" "p < hs_taken ?s + hs_n ?s"
  then have p: "hs_taken s < p" "p \<le> hs_taken s + hs_n s" by simp_all
  show "hs_state ?s (p mod hs_n ?s) = want ?s p"
  proof (cases "p = hs_taken s + hs_n s")
    case True
    have "hs_state s (hs_taken s mod hs_n s) = want s (hs_taken s)" using D(1) by (intro D(10)) auto
    with True shift pc assms(2) D(5) show ?thesis by (auto simp: want_def)
  next
    case False
    with D(10) [of p] p assms(2) show ?thesis by (auto simp: want_def)
  qed
qed (use shm_invD [OF assms(1)] assms(2) in auto)

lemma shm_con_release:
  assumes "shm_inv s" "hs_con s = ConAdvanced t"
  shows "shm_inv (s\<lparr>hs_con := ConIdle, hs_state := (hs_state s)(t := STATE_EMPTY)\<rparr>)"
proof (rule shm_invI)
  let ?s = "s\<lparr>hs_con := ConIdle, hs_state := (hs_state s)(t := STATE_EMPTY)\<rparr>"
  note D = shm_invD [OF assms(1)]
  let ?e = "hs_taken s + hs_n s - 1"
  have pc: "t = ?e mod hs_n s" using D(9) assms(2) by simp
  show "con_inv ?s (hs_con ?s)" by simp
  show "pub_inv ?s (hs_pub ?s)" using D(8) by (cases "hs_pub s") simp_all
  have idle: "pub_state (hs_pub s) = STATE_EMPTY" if "sent_n s = ?e"
    using D(1,8) that by (cases "hs_pub s") auto
  fix p assume "hs_taken ?s \<le> p" "p < hs_taken ?s + hs_n ?s"
  then have p: "hs_taken s \<le> p" "p < hs_taken s + hs_n s" by simp_all
  have "p mod hs_n s = t \<longleftrightarrow> p = ?e"
    unfolding pc using p D(1) by (intro slot_pos [OF assms(1)]) auto
  with D(10) [OF p] D(1,5) idle assms(2) show "hs_state ?s (p mod hs_n ?s) = want ?s p"
    by (auto simp: want_def)
qed (use shm_invD [OF assms(1)] assms(2) in auto)

lemma shm_not_refused:
  assumes "shm_inv s" "hs_pub s = PubChecked d h"
  shows "hs_state s h = STATE_EMPTY"
proof -
  note D = shm_invD [OF assms(1)]
  have "hs_state s (sent_n s mod hs_n s) = want s (sent_n s)" using D(4,5) by (intro D(10)) auto
  with D(2,8) assms(2) show ?thesis by (auto simp: want_def)
qed

lemma shm_step_inv [model_inv]: "shm_step s t \<Longrightarrow> shm_inv s \<Longrightarrow> shm_inv t"
proof (induction rule: shm_step.induct)
  case (pub_call s d)
  then show ?case by (intro shm_pub_move) simp_all
next
  case (pub_full s d h)
  then show ?case by (intro shm_pub_move) simp_all
next
  case (pub_room s d h)
  then have "h = hs_head s" using shm_invD(8) [of s] by simp
  with pub_room next_tail_eq [of s] shm_invD(5) [of s] show ?case by (intro shm_pub_move) auto
next
  case (pub_own s d h)
  then have "h = hs_head s" "sent_n s + 1 < hs_taken s + hs_n s" using shm_invD(8) [of s] by simp_all
  with shm_pub_slot [of s "PubOwns d h"] pub_own(3) show ?case by simp
next
  case (pub_refused s d h)
  then show ?case using shm_not_refused [of s d h] by simp
next
  case (pub_write s d h)
  then show ?case by (simp add: shm_pub_write)
next
  case (pub_ready s d h)
  then have "h = hs_head s" "sent_n s + 1 < hs_taken s + hs_n s" "hs_data s h = d" using shm_invD(8) [of s] by auto
  with shm_pub_slot [of s "PubReady d h"] pub_ready(2) show ?case by simp
next
  case (pub_advance s d h)
  then show ?case using shm_pub_advance [of s d h] by simp
next
  case (con_call s)
  then show ?case by (intro shm_con_move) simp_all
next
  case (con_empty s t)
  then show ?case by (intro shm_con_move) simp_all
next
  case (con_seen s t)
  then have "t = hs_tail s" using shm_invD(9) [of s] by simp
  with con_seen head_tail_eq [of s] shm_invD(4) [of s] show ?case by (intro shm_con_move) auto
next
  case (con_not_ready s t)
  then show ?case by (intro shm_con_move) simp_all
next
  case (con_ready s t)
  then show ?case using shm_invD(9) [of s] by (intro shm_con_move) simp_all
next
  case (con_deliver s t)
  then show ?case by (simp add: shm_con_deliver)
next
  case (con_reading s t)
  then show ?case by (simp add: shm_con_reading)
next
  case (con_advance s t)
  then show ?case using shm_con_advance [of s t] by simp
next
  case (con_release s t)
  then show ?case by (simp add: shm_con_release)
qed

lemma shm_start_inv: "shm_start s \<Longrightarrow> shm_inv s"
  by (auto simp: shm_start_def shm_inv_def want_def)

interpretation shmm: safe_machine shm_start shm_step shm_inv
  by unfold_locales (erule shm_start_inv, erule (1) shm_step_inv [rotated])

section \<open>Properties\<close>

lemma shm_step_moves:
  "shm_step s t \<Longrightarrow> hs_n t = hs_n s \<and>
    (hs_sent t = hs_sent s \<or> (\<exists>v. hs_sent t = hs_sent s @ [v]) \<and> hs_got t = hs_got s) \<and>
    (hs_got t = hs_got s \<or> (\<exists>v. hs_got t = hs_got s @ [v]) \<and> hs_sent t = hs_sent s)"
  by (erule shm_step.cases) simp_all

lemma shm_inv_pending:
  assumes "shm_inv s"
  shows "\<exists>rest. hs_sent s = hs_got s @ rest \<and> length rest \<le> hs_n s - 1"
proof -
  note D = shm_invD [OF assms]
  let ?k = "hs_taken s + (if delivering (hs_con s) then 1 else 0)"
  have "hs_sent s = hs_got s @ drop ?k (hs_sent s)" unfolding D(7) by simp
  moreover have "length (drop ?k (hs_sent s)) \<le> hs_n s - 1" using D(5) by simp
  ultimately show ?thesis by blast
qed

interpretation shmf: fifo_machine shm_start shm_step shm_inv hs_sent hs_got "\<lambda>s. hs_n s - 1"
  by unfold_locales (simp add: shm_start_def, erule shm_inv_pending, simp_all add: shm_step_moves)

text \<open>
  One publisher and one consumer process implement a first-in first-out channel of
  \<open>buffer_size - 1\<close> places: in every interleaving the payloads published and delivered are those of
  a run of that channel, so what is delivered is a prefix of what was published; and no publication
  is ever refused by the state of its slot: messages are dropped only when the ring is full.
\<close>

theorem shm_threads_fifo:
  assumes "shm_start s" "shm_step\<^sup>*\<^sup>* s t"
  shows "(fifo_step (hs_n t - 1))\<^sup>*\<^sup>* ([], []) (hs_sent t, hs_got t) \<and>
    (\<exists>rest. hs_sent t = hs_got t @ rest \<and> length rest \<le> hs_n t - 1) \<and> hs_refused t = 0"
  using shmf.refines [OF assms] shm_inv_pending [OF shmm.reach_inv [OF assms]] shm_invD(6) [OF shmm.reach_inv [OF assms]]
  by blast

text \<open>
  The two processes never touch one slot's header or payload at the same time, and the
  consumer reads only slots in the state \<open>READY\<close>.
\<close>

theorem shm_threads_race_free:
  assumes "shm_start s" "shm_step\<^sup>*\<^sup>* s u" "hs_pub u = PubOwns d h" "hs_con u = ConReady t"
  shows "h \<noteq> t \<and> hs_state u h = STATE_WRITING \<and> hs_state u t = STATE_READY"
proof -
  have inv: "shm_inv u" by (rule shmm.reach_inv [OF assms(1,2)])
  note D = shm_invD [OF inv]
  have h: "h = sent_n u mod hs_n u" "sent_n u + 1 < hs_taken u + hs_n u" and t: "t = hs_taken u mod hs_n u" "hs_taken u < sent_n u"
    using D(2,3,8,9) assms(3,4) by simp_all
  have "h \<noteq> t" unfolding h(1) t(1) using slot_pos [OF inv, of "sent_n u" "hs_taken u"] D(4,5) t(2) by auto
  moreover have "hs_state u h = want u (sent_n u)" "hs_state u t = want u (hs_taken u)"
    unfolding h(1) t(1) using D(4,5) by (auto intro!: D(10))
  ultimately show ?thesis using h(2) t(2) assms(3,4) by (simp add: want_def)
qed

section \<open>A run\<close>

definition hs_demo :: "nat list \<Rightarrow> nat list \<Rightarrow> nat \<Rightarrow> nat \<Rightarrow> (nat \<Rightarrow> u32) \<Rightarrow> (nat \<Rightarrow> nat) \<Rightarrow>
    nat publishing \<Rightarrow> consuming \<Rightarrow> nat shm_sys" where
  "hs_demo sent got head tail st dt pub con = \<lparr>hs_n = 3, hs_head = head, hs_tail = tail, hs_state = st, hs_data = dt,
     hs_pub = pub, hs_con = con, hs_sent = sent, hs_got = got, hs_taken = tail, hs_refused = 0\<rparr>"

abbreviation hs_demo0 :: "nat shm_sys" where
  "hs_demo0 \<equiv> hs_demo [] [] 0 0 (\<lambda>_. STATE_EMPTY) (\<lambda>_. 0) PubIdle ConIdle"

abbreviation hs_demo1 :: "nat shm_sys" where
  "hs_demo1 \<equiv> hs_demo [7] [] 1 0 ((\<lambda>_. STATE_EMPTY)(0 := STATE_READY, 1 := STATE_WRITING)) ((\<lambda>_. 0)(0 := 7))
     (PubOwns 8 1) (ConReady 0)"

lemma hs_demo_start: "shm_start hs_demo0"
  by (simp add: shm_start_def hs_demo_def)

lemma hs_demo_run: "shm_step\<^sup>*\<^sup>* hs_demo0 hs_demo1"
  unfolding hs_demo_def
  apply (rule converse_rtranclp_into_rtranclp, rule pub_call [where d = 7], simp)
  apply (rule converse_rtranclp_into_rtranclp, rule pub_room, simp, simp)
  apply (rule converse_rtranclp_into_rtranclp, rule pub_own, simp, simp)
  apply (rule converse_rtranclp_into_rtranclp, rule pub_write, simp)
  apply (rule converse_rtranclp_into_rtranclp, rule pub_ready, simp)
  apply (rule converse_rtranclp_into_rtranclp, rule pub_advance, simp)
  apply (rule converse_rtranclp_into_rtranclp, rule con_call, simp)
  apply (rule converse_rtranclp_into_rtranclp, rule con_seen, simp, simp)
  apply (rule converse_rtranclp_into_rtranclp, rule con_ready, simp, simp)
  apply (rule converse_rtranclp_into_rtranclp, rule pub_call [where d = 8], simp)
  apply (rule converse_rtranclp_into_rtranclp, rule pub_room, simp, simp)
  apply (rule converse_rtranclp_into_rtranclp, rule pub_own, simp, simp)
  apply (rule rtranclp_refl_eq, auto simp: fun_eq_iff)
  done

theorem shm_threads_fifo_witness:
  "(fifo_step 2)\<^sup>*\<^sup>* ([], []) (hs_sent hs_demo1, hs_got hs_demo1) \<and> hs_refused hs_demo1 = 0"
  using shm_threads_fifo [OF hs_demo_start hs_demo_run] by (simp add: hs_demo_def)

theorem shm_threads_race_free_witness: "(1 :: nat) \<noteq> 0 \<and> hs_state hs_demo1 1 = STATE_WRITING"
  using shm_threads_race_free [OF hs_demo_start hs_demo_run, of 8 1 0] by (simp add: hs_demo_def)

end
