(* ===== verification/ShmPublishers.thy ===== *)
theory ShmPublishers
  imports ShmThreads
begin

text \<open>
  Several publishers on one shared-memory channel (\<open>src/shm_channel.cpp\<close>). \<open>publish\<close> takes a slot
  with a compare-exchange, but the position it works at was read before, and \<open>head\<close> is a plain store
  at the end: a publisher that is overtaken by another one and by the consumer writes a slot that
  the consumer has left behind. The steps are those of one publisher, for each of them.
\<close>

section \<open>Steps\<close>

text \<open>\<open>hm_pubs\<close> has the program counter of each publisher; the field \<open>hs_pub\<close> of the rest is not used.\<close>

record 'd shm_many =
  hm_shared :: "'d shm_sys"
  hm_pubs :: "nat \<Rightarrow> 'd publishing"

definition as_publisher :: "nat \<Rightarrow> 'd shm_many \<Rightarrow> 'd shm_sys" where
  "as_publisher i s = (hm_shared s)\<lparr>hs_pub := hm_pubs s i\<rparr>"

definition after_publisher :: "nat \<Rightarrow> 'd shm_sys \<Rightarrow> 'd shm_many \<Rightarrow> 'd shm_many" where
  "after_publisher i u s = \<lparr>hm_shared = u\<lparr>hs_pub := PubIdle\<rparr>, hm_pubs = (hm_pubs s)(i := hs_pub u)\<rparr>"

text \<open>A step of publisher \<open>i\<close>, or of the consumer.\<close>

inductive many_step :: "'d shm_many \<Rightarrow> 'd shm_many \<Rightarrow> bool" where
  many: "shm_step (as_publisher i s) u \<Longrightarrow> many_step s (after_publisher i u s)"

definition many_start :: "'d shm_many \<Rightarrow> bool" where
  "many_start s \<longleftrightarrow> shm_start (hm_shared s) \<and> (\<forall>i. hm_pubs s i = PubIdle)"

section \<open>A channel that is stuck\<close>

text \<open>
  The ring is empty by its indices, but the slot at the head is \<open>READY\<close>: publishers are refused
  there, and the consumer sees nothing.
\<close>

definition stuck :: "'d shm_many \<Rightarrow> bool" where
  "stuck s \<longleftrightarrow> (let h = hs_head (hm_shared s) in
     hs_tail (hm_shared s) = h \<and> hs_state (hm_shared s) h = STATE_READY \<and>
     hs_con (hm_shared s) \<in> {ConIdle, ConLoaded h} \<and>
     (\<forall>i. hm_pubs s i = PubIdle \<or> (\<exists>d. hm_pubs s i = PubLoaded d h \<or> hm_pubs s i = PubChecked d h)))"

lemma stuck_step:
  assumes "stuck s" "many_step s t"
  shows "stuck t \<and> hs_got (hm_shared t) = hs_got (hm_shared s) \<and> hs_sent (hm_shared t) = hs_sent (hm_shared s)"
  using assms(2)
proof cases
  case (many i u)
  let ?h = "hs_head (hm_shared s)"
  from assms(1) have st: "hs_tail (hm_shared s) = ?h" "hs_state (hm_shared s) ?h = STATE_READY"
    "hs_con (hm_shared s) = ConIdle \<or> hs_con (hm_shared s) = ConLoaded ?h"
    and pubs: "\<And>j. hm_pubs s j = PubIdle \<or> (\<exists>d. hm_pubs s j = PubLoaded d ?h \<or> hm_pubs s j = PubChecked d ?h)"
    by (auto simp: stuck_def Let_def)
  have ne: "STATE_READY \<noteq> STATE_EMPTY" by (simp add: slot_states)
  from many(2) st pubs [of i] ne have u: "hs_head u = ?h" "hs_tail u = ?h" "hs_state u = hs_state (hm_shared s)"
    "hs_con u = ConIdle \<or> hs_con u = ConLoaded ?h" "hs_got u = hs_got (hm_shared s)" "hs_sent u = hs_sent (hm_shared s)"
    "hs_pub u = PubIdle \<or> (\<exists>d. hs_pub u = PubLoaded d ?h \<or> hs_pub u = PubChecked d ?h)"
    by (cases; auto simp: as_publisher_def)+
  then show ?thesis using many(1) st(2) pubs by (auto simp: stuck_def after_publisher_def Let_def)
qed

lemma stuck_forever:
  assumes "stuck s" "many_step\<^sup>*\<^sup>* s t"
  shows "stuck t \<and> hs_got (hm_shared t) = hs_got (hm_shared s) \<and> hs_sent (hm_shared t) = hs_sent (hm_shared s)"
  using assms(2)
proof (induction rule: rtranclp_induct)
  case (step u v)
  with stuck_step [of u v] show ?case by simp
qed (use assms(1) in simp)

section \<open>Two publishers reach it\<close>

definition two_state :: "nat \<Rightarrow> nat \<Rightarrow> u32 \<Rightarrow> u32 \<Rightarrow> nat \<Rightarrow> nat \<Rightarrow> nat publishing \<Rightarrow> nat publishing \<Rightarrow> nat \<Rightarrow>
    nat list \<Rightarrow> nat list \<Rightarrow> nat shm_many" where
  "two_state h t s0 s1 d0 d1 p0 p1 k sent got =
     \<lparr>hm_shared = \<lparr>hs_n = 2, hs_head = h, hs_tail = t, hs_state = (\<lambda>_. STATE_EMPTY)(0 := s0, 1 := s1),
        hs_data = (\<lambda>_. 0)(0 := d0, 1 := d1), hs_pub = PubIdle, hs_con = ConIdle, hs_sent = sent, hs_got = got,
        hs_taken = k, hs_refused = 0\<rparr>,
      hm_pubs = (\<lambda>_. PubIdle)(0 := p0, 1 := p1)\<rparr>"

lemmas two_defs = two_state_def as_publisher_def after_publisher_def slot_states

lemma many_to: "shm_step (as_publisher i s) u \<Longrightarrow> after_publisher i u s = t \<Longrightarrow> many_step s t"
  using many by blast

text \<open>Both publishers read position 0; the first one publishes there, the consumer takes the message.\<close>

lemma two_first: "many_step\<^sup>*\<^sup>* (two_state 0 0 STATE_EMPTY STATE_EMPTY 0 0 PubIdle PubIdle 0 [] []) (two_state 1 0 STATE_READY STATE_EMPTY 7 0 PubIdle (PubChecked 8 0) 0 [7] [])"
  apply (rule converse_rtranclp_into_rtranclp, rule many_to [where i = 0], rule pub_call [where d = 7], simp add: two_defs, rule refl)
  apply (rule converse_rtranclp_into_rtranclp, rule many_to [where i = 1], rule pub_call [where d = 8], simp add: two_defs, rule refl)
  apply (rule converse_rtranclp_into_rtranclp, rule many_to [where i = 1], rule pub_room, simp add: two_defs, simp add: two_defs, rule refl)
  apply (rule converse_rtranclp_into_rtranclp, rule many_to [where i = 0], rule pub_room, simp add: two_defs, simp add: two_defs, rule refl)
  apply (rule converse_rtranclp_into_rtranclp, rule many_to [where i = 0], rule pub_own, simp add: two_defs, simp add: two_defs, rule refl)
  apply (rule converse_rtranclp_into_rtranclp, rule many_to [where i = 0], rule pub_write, simp add: two_defs, rule refl)
  apply (rule converse_rtranclp_into_rtranclp, rule many_to [where i = 0], rule pub_ready, simp add: two_defs, rule refl)
  apply (rule converse_rtranclp_into_rtranclp, rule many_to [where i = 0], rule pub_advance, simp add: two_defs, rule refl)
  apply (rule rtranclp_refl_eq, auto simp: two_defs fun_eq_iff)
  done

lemma two_taken: "many_step\<^sup>*\<^sup>* (two_state 1 0 STATE_READY STATE_EMPTY 7 0 PubIdle (PubChecked 8 0) 0 [7] []) (two_state 1 1 STATE_EMPTY STATE_EMPTY 7 0 PubIdle (PubChecked 8 0) 1 [7] [7])"
  apply (rule converse_rtranclp_into_rtranclp, rule many_to [where i = 0], rule con_call, simp add: two_defs, rule refl)
  apply (rule converse_rtranclp_into_rtranclp, rule many_to [where i = 0], rule con_seen, simp add: two_defs, simp add: two_defs, rule refl)
  apply (rule converse_rtranclp_into_rtranclp, rule many_to [where i = 0], rule con_ready, simp add: two_defs, simp add: two_defs, rule refl)
  apply (rule converse_rtranclp_into_rtranclp, rule many_to [where i = 0], rule con_deliver, simp add: two_defs, rule refl)
  apply (rule converse_rtranclp_into_rtranclp, rule many_to [where i = 0], rule con_reading, simp add: two_defs, rule refl)
  apply (rule converse_rtranclp_into_rtranclp, rule many_to [where i = 0], rule con_advance, simp add: two_defs, rule refl)
  apply (rule converse_rtranclp_into_rtranclp, rule many_to [where i = 0], rule con_release, simp add: two_defs, rule refl)
  apply (rule rtranclp_refl_eq, auto simp: two_defs fun_eq_iff)
  done

text \<open>The second one publishes at position 0 as well; then the first one at position 1, which is taken.\<close>

lemma two_second: "many_step\<^sup>*\<^sup>* (two_state 1 1 STATE_EMPTY STATE_EMPTY 7 0 PubIdle (PubChecked 8 0) 1 [7] [7]) (two_state 1 1 STATE_READY STATE_EMPTY 8 0 PubIdle PubIdle 1 [7, 8] [7])"
  apply (rule converse_rtranclp_into_rtranclp, rule many_to [where i = 1], rule pub_own, simp add: two_defs, simp add: two_defs, rule refl)
  apply (rule converse_rtranclp_into_rtranclp, rule many_to [where i = 1], rule pub_write, simp add: two_defs, rule refl)
  apply (rule converse_rtranclp_into_rtranclp, rule many_to [where i = 1], rule pub_ready, simp add: two_defs, rule refl)
  apply (rule converse_rtranclp_into_rtranclp, rule many_to [where i = 1], rule pub_advance, simp add: two_defs, rule refl)
  apply (rule rtranclp_refl_eq, auto simp: two_defs fun_eq_iff)
  done

lemma two_third: "many_step\<^sup>*\<^sup>* (two_state 1 1 STATE_READY STATE_EMPTY 8 0 PubIdle PubIdle 1 [7, 8] [7]) (two_state 0 1 STATE_READY STATE_READY 8 9 PubIdle PubIdle 1 [7, 8, 9] [7])"
  apply (rule converse_rtranclp_into_rtranclp, rule many_to [where i = 0], rule pub_call [where d = 9], simp add: two_defs, rule refl)
  apply (rule converse_rtranclp_into_rtranclp, rule many_to [where i = 0], rule pub_room, simp add: two_defs, simp add: two_defs, rule refl)
  apply (rule converse_rtranclp_into_rtranclp, rule many_to [where i = 0], rule pub_own, simp add: two_defs, simp add: two_defs, rule refl)
  apply (rule converse_rtranclp_into_rtranclp, rule many_to [where i = 0], rule pub_write, simp add: two_defs, rule refl)
  apply (rule converse_rtranclp_into_rtranclp, rule many_to [where i = 0], rule pub_ready, simp add: two_defs, rule refl)
  apply (rule converse_rtranclp_into_rtranclp, rule many_to [where i = 0], rule pub_advance, simp add: two_defs, rule refl)
  apply (rule rtranclp_refl_eq, auto simp: two_defs fun_eq_iff)
  done

lemma two_last: "many_step\<^sup>*\<^sup>* (two_state 0 1 STATE_READY STATE_READY 8 9 PubIdle PubIdle 1 [7, 8, 9] [7]) (two_state 0 0 STATE_READY STATE_EMPTY 8 9 PubIdle PubIdle 2 [7, 8, 9] [7, 9])"
  apply (rule converse_rtranclp_into_rtranclp, rule many_to [where i = 0], rule con_call, simp add: two_defs, rule refl)
  apply (rule converse_rtranclp_into_rtranclp, rule many_to [where i = 0], rule con_seen, simp add: two_defs, simp add: two_defs, rule refl)
  apply (rule converse_rtranclp_into_rtranclp, rule many_to [where i = 0], rule con_ready, simp add: two_defs, simp add: two_defs, rule refl)
  apply (rule converse_rtranclp_into_rtranclp, rule many_to [where i = 0], rule con_deliver, simp add: two_defs, rule refl)
  apply (rule converse_rtranclp_into_rtranclp, rule many_to [where i = 0], rule con_reading, simp add: two_defs, rule refl)
  apply (rule converse_rtranclp_into_rtranclp, rule many_to [where i = 0], rule con_advance, simp add: two_defs, rule refl)
  apply (rule converse_rtranclp_into_rtranclp, rule many_to [where i = 0], rule con_release, simp add: two_defs, rule refl)
  apply (rule rtranclp_refl_eq, auto simp: two_defs fun_eq_iff)
  done

text \<open>
  Two publishers on one channel: all three calls of \<open>publish\<close> return true, the second message is
  never delivered, and from then on nothing is: every \<open>publish\<close> is refused and every \<open>consume\<close> finds
  the ring empty.
\<close>

theorem two_publishers_stuck:
  "\<exists>s u :: nat shm_many. many_start s \<and> many_step\<^sup>*\<^sup>* s u \<and> hs_sent (hm_shared u) = [7, 8, 9] \<and>
     (\<forall>v. many_step\<^sup>*\<^sup>* u v \<longrightarrow> hs_got (hm_shared v) = [7, 9] \<and> hs_sent (hm_shared v) = [7, 8, 9])"
proof (intro exI conjI)
  let ?s = "two_state 0 0 STATE_EMPTY STATE_EMPTY 0 0 PubIdle PubIdle 0 [] []" and ?u = "two_state 0 0 STATE_READY STATE_EMPTY 8 9 PubIdle PubIdle 2 [7, 8, 9] [7, 9]"
  show "many_start ?s" by (simp add: many_start_def shm_start_def two_state_def)
  show "many_step\<^sup>*\<^sup>* ?s ?u"
    using two_first two_taken two_second two_third two_last by (meson rtranclp_trans)
  show "hs_sent (hm_shared ?u) = [7, 8, 9]" by (simp add: two_state_def)
  have "stuck ?u" by (simp add: stuck_def two_state_def)
  from stuck_forever [OF this]
  show "\<forall>v. many_step\<^sup>*\<^sup>* ?u v \<longrightarrow> hs_got (hm_shared v) = [7, 9] \<and> hs_sent (hm_shared v) = [7, 8, 9]"
    by (simp add: two_state_def)
qed

end
