(* ===== verification/ShmReuse.thy ===== *)
theory ShmReuse
  imports ShmLife
begin

text \<open>
  \<open>ShmChannel::create\<close> of \<open>src/shm_channel.cpp\<close> on a name that is in use. \<open>shm_open\<close> is called without
  \<open>O_EXCL\<close>, so the creation succeeds on the segment of the running channel and writes its control block
  anew, while the handles that exist stay attached to it.
\<close>

section \<open>The same configuration\<close>

text \<open>The messages in the ring after one publication by a handle into an empty one.\<close>

lemma published_first:
  assumes "shm_wf (c, cb)" "views cb = []" "1 < slots_n cb" "shm_fits (c, cb) data"
  shows "\<exists>c' cb'. channel_publish now data c cb = Inr (True, c', cb') \<and> sc_local_sequence c' = sc_local_sequence c + 1 \<and>
    map (mh_sequence \<circ> mv_header) (views cb') = [sc_local_sequence c + 1]"
proof -
  have room: "pending cb < slots_n cb - 1" using assms(2,3) length_views [of cb] by simp
  have "sc_local_sequence (fst (published now data (c, cb))) = sc_local_sequence c + 1"
    by (simp add: published_def Let_def)
  with publish_room [OF assms(1,4) room] views_published [OF assms(1,4) room] assms(2) show ?thesis
    by (intro exI [of _ "fst (published now data (c, cb))"] exI [of _ "snd (published now data (c, cb))"])
      (simp add: written_view_def)
qed

text \<open>
  Creating a channel that exists, with the same configuration, succeeds and silently discards every
  message that is pending. The old handle goes on working on the new ring, but with its own count: what it
  publishes next is number \<open>local_sequence_ + 1\<close>, what the new handle publishes is number 1.
\<close>

theorem recreate_discards:
  assumes "shm_wf (c0, cb0)" "channel_create os config cb0 old h = (Some c1, cb1, h1)" "sane_config config old"
    and "cc_payload_max config = cc_payload_max (sc_config c0)" "1 < unat (cc_buffer_size config)"
    and "length data \<le> unat (cc_payload_max config)"
  shows "shm_wf (c0, cb1) \<and> shm_wf (c1, cb1) \<and> shm_items (c0, cb1) = [] \<and> messages_sent c0 cb1 = 0 \<and>
    (\<exists>c cb. channel_publish now data c0 cb1 = Inr (True, c, cb) \<and>
      map (mh_sequence \<circ> mv_header) (views cb) = [sc_local_sequence c0 + 1]) \<and>
    (\<exists>c cb. channel_publish now data c1 cb1 = Inr (True, c, cb) \<and> map (mh_sequence \<circ> mv_header) (views cb) = [1])"
proof -
  have cb: "cb1 = fresh_control config old" by (rule create_memory [OF assms(2)])
  have c1: "sc_config c1 = config" "sc_local_sequence c1 = 0"
    using assms(2) by (auto simp: channel_create_def Let_def case_prod_beta split: if_splits)
  have wf1: "shm_wf (c1, cb1)" and empty: "views cb1 = []" using created_wf [OF assms(2,3)] by auto
  have wf0: "shm_wf (c0, cb1)"
    using assms(1,4) c1(1) by (intro shm_wf_handle [OF wf1]) (simp_all add: shm_wf_def)
  have n: "1 < slots_n cb1" using assms(5) by (simp add: cb fresh_control_def)
  have "shm_fits (c0, cb1) data" "shm_fits (c1, cb1) data" using assms(4,6) c1(1) by (simp_all add: shm_fits_def)
  with published_first [OF wf0 empty n, of data now] published_first [OF wf1 empty n, of data now] c1(2)
  have "\<exists>c cb. channel_publish now data c0 cb1 = Inr (True, c, cb) \<and>
      map (mh_sequence \<circ> mv_header) (views cb) = [sc_local_sequence c0 + 1]"
    "\<exists>c cb. channel_publish now data c1 cb1 = Inr (True, c, cb) \<and> map (mh_sequence \<circ> mv_header) (views cb) = [1]"
    by fastforce+
  with wf0 wf1 empty show ?thesis by (simp add: shm_items_def messages_sent_def) (simp add: cb fresh_control_def)
qed

lemma demo_one_recreated:
  "channel_create os_demo demo_config (snd demo_one) demo_old [] = (Some demo_channel, fresh_control demo_config demo_old,
     [Mmap 324 3, Ftruncate 3 324, ShmOpen ''/lwipc_cam'' True])"
  by (rule demo_created)

theorem recreate_discards_witness:
  "shm_items demo_one \<noteq> [] \<and> shm_items (fst demo_one, fresh_control demo_config demo_old) = []"
proof -
  have wf: "shm_wf (fst demo_one, snd demo_one)" "shm_items demo_one \<noteq> []"
    using demo_one_wf demo_one_pending length_views [of "snd demo_one"] by (auto simp: shm_items_def simp del: length_views)
  have "cc_payload_max demo_config = cc_payload_max (sc_config (fst demo_one))" "1 < unat (cc_buffer_size demo_config)"
    by (simp_all add: demo_one_def published_def Let_def demo_channel_def demo_config_def)
  from recreate_discards [OF wf(1) demo_one_recreated demo_sane this, of "[]"] wf(2) show ?thesis by simp
qed

section \<open>A smaller payload\<close>

text \<open>
  If the new configuration has smaller payloads, a handle that exists still compares with its own
  \<open>payload_max\<close>: it accepts a payload that does not fit the new slots, and the copy runs into the header
  of the next slot, or past the end of the segment.
\<close>

theorem recreate_overruns:
  assumes "channel_create os config cb0 old h = (Some c1, cb1, h1)" "slot_fits config" "1 < unat (cc_buffer_size config)"
    and "sc_attached c0" "unat (cc_payload_max config) < length data" "length data \<le> unat (cc_payload_max (sc_config c0))"
  shows "(\<exists>c cb. channel_publish now data c0 cb1 = Inr (True, c, cb)) \<and>
    unat (slot_offset cb1 1) < unat (slot_offset cb1 (cb_head cb1)) + unat sizeof_slot + length data"
proof -
  have cb: "cb1 = fresh_control config old" by (rule create_memory [OF assms(1)])
  have size: "cb_slot_size cb1 = channel_slot_size config" "cb_head cb1 = 0" by (simp_all add: cb fresh_control_def)
  have "unat (slot_offset cb1 1) = 144 + (56 + unat (cc_payload_max config))" "unat (slot_offset cb1 0) = 144"
    using slot_offset_value(1) [OF assms(2) size(1), of 1] slot_offset_value(1) [OF assms(2) size(1), of 0] assms(3)
    by simp_all
  then have overlap: "unat (slot_offset cb1 1) < unat (slot_offset cb1 (cb_head cb1)) + unat sizeof_slot + length data"
    using assms(5) by (simp add: size(2) sizeof_slot_def)
  have n: "cc_buffer_size config \<noteq> 0" "(1 :: size_t) mod cc_buffer_size config \<noteq> 0"
    using assms(3) by (auto simp: word_unat_eq_iff unat_mod_distrib)
  then have "\<exists>c cb. channel_publish now data c0 cb1 = Inr (True, c, cb)"
    using assms(3,4,6) by (auto simp: channel_publish_def cb fresh_control_def Let_def not_less)
  with overlap show ?thesis by blast
qed

text \<open>A channel with payloads of 4 bytes made anew with payloads of 1 byte, and an old handle that publishes 2.\<close>

definition small_config :: channel_config where
  "small_config = demo_config\<lparr>cc_payload_max := 1\<rparr>"

lemma small_created: "\<exists>c h1. channel_create os_demo small_config cb demo_old [] = (Some c, fresh_control small_config demo_old, h1)"
  by (simp add: channel_create_def sh_create_def sh_map_def sys_def os_demo_def small_config_def demo_config_def
      segment_none_def normalize_name_def channel_total_size_def channel_slot_size_def sizeof_control_def
      sizeof_slot_def Let_def)

theorem recreate_overruns_witness:
  "\<exists>c cb. channel_publish 9 [1, 2] demo_channel (fresh_control small_config demo_old) = Inr (True, c, cb)"
proof -
  obtain c h1 where made: "channel_create os_demo small_config (snd demo_one) demo_old [] = (Some c, fresh_control small_config demo_old, h1)"
    using small_created by blast
  have "slot_fits small_config" "1 < unat (cc_buffer_size small_config)" "sc_attached demo_channel"
    "unat (cc_payload_max small_config) < length [1, 2 :: byte]" "length [1, 2 :: byte] \<le> unat (cc_payload_max (sc_config demo_channel))"
    by (simp_all add: slot_fits_def small_config_def demo_config_def demo_channel_def)
  from recreate_overruns [OF made this] show ?thesis by blast
qed

end
