(* ===== verification/ShmWeak.thy ===== *)
theory ShmWeak
  imports ShmThreads Ordering
begin

text \<open>
  The publisher and the consumer of \<open>ShmThreads\<close> under the memory orders of \<open>src/shm_channel.cpp\<close>. Every
  load may find an old value, as far as the process does not know of a later one; the exchange of a
  slot's state that succeeds works on the latest value, one that fails is a load.
\<close>

section \<open>Steps\<close>

record shm_orders =
  xo_head_store :: memory_order
  xo_head_load :: memory_order
  xo_tail_store :: memory_order
  xo_tail_load :: memory_order
  xo_state_store :: memory_order
  xo_state_load :: memory_order

text \<open>The \<open>acq_rel\<close> of the exchange loads like \<open>xo_state_load\<close> and stores like \<open>xo_state_store\<close>.\<close>

definition shm_code_orders :: shm_orders where
  "shm_code_orders = \<lparr>xo_head_store = Release, xo_head_load = Acquire, xo_tail_store = Release, xo_tail_load = Acquire,
     xo_state_store = Release, xo_state_load = Acquire\<rparr>"

text \<open>
  A process counts its stores and its accesses to payloads; a message has its author (\<open>True\<close> for the
  publisher) and the number it has in this count, so that the accesses it hands on are those with smaller
  numbers. \<open>hw_pub_knows\<close> is the number of the last access of the consumer that the publisher knows of, and
  likewise \<open>hw_con_knows\<close>. \<open>hw_writes\<close> and \<open>hw_reads\<close> have the slot and the number of each access to a payload.
\<close>

type_synonym mark = "bool \<times> nat"

record 'd shm_weak =
  hw_sys :: "'d shm_sys"
  hw_heads :: "(nat, mark) messages"
  hw_tails :: "(nat, mark) messages"
  hw_states :: "nat \<Rightarrow> (u32, mark) messages"
  hw_pub_did :: nat
  hw_con_did :: nat
  hw_pub_knows :: nat
  hw_con_knows :: nat
  hw_writes :: "(nat \<times> nat) list"
  hw_reads :: "(nat \<times> nat) list"
  hw_raced :: bool

definition shm_weak_start :: "'d shm_weak \<Rightarrow> bool" where
  "shm_weak_start s \<longleftrightarrow> shm_start (hw_sys s) \<and> hw_heads s = [(0, (True, 0))] \<and> hw_tails s = [(0, (False, 0))] \<and>
     (\<forall>i. hw_states s i = [(STATE_EMPTY, (False, 0))]) \<and> hw_pub_did s = 0 \<and> hw_con_did s = 0 \<and>
     hw_pub_knows s = 0 \<and> hw_con_knows s = 0 \<and> hw_writes s = [] \<and> hw_reads s = [] \<and> \<not> hw_raced s"

text \<open>A process may read a message unless it knows a later one, one of its own or one that was handed to it.\<close>

definition known_to :: "bool \<Rightarrow> nat \<Rightarrow> mark \<Rightarrow> bool" where
  "known_to me knows m \<longleftrightarrow> fst m = me \<or> snd m \<le> knows"

definition readable :: "bool \<Rightarrow> nat \<Rightarrow> ('v, mark) messages \<Rightarrow> nat \<Rightarrow> bool" where
  "readable me knows l k \<longleftrightarrow> k < length l \<and> (\<forall>msg \<in> set (drop (Suc k) l). \<not> known_to me knows (snd msg))"

definition learn :: "memory_order \<Rightarrow> memory_order \<Rightarrow> bool \<Rightarrow> mark \<Rightarrow> nat \<Rightarrow> nat" where
  "learn st ld me m knows = (if synchronizes st ld \<and> fst m \<noteq> me then max knows (snd m) else knows)"

definition pub_learns :: "memory_order \<Rightarrow> memory_order \<Rightarrow> mark \<Rightarrow> 'd shm_weak \<Rightarrow> 'd shm_weak" where
  "pub_learns st ld m s = s\<lparr>hw_pub_knows := learn st ld True m (hw_pub_knows s)\<rparr>"

definition con_learns :: "memory_order \<Rightarrow> memory_order \<Rightarrow> mark \<Rightarrow> 'd shm_weak \<Rightarrow> 'd shm_weak" where
  "con_learns st ld m s = s\<lparr>hw_con_knows := learn st ld False m (hw_con_knows s)\<rparr>"

text \<open>What each process does that counts.\<close>

definition pub_did :: "'d shm_weak \<Rightarrow> 'd shm_weak" where
  "pub_did s = s\<lparr>hw_pub_did := hw_pub_did s + 1\<rparr>"

definition con_did :: "'d shm_weak \<Rightarrow> 'd shm_weak" where
  "con_did s = s\<lparr>hw_con_did := hw_con_did s + 1\<rparr>"

definition pub_state_msg :: "nat \<Rightarrow> u32 \<Rightarrow> 'd shm_weak \<Rightarrow> 'd shm_weak" where
  "pub_state_msg i v s = (pub_did s)\<lparr>hw_states := (hw_states s)(i := hw_states s i @ [(v, (True, hw_pub_did s + 1))])\<rparr>"

definition con_state_msg :: "nat \<Rightarrow> u32 \<Rightarrow> 'd shm_weak \<Rightarrow> 'd shm_weak" where
  "con_state_msg i v s = (con_did s)\<lparr>hw_states := (hw_states s)(i := hw_states s i @ [(v, (False, hw_con_did s + 1))])\<rparr>"

abbreviation on_sys :: "('d shm_sys \<Rightarrow> 'd shm_sys) \<Rightarrow> 'd shm_weak \<Rightarrow> 'd shm_weak" where
  "on_sys f s \<equiv> s\<lparr>hw_sys := f (hw_sys s)\<rparr>"

abbreviation hw_pub :: "'d shm_weak \<Rightarrow> 'd publishing" where "hw_pub s \<equiv> hs_pub (hw_sys s)"
abbreviation hw_con :: "'d shm_weak \<Rightarrow> consuming" where "hw_con s \<equiv> hs_con (hw_sys s)"
abbreviation hw_n :: "'d shm_weak \<Rightarrow> nat" where "hw_n s \<equiv> hs_n (hw_sys s)"

inductive shm_weak_step :: "shm_orders \<Rightarrow> 'd shm_weak \<Rightarrow> 'd shm_weak \<Rightarrow> bool" for ord where
  hwp_call: "hw_pub s = PubIdle \<Longrightarrow> shm_weak_step ord s (on_sys (\<lambda>y. y\<lparr>hs_pub := PubLoaded d (hs_head y)\<rparr>) s)"
| hwp_full: "hw_pub s = PubLoaded d h \<Longrightarrow> readable True (hw_pub_knows s) (hw_tails s) k \<Longrightarrow> hw_tails s ! k = (t, m) \<Longrightarrow>
     (h + 1) mod hw_n s = t \<Longrightarrow>
     shm_weak_step ord s (on_sys (\<lambda>y. y\<lparr>hs_pub := PubIdle\<rparr>) (pub_learns (xo_tail_store ord) (xo_tail_load ord) m s))"
| hwp_room: "hw_pub s = PubLoaded d h \<Longrightarrow> readable True (hw_pub_knows s) (hw_tails s) k \<Longrightarrow> hw_tails s ! k = (t, m) \<Longrightarrow>
     (h + 1) mod hw_n s \<noteq> t \<Longrightarrow>
     shm_weak_step ord s (on_sys (\<lambda>y. y\<lparr>hs_pub := PubChecked d h\<rparr>) (pub_learns (xo_tail_store ord) (xo_tail_load ord) m s))"
| hwp_own: "hw_pub s = PubChecked d h \<Longrightarrow> last (hw_states s h) = (STATE_EMPTY, m) \<Longrightarrow>
     shm_weak_step ord s (on_sys (\<lambda>y. y\<lparr>hs_pub := PubOwns d h, hs_state := (hs_state y)(h := STATE_WRITING)\<rparr>)
       (pub_state_msg h STATE_WRITING (pub_learns (xo_state_store ord) (xo_state_load ord) m s)))"
| hwp_refused: "hw_pub s = PubChecked d h \<Longrightarrow> readable True (hw_pub_knows s) (hw_states s h) k \<Longrightarrow>
     hw_states s h ! k = (v, m) \<Longrightarrow> v \<noteq> STATE_EMPTY \<Longrightarrow>
     shm_weak_step ord s (on_sys (\<lambda>y. y\<lparr>hs_pub := PubIdle, hs_refused := hs_refused y + 1\<rparr>)
       (pub_learns (xo_state_store ord) (xo_state_load ord) m s))"
| hwp_write: "hw_pub s = PubOwns d h \<Longrightarrow>
     shm_weak_step ord s (on_sys (\<lambda>y. y\<lparr>hs_pub := PubWritten d h, hs_data := (hs_data y)(h := d)\<rparr>)
       ((pub_did s)\<lparr>hw_writes := hw_writes s @ [(h, hw_pub_did s + 1)],
          hw_raced := (hw_raced s \<or> (\<exists>a. (h, a) \<in> set (hw_reads s) \<and> hw_pub_knows s < a))\<rparr>))"
| hwp_ready: "hw_pub s = PubWritten d h \<Longrightarrow>
     shm_weak_step ord s (on_sys (\<lambda>y. y\<lparr>hs_pub := PubReady d h, hs_state := (hs_state y)(h := STATE_READY)\<rparr>)
       (pub_state_msg h STATE_READY s))"
| hwp_advance: "hw_pub s = PubReady d h \<Longrightarrow>
     shm_weak_step ord s (on_sys (\<lambda>y. y\<lparr>hs_pub := PubIdle, hs_head := (h + 1) mod hs_n y, hs_sent := hs_sent y @ [d]\<rparr>)
       ((pub_did s)\<lparr>hw_heads := hw_heads s @ [((h + 1) mod hw_n s, (True, hw_pub_did s + 1))]\<rparr>))"
| hwc_call: "hw_con s = ConIdle \<Longrightarrow> shm_weak_step ord s (on_sys (\<lambda>y. y\<lparr>hs_con := ConLoaded (hs_tail y)\<rparr>) s)"
| hwc_empty: "hw_con s = ConLoaded t \<Longrightarrow> readable False (hw_con_knows s) (hw_heads s) k \<Longrightarrow> hw_heads s ! k = (h, m) \<Longrightarrow>
     t = h \<Longrightarrow>
     shm_weak_step ord s (on_sys (\<lambda>y. y\<lparr>hs_con := ConIdle\<rparr>) (con_learns (xo_head_store ord) (xo_head_load ord) m s))"
| hwc_seen: "hw_con s = ConLoaded t \<Longrightarrow> readable False (hw_con_knows s) (hw_heads s) k \<Longrightarrow> hw_heads s ! k = (h, m) \<Longrightarrow>
     t \<noteq> h \<Longrightarrow>
     shm_weak_step ord s (on_sys (\<lambda>y. y\<lparr>hs_con := ConSeen t\<rparr>) (con_learns (xo_head_store ord) (xo_head_load ord) m s))"
| hwc_not_ready: "hw_con s = ConSeen t \<Longrightarrow> readable False (hw_con_knows s) (hw_states s t) k \<Longrightarrow>
     hw_states s t ! k = (v, m) \<Longrightarrow> v \<noteq> STATE_READY \<Longrightarrow>
     shm_weak_step ord s (on_sys (\<lambda>y. y\<lparr>hs_con := ConIdle\<rparr>) (con_learns (xo_state_store ord) (xo_state_load ord) m s))"
| hwc_ready: "hw_con s = ConSeen t \<Longrightarrow> readable False (hw_con_knows s) (hw_states s t) k \<Longrightarrow>
     hw_states s t ! k = (STATE_READY, m) \<Longrightarrow>
     shm_weak_step ord s (on_sys (\<lambda>y. y\<lparr>hs_con := ConReady t\<rparr>) (con_learns (xo_state_store ord) (xo_state_load ord) m s))"
| hwc_deliver: "hw_con s = ConReady t \<Longrightarrow>
     shm_weak_step ord s (on_sys (\<lambda>y. y\<lparr>hs_con := ConDelivered t, hs_got := hs_got y @ [hs_data y t]\<rparr>)
       ((con_did s)\<lparr>hw_reads := hw_reads s @ [(t, hw_con_did s + 1)],
          hw_raced := (hw_raced s \<or> (\<exists>a. (t, a) \<in> set (hw_writes s) \<and> hw_con_knows s < a))\<rparr>))"
| hwc_reading: "hw_con s = ConDelivered t \<Longrightarrow>
     shm_weak_step ord s (on_sys (\<lambda>y. y\<lparr>hs_con := ConReading t, hs_state := (hs_state y)(t := STATE_READING)\<rparr>)
       (con_state_msg t STATE_READING s))"
| hwc_advance: "hw_con s = ConReading t \<Longrightarrow>
     shm_weak_step ord s (on_sys (\<lambda>y. y\<lparr>hs_con := ConAdvanced t, hs_tail := (t + 1) mod hs_n y, hs_taken := hs_taken y + 1\<rparr>)
       ((con_did s)\<lparr>hw_tails := hw_tails s @ [((t + 1) mod hw_n s, (False, hw_con_did s + 1))]\<rparr>))"
| hwc_release: "hw_con s = ConAdvanced t \<Longrightarrow>
     shm_weak_step ord s (on_sys (\<lambda>y. y\<lparr>hs_con := ConIdle, hs_state := (hs_state y)(t := STATE_EMPTY)\<rparr>)
       (con_state_msg t STATE_EMPTY s))"

section \<open>Invariant\<close>

text \<open>The messages of the two indices, and how far each process is within the position it works on.\<close>

definition head_msgs :: "nat \<Rightarrow> nat \<Rightarrow> (nat, mark) messages" where
  "head_msgs n m = map (\<lambda>k. (k mod n, (True, 4 * k))) [0..<Suc m]"

definition tail_msgs :: "nat \<Rightarrow> nat \<Rightarrow> (nat, mark) messages" where
  "tail_msgs n m = map (\<lambda>k. (k mod n, (False, 4 * k - 1))) [0..<Suc m]"

fun pub_phase :: "'d publishing \<Rightarrow> nat" where
  "pub_phase (PubOwns d h) = 1"
| "pub_phase (PubWritten d h) = 2"
| "pub_phase (PubReady d h) = 3"
| "pub_phase _ = 0"

fun con_phase :: "consuming \<Rightarrow> nat" where
  "con_phase (ConDelivered t) = 1"
| "con_phase (ConReading t) = 2"
| "con_phase _ = 0"

fun pub_past :: "'d publishing \<Rightarrow> bool" where
  "pub_past PubIdle = False"
| "pub_past (PubLoaded d h) = False"
| "pub_past _ = True"

fun con_past :: "consuming \<Rightarrow> bool" where
  "con_past ConIdle = False"
| "con_past (ConLoaded t) = False"
| "con_past (ConAdvanced t) = False"
| "con_past _ = True"

abbreviation hw_sent :: "'d shm_weak \<Rightarrow> nat" where "hw_sent s \<equiv> length (hs_sent (hw_sys s))"
abbreviation hw_taken :: "'d shm_weak \<Rightarrow> nat" where "hw_taken s \<equiv> hs_taken (hw_sys s)"
abbreviation hw_last :: "'d shm_weak \<Rightarrow> nat \<Rightarrow> mark" where "hw_last s i \<equiv> snd (last (hw_states s i))"

definition hw_logs :: "'d shm_weak \<Rightarrow> bool" where
  "hw_logs s \<longleftrightarrow> hw_heads s = head_msgs (hw_n s) (hw_sent s) \<and> hw_tails s = tail_msgs (hw_n s) (hw_taken s) \<and>
     hw_pub_did s = 4 * hw_sent s + pub_phase (hw_pub s) \<and>
     hw_con_did s + (if is_advanced (hw_con s) then 1 else 0) = 4 * hw_taken s + con_phase (hw_con s)"

text \<open>The latest message of a slot is known to the process that looks at it next.\<close>

definition hw_slots :: "'d shm_weak \<Rightarrow> bool" where
  "hw_slots s \<longleftrightarrow> (\<forall>i. hw_states s i \<noteq> [] \<and> fst (last (hw_states s i)) = hs_state (hw_sys s) i \<and>
       snd (hw_last s i) \<le> (if fst (hw_last s i) then hw_pub_did s else hw_con_did s)) \<and>
     (\<forall>p. hw_taken s \<le> p \<and> p < hw_sent s \<longrightarrow> known_to False (4 * p + 3) (hw_last s (p mod hw_n s))) \<and>
     (\<forall>p. hw_sent s \<le> p \<and> p < hw_taken s + hw_n s \<longrightarrow> known_to True (4 * (p + 1 - hw_n s)) (hw_last s (p mod hw_n s)))"

definition hw_views :: "'d shm_weak \<Rightarrow> bool" where
  "hw_views s \<longleftrightarrow> 4 * (hw_sent s + 1 + (if pub_past (hw_pub s) then 1 else 0)) \<le> hw_pub_knows s + 1 + 4 * hw_n s \<and>
     4 * (hw_taken s + (if con_past (hw_con s) then 1 else 0)) \<le> hw_con_knows s"

definition hw_accesses :: "'d shm_weak \<Rightarrow> bool" where
  "hw_accesses s \<longleftrightarrow> \<not> hw_raced s \<and>
     (\<forall>(i, a) \<in> set (hw_writes s). \<exists>q. i = q mod hw_n s \<and> a = 4 * q + 2 \<and> 4 * q + 2 \<le> hw_pub_did s) \<and>
     (\<forall>(i, a) \<in> set (hw_reads s). \<exists>q. i = q mod hw_n s \<and> a = 4 * q + 1 \<and> 4 * q + 1 \<le> hw_con_did s)"

definition hw_inv :: "'d shm_weak \<Rightarrow> bool" where
  "hw_inv s \<longleftrightarrow> shm_inv (hw_sys s) \<and> hw_logs s \<and> hw_slots s \<and> hw_views s \<and> hw_accesses s"

text \<open>What the proofs need of the orders: those of the two indices.\<close>

definition indices_ordered :: "shm_orders \<Rightarrow> bool" where
  "indices_ordered ord \<longleftrightarrow> synchronizes (xo_head_store ord) (xo_head_load ord) \<and> synchronizes (xo_tail_store ord) (xo_tail_load ord)"

lemma head_msgs_nth: "k \<le> m \<Longrightarrow> head_msgs n m ! k = (k mod n, (True, 4 * k))"
  by (simp add: head_msgs_def nth_append del: upt_Suc)

lemma tail_msgs_nth: "k \<le> m \<Longrightarrow> tail_msgs n m ! k = (k mod n, (False, 4 * k - 1))"
  by (simp add: tail_msgs_def nth_append del: upt_Suc)

lemma length_msgs [simp]: "length (head_msgs n m) = Suc m" "length (tail_msgs n m) = Suc m"
  by (simp_all add: head_msgs_def tail_msgs_def)

lemma learn_mono: "knows \<le> learn st ld me m knows"
  by (simp add: learn_def)

lemmas hw_simps = pub_learns_def con_learns_def pub_did_def con_did_def pub_state_msg_def con_state_msg_def

lemma hw_invD:
  assumes "hw_inv s"
  shows "shm_inv (hw_sys s)" "hw_logs s" "hw_slots s" "hw_views s" "hw_accesses s"
  using assms by (simp_all add: hw_inv_def)

lemma readable_nth:
  "readable me knows l k \<longleftrightarrow> k < length l \<and> (\<forall>j. k < j \<and> j < length l \<longrightarrow> \<not> known_to me knows (snd (l ! j)))"
proof -
  have later: "set (drop (Suc k) l) = {l ! j |j. k < j \<and> j < length l}"
  proof (intro set_eqI iffI)
    fix x assume "x \<in> set (drop (Suc k) l)"
    then obtain i where "i < length l - Suc k" "x = l ! (Suc k + i)" by (auto simp: in_set_conv_nth)
    then have "k < Suc k + i" "Suc k + i < length l" by simp_all
    with \<open>x = l ! (Suc k + i)\<close> show "x \<in> {l ! j |j. k < j \<and> j < length l}" by blast
  next
    fix x assume "x \<in> {l ! j |j. k < j \<and> j < length l}"
    then obtain j where j: "k < j" "j < length l" "x = l ! j" by blast
    then have "drop (Suc k) l ! (j - Suc k) = x" by simp
    moreover have "j - Suc k < length (drop (Suc k) l)" using j by simp
    ultimately show "x \<in> set (drop (Suc k) l)" unfolding in_set_conv_nth by blast
  qed
  show ?thesis unfolding readable_def later by (intro conj_cong refl) blast
qed

text \<open>How old the message of an index can be that a process still reads.\<close>

lemma tail_read:
  assumes inv: "hw_inv s" and k: "readable True (hw_pub_knows s) (hw_tails s) k"
  shows "k \<le> hw_taken s" "hw_sent s < k + hw_n s" "hw_tails s ! k = (k mod hw_n s, (False, 4 * k - 1))"
proof -
  note D = shm_invD [OF hw_invD(1) [OF inv]]
  have logs: "hw_tails s = tail_msgs (hw_n s) (hw_taken s)" using hw_invD(2) [OF inv] by (simp add: hw_logs_def)
  show le: "k \<le> hw_taken s" using k logs by (simp add: readable_nth)
  then show "hw_tails s ! k = (k mod hw_n s, (False, 4 * k - 1))" by (simp add: logs tail_msgs_nth)
  show "hw_sent s < k + hw_n s"
  proof (rule ccontr)
    assume old: "\<not> ?thesis"
    then have "Suc k \<le> hw_taken s" using D(5) by linarith
    then have "\<not> known_to True (hw_pub_knows s) (snd (hw_tails s ! Suc k))" using k logs by (auto simp: readable_nth)
    then have "hw_pub_knows s < 4 * Suc k - 1"
      using \<open>Suc k \<le> hw_taken s\<close> by (simp add: logs tail_msgs_nth known_to_def)
    moreover have "4 * (hw_sent s + 1) \<le> hw_pub_knows s + 1 + 4 * hw_n s"
      using hw_invD(4) [OF inv] by (simp add: hw_views_def split: if_splits)
    ultimately show False using old by arith
  qed
qed

lemma head_read:
  assumes inv: "hw_inv s" and k: "readable False (hw_con_knows s) (hw_heads s) k"
  shows "k \<le> hw_sent s" "hw_taken s \<le> k" "hw_heads s ! k = (k mod hw_n s, (True, 4 * k))"
proof -
  note D = shm_invD [OF hw_invD(1) [OF inv]]
  have logs: "hw_heads s = head_msgs (hw_n s) (hw_sent s)" using hw_invD(2) [OF inv] by (simp add: hw_logs_def)
  show le: "k \<le> hw_sent s" using k logs by (simp add: readable_nth)
  then show "hw_heads s ! k = (k mod hw_n s, (True, 4 * k))" by (simp add: logs head_msgs_nth)
  show "hw_taken s \<le> k"
  proof (rule ccontr)
    assume old: "\<not> ?thesis"
    then have "Suc k \<le> hw_sent s" using D(4) by linarith
    then have "\<not> known_to False (hw_con_knows s) (snd (hw_heads s ! Suc k))" using k logs by (auto simp: readable_nth)
    then have "hw_con_knows s < 4 * Suc k"
      using \<open>Suc k \<le> hw_sent s\<close> by (simp add: logs head_msgs_nth known_to_def)
    moreover have "4 * hw_taken s \<le> hw_con_knows s"
      using hw_invD(4) [OF inv] by (simp add: hw_views_def split: if_splits)
    ultimately show False using old by arith
  qed
qed

text \<open>The state of its slot that a process reads is the latest one.\<close>

lemma readable_last:
  assumes "readable me knows l k" "l \<noteq> []" "known_to me knows (snd (last l))"
  shows "l ! k = last l"
proof -
  have "k = length l - 1"
    using assms by (metis Suc_pred' last_conv_nth length_greater_0_conv less_antisym readable_nth lessI)
  with assms(2) show ?thesis by (simp add: last_conv_nth)
qed

lemma pub_reads_latest:
  assumes inv: "hw_inv s" and pc: "hw_pub s = PubChecked d h" and k: "readable True (hw_pub_knows s) (hw_states s h) k"
  shows "hw_states s h ! k = last (hw_states s h)"
proof (rule readable_last [OF k])
  note D = shm_invD [OF hw_invD(1) [OF inv]]
  have h: "h = hw_sent s mod hw_n s" using D(2,8) pc by simp
  have slots: "hw_slots s" by (rule hw_invD(3) [OF inv])
  then show "hw_states s h \<noteq> []" by (simp add: hw_slots_def)
  have "known_to True (4 * (hw_sent s + 1 - hw_n s)) (hw_last s h)"
    using slots D(5) unfolding hw_slots_def h by blast
  moreover have "4 * (hw_sent s + 2) \<le> hw_pub_knows s + 1 + 4 * hw_n s"
    using hw_invD(4) [OF inv] pc by (simp add: hw_views_def)
  then have "4 * (hw_sent s + 1 - hw_n s) \<le> hw_pub_knows s" by arith
  ultimately show "known_to True (hw_pub_knows s) (hw_last s h)" by (auto simp: known_to_def)
qed

lemma con_reads_latest:
  assumes inv: "hw_inv s" and pc: "hw_con s = ConSeen t" and k: "readable False (hw_con_knows s) (hw_states s t) k"
  shows "hw_states s t ! k = last (hw_states s t)"
proof (rule readable_last [OF k])
  note D = shm_invD [OF hw_invD(1) [OF inv]]
  have t: "t = hw_taken s mod hw_n s" "hw_taken s < hw_sent s" using D(3,9) pc by simp_all
  have slots: "hw_slots s" by (rule hw_invD(3) [OF inv])
  then show "hw_states s t \<noteq> []" by (simp add: hw_slots_def)
  have "known_to False (4 * hw_taken s + 3) (hw_last s t)" using slots t unfolding hw_slots_def by blast
  moreover have "4 * hw_taken s + 3 \<le> hw_con_knows s" using hw_invD(4) [OF inv] pc by (simp add: hw_views_def)
  ultimately show "known_to False (hw_con_knows s) (hw_last s t)" by (auto simp: known_to_def)
qed

lemma hw_pub_slot:
  assumes "hw_inv s" "pub_past (hw_pub s)"
  shows "\<exists>d. hw_pub s = PubChecked d (hw_sent s mod hw_n s) \<or> hw_pub s = PubOwns d (hw_sent s mod hw_n s) \<or>
     hw_pub s = PubWritten d (hw_sent s mod hw_n s) \<or> hw_pub s = PubReady d (hw_sent s mod hw_n s)"
  using shm_invD(2,8) [OF hw_invD(1) [OF assms(1)]] assms(2) by (cases "hw_pub s") auto

section \<open>Preservation\<close>

lemma hw_step_logs:
  assumes step: "shm_weak_step ord s t" and inv: "hw_inv s"
  shows "hw_logs t"
proof -
  note D = shm_invD [OF hw_invD(1) [OF inv]]
  have logs: "hw_logs s" by (rule hw_invD(2) [OF inv])
  from step show ?thesis
  proof cases
    case (hwp_advance d h)
    with D(2,8) have "h = hw_sent s mod hw_n s" by simp
    with hwp_advance logs show ?thesis
      by (simp add: hw_logs_def hw_simps head_msgs_def mod_simps)
  next
    case (hwc_advance h)
    with D(3,9) have "h = hw_taken s mod hw_n s" by simp
    with hwc_advance logs show ?thesis
      by (simp add: hw_logs_def hw_simps tail_msgs_def mod_simps)
  qed (use logs in \<open>simp_all add: hw_logs_def hw_simps\<close>)
qed

lemma hw_room:
  assumes inv: "hw_inv s" and pc: "hw_pub s = PubLoaded d h"
    and k: "readable True (hw_pub_knows s) (hw_tails s) k" "hw_tails s ! k = (t, m)" and ne: "(h + 1) mod hw_n s \<noteq> t"
  shows "hw_sent s + 1 < k + hw_n s" "m = (False, 4 * k - 1)" "h = hs_head (hw_sys s)"
proof -
  note D = shm_invD [OF hw_invD(1) [OF inv]] and tail = tail_read [OF inv k(1)]
  show m: "m = (False, 4 * k - 1)" using tail(3) k(2) by simp
  show h: "h = hs_head (hw_sys s)" using D(8) pc by simp
  have "(hw_sent s + 1) mod hw_n s \<noteq> k mod hw_n s" using ne tail(3) k(2) h D(2) by (simp add: mod_simps)
  then have "hw_sent s + 1 \<noteq> k + hw_n s" by auto
  with tail(2) show "hw_sent s + 1 < k + hw_n s" by simp
qed

lemma hw_seen:
  assumes inv: "hw_inv s" and pc: "hw_con s = ConLoaded t"
    and k: "readable False (hw_con_knows s) (hw_heads s) k" "hw_heads s ! k = (h, m)" and ne: "t \<noteq> h"
  shows "hw_taken s < k" "k \<le> hw_sent s" "m = (True, 4 * k)" "t = hs_tail (hw_sys s)"
proof -
  note D = shm_invD [OF hw_invD(1) [OF inv]] and head = head_read [OF inv k(1)]
  show "m = (True, 4 * k)" using head(3) k(2) by simp
  show t: "t = hs_tail (hw_sys s)" using D(9) pc by simp
  then have "k \<noteq> hw_taken s" using ne head(3) k(2) D(3) by auto
  with head(2) show "hw_taken s < k" by simp
  show "k \<le> hw_sent s" by (rule head(1))
qed

lemma hw_step_views:
  assumes ord: "indices_ordered ord" and step: "shm_weak_step ord s t" and inv: "hw_inv s"
  shows "hw_views t"
proof -
  have views: "hw_views s" by (rule hw_invD(4) [OF inv])
  from step show ?thesis
  proof cases
    case (hwp_full d h k rd m)
    with views learn_mono [of "hw_pub_knows s" "xo_tail_store ord" "xo_tail_load ord" True m] show ?thesis
      by (simp add: hw_views_def hw_simps)
  next
    case (hwp_room d h k rd m)
    have "learn (xo_tail_store ord) (xo_tail_load ord) True m (hw_pub_knows s) = max (hw_pub_knows s) (4 * k - 1)"
      using ord hw_room(2) [OF inv hwp_room(2-5)] by (simp add: learn_def indices_ordered_def)
    with views hwp_room hw_room(1) [OF inv hwp_room(2-5)] show ?thesis
      by (simp add: hw_views_def hw_simps)
  next
    case (hwp_own d h m)
    with views learn_mono [of "hw_pub_knows s" "xo_state_store ord" "xo_state_load ord" True m] show ?thesis
      by (simp add: hw_views_def hw_simps)
  next
    case (hwp_refused d h k v m)
    with views learn_mono [of "hw_pub_knows s" "xo_state_store ord" "xo_state_load ord" True m] show ?thesis
      by (simp add: hw_views_def hw_simps)
  next
    case (hwc_empty rd k h m)
    with views learn_mono [of "hw_con_knows s" "xo_head_store ord" "xo_head_load ord" False m] show ?thesis
      by (simp add: hw_views_def hw_simps)
  next
    case (hwc_seen rd k h m)
    have "learn (xo_head_store ord) (xo_head_load ord) False m (hw_con_knows s) = max (hw_con_knows s) (4 * k)"
      using ord hw_seen(3) [OF inv hwc_seen(2-5)] by (simp add: learn_def indices_ordered_def)
    with views hwc_seen hw_seen(1) [OF inv hwc_seen(2-5)] show ?thesis
      by (simp add: hw_views_def hw_simps)
  next
    case (hwc_not_ready rd k v m)
    with views learn_mono [of "hw_con_knows s" "xo_state_store ord" "xo_state_load ord" False m] show ?thesis
      by (simp add: hw_views_def hw_simps)
  next
    case (hwc_ready rd k m)
    with views learn_mono [of "hw_con_knows s" "xo_state_store ord" "xo_state_load ord" False m] show ?thesis
      by (simp add: hw_views_def hw_simps)
  qed (use views in \<open>simp_all add: hw_views_def hw_simps\<close>)
qed

lemma hw_step_sys:
  assumes step: "shm_weak_step ord s t" and inv: "hw_inv s"
  shows "shm_inv (hw_sys t)"
proof -
  note D = shm_invD [OF hw_invD(1) [OF inv]] and sys = hw_invD(1) [OF inv]
  have latest: "fst (last (hw_states s i)) = hs_state (hw_sys s) i" for i
    using hw_invD(3) [OF inv] by (simp add: hw_slots_def)
  from step show ?thesis
  proof cases
    case (hwp_full d h k rd m)
    with sys show ?thesis by (auto simp: hw_simps intro: shm_pub_move)
  next
    case (hwp_room d h k rd m)
    note r = hw_room [OF inv hwp_room(2-5)] and k = tail_read(1) [OF inv hwp_room(3)]
    have "shm_inv ((hw_sys s)\<lparr>hs_pub := PubChecked d h\<rparr>)"
      by (rule shm_pub_move [OF sys]) (use r k hwp_room(2) in auto)
    with hwp_room show ?thesis by (simp add: hw_simps)
  next
    case (hwp_own d h m)
    with latest [of h] have "shm_step (hw_sys s) ((hw_sys s)\<lparr>hs_pub := PubOwns d h, hs_state := (hs_state (hw_sys s))(h := STATE_WRITING)\<rparr>)"
      by (intro shm_step.intros) simp_all
    from shm_step_inv [OF this sys] hwp_own show ?thesis by (simp add: hw_simps)
  next
    case (hwp_refused d h k v m)
    then have "fst (last (hw_states s h)) \<noteq> STATE_EMPTY" using pub_reads_latest [OF inv hwp_refused(2,3)] by (metis fst_conv)
    with latest [of h] shm_not_refused [OF sys hwp_refused(2)] show ?thesis by simp
  next
    case (hwc_empty rd k h m)
    with sys show ?thesis by (auto simp: hw_simps intro: shm_con_move)
  next
    case (hwc_seen rd k h m)
    note r = hw_seen [OF inv hwc_seen(2-5)]
    have "shm_inv ((hw_sys s)\<lparr>hs_con := ConSeen rd\<rparr>)"
      by (rule shm_con_move [OF sys]) (use r hwc_seen(2) in auto)
    with hwc_seen show ?thesis by (simp add: hw_simps)
  next
    case (hwc_not_ready rd k v m)
    with sys show ?thesis by (auto simp: hw_simps intro: shm_con_move)
  next
    case (hwc_ready rd k m)
    have "shm_inv ((hw_sys s)\<lparr>hs_con := ConReady rd\<rparr>)"
      by (rule shm_con_move [OF sys]) (use D(9) hwc_ready(2) in auto)
    with hwc_ready show ?thesis by (simp add: hw_simps)
  next
    case (hwp_call d)
    from shm_step_inv [OF pub_call sys] hwp_call show ?thesis by simp
  next
    case (hwp_write d h)
    from shm_step_inv [OF pub_write sys] hwp_write show ?thesis by (simp add: hw_simps)
  next
    case (hwp_ready d h)
    from shm_step_inv [OF pub_ready sys] hwp_ready show ?thesis by (simp add: hw_simps)
  next
    case (hwp_advance d h)
    from shm_step_inv [OF pub_advance sys] hwp_advance show ?thesis by (simp add: hw_simps)
  next
    case hwc_call
    from shm_step_inv [OF con_call sys] hwc_call show ?thesis by simp
  next
    case (hwc_deliver rd)
    from shm_step_inv [OF con_deliver sys] hwc_deliver show ?thesis by (simp add: hw_simps)
  next
    case (hwc_reading rd)
    from shm_step_inv [OF con_reading sys] hwc_reading show ?thesis by (simp add: hw_simps)
  next
    case (hwc_advance rd)
    from shm_step_inv [OF con_advance sys] hwc_advance show ?thesis by (simp add: hw_simps)
  next
    case (hwc_release rd)
    from shm_step_inv [OF con_release sys] hwc_release show ?thesis by (simp add: hw_simps)
  qed
qed

lemma hw_slotsI:
  assumes "\<And>i. hw_states s i \<noteq> []" "\<And>i. fst (last (hw_states s i)) = hs_state (hw_sys s) i"
    and "\<And>i. snd (hw_last s i) \<le> (if fst (hw_last s i) then hw_pub_did s else hw_con_did s)"
    and "\<And>p. hw_taken s \<le> p \<Longrightarrow> p < hw_sent s \<Longrightarrow> known_to False (4 * p + 3) (hw_last s (p mod hw_n s))"
    and "\<And>p. hw_sent s \<le> p \<Longrightarrow> p < hw_taken s + hw_n s \<Longrightarrow> known_to True (4 * (p + 1 - hw_n s)) (hw_last s (p mod hw_n s))"
  shows "hw_slots s"
  using assms unfolding hw_slots_def by blast

lemma hw_slotsD:
  assumes "hw_slots s"
  shows "hw_states s i \<noteq> []" "fst (last (hw_states s i)) = hs_state (hw_sys s) i"
    and "snd (hw_last s i) \<le> (if fst (hw_last s i) then hw_pub_did s else hw_con_did s)"
    and "hw_taken s \<le> p \<Longrightarrow> p < hw_sent s \<Longrightarrow> known_to False (4 * p + 3) (hw_last s (p mod hw_n s))"
    and "hw_sent s \<le> p \<Longrightarrow> p < hw_taken s + hw_n s \<Longrightarrow> known_to True (4 * (p + 1 - hw_n s)) (hw_last s (p mod hw_n s))"
  using assms unfolding hw_slots_def by blast+

text \<open>A step that leaves the states and the counts of messages alone.\<close>

lemma hw_slots_cong:
  assumes "hw_slots s" "hw_states t = hw_states s" "hs_state (hw_sys t) = hs_state (hw_sys s)" "hw_sent t = hw_sent s"
    "hw_taken t = hw_taken s" "hw_n t = hw_n s" "hw_pub_did s \<le> hw_pub_did t" "hw_con_did s \<le> hw_con_did t"
  shows "hw_slots t"
proof (rule hw_slotsI)
  show "snd (hw_last t i) \<le> (if fst (hw_last t i) then hw_pub_did t else hw_con_did t)" for i
    using hw_slotsD(3) [OF assms(1), of i] assms(2,7,8) by (auto split: if_splits)
qed (use hw_slotsD [OF assms(1)] assms(2-6) in auto)

text \<open>A store to the state of the slot of position \<open>p\<close>, by the process whose turn it is.\<close>

lemma hw_slots_store:
  assumes inv: "hw_inv s" and p: "hw_taken s \<le> p" "p < hw_taken s + hw_n s"
    and t: "hw_states t = (hw_states s)(p mod hw_n s := hw_states s (p mod hw_n s) @ [(v, m)])"
    and sys: "hs_state (hw_sys t) = (hs_state (hw_sys s))(p mod hw_n s := v)" "hw_sent t = hw_sent s"
      "hw_taken t = hw_taken s" "hw_n t = hw_n s"
    and did: "hw_pub_did s \<le> hw_pub_did t" "hw_con_did s \<le> hw_con_did t" "snd m \<le> (if fst m then hw_pub_did t else hw_con_did t)"
    and m: "p < hw_sent s \<Longrightarrow> \<not> fst m" "hw_sent s \<le> p \<Longrightarrow> fst m \<or> snd m \<le> 4 * (p + 1 - hw_n s)"
  shows "hw_slots t"
proof (rule hw_slotsI)
  note S = hw_slotsD [OF hw_invD(3) [OF inv]] and D = shm_invD [OF hw_invD(1) [OF inv]]
  have here: "q mod hw_n s = p mod hw_n s \<longleftrightarrow> q = p" if "hw_taken s \<le> q" "q < hw_taken s + hw_n s" for q
    using slot_pos [OF hw_invD(1) [OF inv] that p] .
  show "snd (hw_last t i) \<le> (if fst (hw_last t i) then hw_pub_did t else hw_con_did t)" for i
    using S(3) [of i] did t by (auto split: if_splits)
  show "known_to False (4 * q + 3) (hw_last t (q mod hw_n t))" if "hw_taken t \<le> q" "q < hw_sent t" for q
    using that S(4) [of q] here [of q] m(1) t sys D(5) by (auto simp: known_to_def)
  show "known_to True (4 * (q + 1 - hw_n t)) (hw_last t (q mod hw_n t))" if "hw_sent t \<le> q" "q < hw_taken t + hw_n t" for q
    using that S(5) [of q] here [of q] m(2) t sys D(4) by (auto simp: known_to_def)
qed (use hw_slotsD [OF hw_invD(3) [OF inv]] t sys in auto)

lemma hw_step_slots:
  assumes step: "shm_weak_step ord s t" and inv: "hw_inv s"
  shows "hw_slots t"
proof -
  note D = shm_invD [OF hw_invD(1) [OF inv]] and S = hw_slotsD [OF hw_invD(3) [OF inv]]
  have slots: "hw_slots s" and logs: "hw_logs s" by (rule hw_invD [OF inv])+
  from step show ?thesis
  proof cases
    case (hwp_own d h m)
    with D(8) have h: "h = hs_head (hw_sys s)" by simp
    show ?thesis
      by (rule hw_slots_store [OF inv, where p = "hw_sent s" and m = "(True, hw_pub_did s + 1)"]) (use hwp_own h D(2,4,5) in \<open>simp_all add: hw_simps\<close>)
  next
    case (hwp_ready d h)
    with D(8) have h: "h = hs_head (hw_sys s)" by simp
    show ?thesis
      by (rule hw_slots_store [OF inv, where p = "hw_sent s" and m = "(True, hw_pub_did s + 1)"]) (use hwp_ready h D(2,4,5) in \<open>simp_all add: hw_simps\<close>)
  next
    case (hwp_advance d h)
    have did: "hw_pub_did s = 4 * hw_sent s + 3" using logs hwp_advance(2) by (simp add: hw_logs_def)
    have new: "known_to False (4 * hw_sent s + 3) (hw_last s i)" for i
      using S(3) [of i] did by (auto simp: known_to_def split: if_splits)
    show ?thesis
    proof (rule hw_slotsI)
      show "snd (hw_last t i) \<le> (if fst (hw_last t i) then hw_pub_did t else hw_con_did t)" for i
        using S(3) [of i] hwp_advance by (auto simp: hw_simps split: if_splits)
      show "known_to False (4 * p + 3) (hw_last t (p mod hw_n t))" if "hw_taken t \<le> p" "p < hw_sent t" for p
        using that S(4) [of p] new hwp_advance by (cases "p = hw_sent s") (simp_all add: hw_simps)
    qed (use S hwp_advance in \<open>simp_all add: hw_simps\<close>)
  next
    case (hwc_reading rd)
    with D(9) have rd: "rd = hs_tail (hw_sys s)" "hw_taken s < hw_sent s" by simp_all
    show ?thesis
      by (rule hw_slots_store [OF inv, where p = "hw_taken s" and m = "(False, hw_con_did s + 1)"]) (use hwc_reading rd D(1,3) in \<open>simp_all add: hw_simps\<close>)
  next
    case (hwc_advance rd)
    have did: "hw_con_did s = 4 * hw_taken s + 2" using logs hwc_advance(2) by (simp add: hw_logs_def)
    have new: "known_to True (4 * (hw_taken s + 1)) (hw_last s i)" for i
      using S(3) [of i] did by (auto simp: known_to_def split: if_splits)
    show ?thesis
    proof (rule hw_slotsI)
      show "snd (hw_last t i) \<le> (if fst (hw_last t i) then hw_pub_did t else hw_con_did t)" for i
        using S(3) [of i] hwc_advance by (auto simp: hw_simps split: if_splits)
      show "known_to True (4 * (p + 1 - hw_n t)) (hw_last t (p mod hw_n t))" if "hw_sent t \<le> p" "p < hw_taken t + hw_n t" for p
        using that S(5) [of p] new hwc_advance by (cases "p = hw_taken s + hw_n s") (simp_all add: hw_simps)
    qed (use S hwc_advance in \<open>simp_all add: hw_simps\<close>)
  next
    case (hwc_release rd)
    with D(9) have rd: "rd = (hw_taken s + hw_n s - 1) mod hw_n s" "0 < hw_taken s" by simp_all
    have did: "hw_con_did s + 1 = 4 * hw_taken s" using logs hwc_release(2) by (simp add: hw_logs_def)
    show ?thesis
      by (rule hw_slots_store [OF inv, where p = "hw_taken s + hw_n s - 1" and m = "(False, hw_con_did s + 1)"])
        (use hwc_release rd did D(1,5) in \<open>simp_all add: hw_simps\<close>)
  qed (simp_all add: hw_simps hw_slots_cong [OF slots])
qed

text \<open>Two accesses to one slot are a round of the ring apart.\<close>

lemma hw_write_known:
  assumes inv: "hw_inv s" and pc: "hw_con s = ConReady rd" and w: "(rd, a) \<in> set (hw_writes s)"
  shows "a \<le> hw_con_knows s"
proof -
  note D = shm_invD [OF hw_invD(1) [OF inv]]
  have rd: "rd = hw_taken s mod hw_n s" "hw_taken s < hw_sent s" using D(3,9) pc by simp_all
  obtain q where q: "rd = q mod hw_n s" "a = 4 * q + 2" "4 * q + 2 \<le> hw_pub_did s"
    using hw_invD(5) [OF inv] w by (fastforce simp: hw_accesses_def)
  have past: "pub_past (hw_pub s)" "hw_sent s + 1 < hw_taken s + hw_n s" if "2 \<le> pub_phase (hw_pub s)"
    using D(8) that by (cases "hw_pub s"; simp)+
  have "q < hw_taken s + hw_n s"
    using q(3) hw_invD(2) [OF inv] past D(5) by (cases "hw_pub s") (auto simp: hw_logs_def)
  then have "q \<le> hw_taken s" using mod_apart [of "hw_taken s" q "hw_n s"] rd(1) q(1) by fastforce
  moreover have "4 * (hw_taken s + 1) \<le> hw_con_knows s" using hw_invD(4) [OF inv] pc by (simp add: hw_views_def)
  ultimately show ?thesis using q(2) by simp
qed

lemma hw_read_known:
  assumes inv: "hw_inv s" and pc: "hw_pub s = PubOwns d h" and r: "(h, a) \<in> set (hw_reads s)"
  shows "a \<le> hw_pub_knows s"
proof -
  note D = shm_invD [OF hw_invD(1) [OF inv]]
  have h: "h = hw_sent s mod hw_n s" using D(2,8) pc by simp
  obtain q where q: "h = q mod hw_n s" "a = 4 * q + 1" "4 * q + 1 \<le> hw_con_did s"
    using hw_invD(5) [OF inv] r by (fastforce simp: hw_accesses_def)
  have "hw_taken s < hw_sent s" if "0 < con_phase (hw_con s)" using D(9) that by (cases "hw_con s") simp_all
  then have "q < hw_sent s"
    using q(3) hw_invD(2) [OF inv] D(4) by (cases "hw_con s") (auto simp: hw_logs_def)
  then have "q + hw_n s \<le> hw_sent s" using mod_apart [of q "hw_sent s" "hw_n s"] h q(1) by fastforce
  moreover have "4 * (hw_sent s + 2) \<le> hw_pub_knows s + 1 + 4 * hw_n s"
    using hw_invD(4) [OF inv] pc by (simp add: hw_views_def)
  ultimately show ?thesis using q(2) by simp
qed

lemma hw_step_accesses:
  assumes step: "shm_weak_step ord s t" and inv: "hw_inv s"
  shows "hw_accesses t"
proof -
  note D = shm_invD [OF hw_invD(1) [OF inv]]
  have acc: "hw_accesses s" and logs: "hw_logs s" by (rule hw_invD [OF inv])+
  from step show ?thesis
  proof cases
    case (hwp_write d h)
    have "\<not> (\<exists>a. (h, a) \<in> set (hw_reads s) \<and> hw_pub_knows s < a)" using hw_read_known [OF inv hwp_write(2)] by force
    moreover have "h = hw_sent s mod hw_n s" "hw_pub_did s + 1 = 4 * hw_sent s + 2"
      using D(2,8) logs hwp_write(2) by (simp_all add: hw_logs_def)
    ultimately show ?thesis using acc hwp_write by (fastforce simp: hw_accesses_def hw_simps)
  next
    case (hwc_deliver rd)
    have "\<not> (\<exists>a. (rd, a) \<in> set (hw_writes s) \<and> hw_con_knows s < a)" using hw_write_known [OF inv hwc_deliver(2)] by force
    moreover have "rd = hw_taken s mod hw_n s" "hw_con_did s + 1 = 4 * hw_taken s + 1"
      using D(3,9) logs hwc_deliver(2) by (simp_all add: hw_logs_def)
    ultimately show ?thesis using acc hwc_deliver by (fastforce simp: hw_accesses_def hw_simps)
  qed (use acc in \<open>fastforce simp: hw_accesses_def hw_simps\<close>)+
qed

lemma shm_weak_step_inv [model_inv]:
  "indices_ordered ord \<Longrightarrow> shm_weak_step ord s t \<Longrightarrow> hw_inv s \<Longrightarrow> hw_inv t"
  using hw_step_sys hw_step_logs hw_step_slots hw_step_views hw_step_accesses unfolding hw_inv_def by blast

lemma shm_weak_start_inv: "shm_weak_start s \<Longrightarrow> hw_inv s"
  using shm_start_inv [of "hw_sys s"]
  by (simp add: shm_weak_start_def hw_inv_def hw_logs_def hw_slots_def hw_views_def hw_accesses_def shm_start_def
      head_msgs_def tail_msgs_def known_to_def)

lemma code_indices_ordered: "indices_ordered shm_code_orders"
  by (simp add: indices_ordered_def shm_code_orders_def synchronizes_def)

lemma shm_weak_moves:
  "shm_weak_step ord s t \<Longrightarrow> hw_n t = hw_n s \<and>
    (hs_sent (hw_sys t) = hs_sent (hw_sys s) \<or>
      (\<exists>v. hs_sent (hw_sys t) = hs_sent (hw_sys s) @ [v]) \<and> hs_got (hw_sys t) = hs_got (hw_sys s)) \<and>
    (hs_got (hw_sys t) = hs_got (hw_sys s) \<or>
      (\<exists>v. hs_got (hw_sys t) = hs_got (hw_sys s) @ [v]) \<and> hs_sent (hw_sys t) = hs_sent (hw_sys s))"
  by (erule shm_weak_step.cases) (simp_all add: hw_simps)

lemma hw_pending:
  "hw_inv s \<Longrightarrow> \<exists>rest. hs_sent (hw_sys s) = hs_got (hw_sys s) @ rest \<and> length rest \<le> hw_n s - 1"
  by (rule shm_inv_pending [OF hw_invD(1)])

interpretation hwf: fifo_machine shm_weak_start "shm_weak_step shm_code_orders" hw_inv "\<lambda>s. hs_sent (hw_sys s)"
    "\<lambda>s. hs_got (hw_sys s)" "\<lambda>s. hw_n s - 1"
  by unfold_locales
    (erule shm_weak_start_inv, erule (1) shm_weak_step_inv [OF code_indices_ordered, rotated],
      simp add: shm_weak_start_def shm_start_def, erule hw_pending, simp_all add: shm_weak_moves)

section \<open>The channel under its memory orders\<close>

text \<open>
  C1. With the memory orders of the code, whatever old values the loads find, the two processes
  never race on a payload and still implement a first-in first-out channel of \<open>buffer_size - 1\<close> places;
  and the exchange of a slot's state never refuses a publication that has found room.
\<close>

theorem shm_weak_fifo:
  assumes "shm_weak_start s" "(shm_weak_step shm_code_orders)\<^sup>*\<^sup>* s t"
  shows "\<not> hw_raced t \<and> (fifo_step (hw_n t - 1))\<^sup>*\<^sup>* ([], []) (hs_sent (hw_sys t), hs_got (hw_sys t)) \<and>
    (\<exists>rest. hs_sent (hw_sys t) = hs_got (hw_sys t) @ rest \<and> length rest \<le> hw_n t - 1) \<and> hs_refused (hw_sys t) = 0"
proof -
  have inv: "hw_inv t" by (rule hwf.reach_inv [OF assms])
  show ?thesis
    using hwf.refines [OF assms] hw_pending [OF inv] shm_invD(6) [OF hw_invD(1) [OF inv]] hw_invD(5) [OF inv]
    by (simp add: hw_accesses_def)
qed

text \<open>The orders of the two indices are enough: those of the slots' states may be anything.\<close>

theorem shm_index_orders_suffice:
  assumes "indices_ordered ord" "shm_weak_start s" "(shm_weak_step ord)\<^sup>*\<^sup>* s t"
  shows "\<not> hw_raced t \<and> (\<exists>rest. hs_sent (hw_sys t) = hs_got (hw_sys t) @ rest) \<and> hs_refused (hw_sys t) = 0"
proof -
  from assms(3) have inv: "hw_inv t"
    by induction (use shm_weak_start_inv [OF assms(2)] shm_weak_step_inv [OF assms(1)] in blast)+
  show ?thesis
    using hw_pending [OF inv] shm_invD(6) [OF hw_invD(1) [OF inv]] hw_invD(5) [OF inv]
    by (auto simp: hw_accesses_def)
qed

definition hw_demo :: "nat shm_weak" where
  "hw_demo = \<lparr>hw_sys = \<lparr>hs_n = 2, hs_head = 0, hs_tail = 0, hs_state = (\<lambda>_. STATE_EMPTY), hs_data = (\<lambda>_. 0), hs_pub = PubIdle,
       hs_con = ConIdle, hs_sent = [], hs_got = [], hs_taken = 0, hs_refused = 0\<rparr>,
     hw_heads = [(0, (True, 0))], hw_tails = [(0, (False, 0))], hw_states = (\<lambda>_. [(STATE_EMPTY, (False, 0))]),
     hw_pub_did = 0, hw_con_did = 0, hw_pub_knows = 0, hw_con_knows = 0, hw_writes = [], hw_reads = [], hw_raced = False\<rparr>"

lemma hw_demo_start: "shm_weak_start hw_demo"
  by (simp add: hw_demo_def shm_weak_start_def shm_start_def)

lemmas hw_eval = hw_demo_def hw_simps readable_def known_to_def learn_def synchronizes_def shm_code_orders_def
  STATE_EMPTY_def STATE_WRITING_def STATE_READY_def STATE_READING_def

text \<open>A message published and delivered, after a look at the old value of \<open>head\<close>.\<close>

lemma hw_demo_run:
  "\<exists>t. (shm_weak_step shm_code_orders)\<^sup>*\<^sup>* hw_demo t \<and> hs_sent (hw_sys t) = [5] \<and> hs_got (hw_sys t) = [5] \<and> hw_n t = 2"
  apply (rule exI, rule conjI)
  apply (rule run_step, rule hwp_call [where d = 5], simp add: hw_eval, simp add: hw_eval)
  apply (rule run_step, rule hwp_room [where k = 0], simp add: hw_eval, simp add: hw_eval, rule prod.collapse [symmetric], simp add: hw_eval, simp add: hw_eval)
  apply (rule run_step, rule hwp_own, simp add: hw_eval, simp add: hw_eval, simp add: hw_eval)
  apply (rule run_step, rule hwp_write, simp add: hw_eval, simp add: hw_eval)
  apply (rule run_step, rule hwp_ready, simp add: hw_eval, simp add: hw_eval)
  apply (rule run_step, rule hwp_advance, simp add: hw_eval, simp add: hw_eval)
  apply (rule run_step, rule hwc_call, simp add: hw_eval, simp add: hw_eval)
  apply (rule run_step, rule hwc_empty [where k = 0], simp add: hw_eval, simp add: hw_eval, rule prod.collapse [symmetric], simp add: hw_eval, simp add: hw_eval)
  apply (rule run_step, rule hwc_call, simp add: hw_eval, simp add: hw_eval)
  apply (rule run_step, rule hwc_seen [where k = 1], simp add: hw_eval, simp add: hw_eval, rule prod.collapse [symmetric], simp add: hw_eval, simp add: hw_eval)
  apply (rule run_step, rule hwc_ready [where k = 2], simp add: hw_eval, simp add: hw_eval, simp add: hw_eval, simp add: hw_eval)
  apply (rule run_step, rule hwc_deliver, simp add: hw_eval, simp add: hw_eval)
   apply (rule rtranclp.rtrancl_refl)
  apply (simp add: hw_eval)
  done

theorem shm_weak_fifo_witness:
  "\<exists>t :: nat shm_weak. \<not> hw_raced t \<and> hs_got (hw_sys t) = [5] \<and> (fifo_step 1)\<^sup>*\<^sup>* ([], []) ([5 :: nat], [5])"
proof -
  obtain t where t: "(shm_weak_step shm_code_orders)\<^sup>*\<^sup>* hw_demo t" "hs_sent (hw_sys t) = [5]" "hs_got (hw_sys t) = [5]" "hw_n t = 2"
    using hw_demo_run by blast
  from shm_weak_fifo [OF hw_demo_start t(1)] t(2-4) show ?thesis by (intro exI [of _ t]) simp
qed

theorem shm_index_orders_suffice_witness:
  "\<exists>t. (shm_weak_step (shm_code_orders\<lparr>xo_state_store := Relaxed\<rparr>))\<^sup>*\<^sup>* hw_demo t \<and> \<not> hw_raced t"
  using shm_index_orders_suffice [of "shm_code_orders\<lparr>xo_state_store := Relaxed\<rparr>" hw_demo hw_demo] hw_demo_start
  by (auto simp: indices_ordered_def shm_code_orders_def synchronizes_def)

text \<open>
  With \<open>tail\<close> stored relaxed, a publication can be refused although its slot is free; with \<open>head\<close> and the
  states stored relaxed, the consumer races with the publisher.
\<close>

lemma hw_relaxed_tail:
  "\<exists>t. (shm_weak_step (shm_code_orders\<lparr>xo_tail_store := Relaxed\<rparr>))\<^sup>*\<^sup>* hw_demo t \<and> 0 < hs_refused (hw_sys t)"
  apply (rule exI, rule conjI)
  apply (rule run_step, rule hwp_call [where d = 5], simp add: hw_eval, simp add: hw_eval)
  apply (rule run_step, rule hwp_room [where k = 0], simp add: hw_eval, simp add: hw_eval, rule prod.collapse [symmetric], simp add: hw_eval, simp add: hw_eval)
  apply (rule run_step, rule hwp_own, simp add: hw_eval, simp add: hw_eval, simp add: hw_eval)
  apply (rule run_step, rule hwp_write, simp add: hw_eval, simp add: hw_eval)
  apply (rule run_step, rule hwp_ready, simp add: hw_eval, simp add: hw_eval)
  apply (rule run_step, rule hwp_advance, simp add: hw_eval, simp add: hw_eval)
  apply (rule run_step, rule hwc_call, simp add: hw_eval, simp add: hw_eval)
  apply (rule run_step, rule hwc_seen [where k = 1], simp add: hw_eval, simp add: hw_eval, rule prod.collapse [symmetric], simp add: hw_eval, simp add: hw_eval)
  apply (rule run_step, rule hwc_ready [where k = 2], simp add: hw_eval, simp add: hw_eval, simp add: hw_eval, simp add: hw_eval)
  apply (rule run_step, rule hwc_deliver, simp add: hw_eval, simp add: hw_eval)
  apply (rule run_step, rule hwc_reading, simp add: hw_eval, simp add: hw_eval)
  apply (rule run_step, rule hwc_advance, simp add: hw_eval, simp add: hw_eval)
  apply (rule run_step, rule hwc_release, simp add: hw_eval, simp add: hw_eval)
  apply (rule run_step, rule hwp_call [where d = 6], simp add: hw_eval, simp add: hw_eval)
  apply (rule run_step, rule hwp_room [where k = 1], simp add: hw_eval, simp add: hw_eval, rule prod.collapse [symmetric], simp add: hw_eval, simp add: hw_eval)
  apply (rule run_step, rule hwp_own, simp add: hw_eval, simp add: hw_eval, simp add: hw_eval)
  apply (rule run_step, rule hwp_write, simp add: hw_eval, simp add: hw_eval)
  apply (rule run_step, rule hwp_ready, simp add: hw_eval, simp add: hw_eval)
  apply (rule run_step, rule hwp_advance, simp add: hw_eval, simp add: hw_eval)
  apply (rule run_step, rule hwc_call, simp add: hw_eval, simp add: hw_eval)
  apply (rule run_step, rule hwc_seen [where k = 2], simp add: hw_eval, simp add: hw_eval, rule prod.collapse [symmetric], simp add: hw_eval, simp add: hw_eval)
  apply (rule run_step, rule hwc_ready [where k = 2], simp add: hw_eval, simp add: hw_eval, simp add: hw_eval, simp add: hw_eval)
  apply (rule run_step, rule hwc_deliver, simp add: hw_eval, simp add: hw_eval)
  apply (rule run_step, rule hwc_reading, simp add: hw_eval, simp add: hw_eval)
  apply (rule run_step, rule hwc_advance, simp add: hw_eval, simp add: hw_eval)
  apply (rule run_step, rule hwp_call [where d = 7], simp add: hw_eval, simp add: hw_eval)
  apply (rule run_step, rule hwp_room [where k = 2], simp add: hw_eval, simp add: hw_eval, rule prod.collapse [symmetric], simp add: hw_eval, simp add: hw_eval)
  apply (rule run_step, rule hwp_refused [where k = 3], simp add: hw_eval, simp add: hw_eval, rule prod.collapse [symmetric], simp add: hw_eval, simp add: hw_eval)
   apply (rule rtranclp.rtrancl_refl)
  apply (simp add: hw_eval)
  done

lemma hw_relaxed_head:
  "\<exists>t. (shm_weak_step (shm_code_orders\<lparr>xo_head_store := Relaxed, xo_state_store := Relaxed\<rparr>))\<^sup>*\<^sup>* hw_demo t \<and> hw_raced t"
  apply (rule exI, rule conjI)
  apply (rule run_step, rule hwp_call [where d = 5], simp add: hw_eval, simp add: hw_eval)
  apply (rule run_step, rule hwp_room [where k = 0], simp add: hw_eval, simp add: hw_eval, rule prod.collapse [symmetric], simp add: hw_eval, simp add: hw_eval)
  apply (rule run_step, rule hwp_own, simp add: hw_eval, simp add: hw_eval, simp add: hw_eval)
  apply (rule run_step, rule hwp_write, simp add: hw_eval, simp add: hw_eval)
  apply (rule run_step, rule hwp_ready, simp add: hw_eval, simp add: hw_eval)
  apply (rule run_step, rule hwp_advance, simp add: hw_eval, simp add: hw_eval)
  apply (rule run_step, rule hwc_call, simp add: hw_eval, simp add: hw_eval)
  apply (rule run_step, rule hwc_seen [where k = 1], simp add: hw_eval, simp add: hw_eval, rule prod.collapse [symmetric], simp add: hw_eval, simp add: hw_eval)
  apply (rule run_step, rule hwc_ready [where k = 2], simp add: hw_eval, simp add: hw_eval, simp add: hw_eval, simp add: hw_eval)
  apply (rule run_step, rule hwc_deliver, simp add: hw_eval, simp add: hw_eval)
   apply (rule rtranclp.rtrancl_refl)
  apply (simp add: hw_eval)
  done

theorem shm_orders_needed:
  "(\<exists>s t :: nat shm_weak. shm_weak_start s \<and> (shm_weak_step (shm_code_orders\<lparr>xo_tail_store := Relaxed\<rparr>))\<^sup>*\<^sup>* s t \<and>
      0 < hs_refused (hw_sys t)) \<and>
   (\<exists>s t :: nat shm_weak. shm_weak_start s \<and>
      (shm_weak_step (shm_code_orders\<lparr>xo_head_store := Relaxed, xo_state_store := Relaxed\<rparr>))\<^sup>*\<^sup>* s t \<and> hw_raced t)"
  using hw_demo_start hw_relaxed_tail hw_relaxed_head by blast

end
