(* ===== verification/SignalSlot.thy ===== *)
theory SignalSlot
  imports Interfaces
begin

text \<open>
  \<open>include/lwipc/signal_slot.hpp\<close>: signals with connected slots, and the manager that names
  them. A slot's callback is an opaque value; what a call does is the argument \<open>call\<close> of
  \<open>emit\<close>: it returns, it throws, or it calls back into the same signal, whose mutex the
  emitting thread already holds.
\<close>

section \<open>Signals\<close>

record connection =
  cx_id :: u64
  cx_valid :: bool

definition connection_none :: connection where
  "connection_none = \<lparr>cx_id = 0, cx_valid = False\<rparr>"

definition connection_disconnect :: "connection \<Rightarrow> connection" where
  "connection_disconnect c = c\<lparr>cx_valid := False\<rparr>"

record 'cb slot_entry =
  sl_id :: u64
  sl_callback :: 'cb
  sl_valid :: bool

record 'cb signal =
  sg_slots :: "'cb slot_entry list"
  sg_next_id :: u64
  sg_active :: size_t

definition signal_new :: "'cb signal" where
  "signal_new = \<lparr>sg_slots = [], sg_next_id = 1, sg_active = 0\<rparr>"

definition sg_connect :: "'cb \<Rightarrow> 'cb signal \<Rightarrow> connection \<times> 'cb signal" where
  "sg_connect cb s =
     (let i = sg_next_id s
      in (\<lparr>cx_id = i, cx_valid = True\<rparr>,
          s\<lparr>sg_next_id := i + 1, sg_slots := sg_slots s @ [\<lparr>sl_id = i, sl_callback = cb, sl_valid = True\<rparr>],
            sg_active := sg_active s + 1\<rparr>))"

text \<open>The loop of \<open>disconnect\<close>: the first entry with the identifier is cleared, and stays.\<close>

fun clear_slot :: "u64 \<Rightarrow> 'cb slot_entry list \<Rightarrow> size_t \<Rightarrow> 'cb slot_entry list \<times> size_t" where
  "clear_slot i [] n = ([], n)"
| "clear_slot i (e # es) n =
     (if sl_id e = i then (e\<lparr>sl_valid := False\<rparr> # es, if sl_valid e then n - 1 else n)
      else let (es', n') = clear_slot i es n in (e # es', n'))"

definition sg_disconnect :: "connection \<Rightarrow> 'cb signal \<Rightarrow> 'cb signal" where
  "sg_disconnect c s = (if \<not> cx_valid c then s
     else let (es, n) = clear_slot (cx_id c) (sg_slots s) (sg_active s)
          in s\<lparr>sg_slots := es, sg_active := n\<rparr>)"

definition sg_disconnect_all :: "'cb signal \<Rightarrow> 'cb signal" where
  "sg_disconnect_all s =
     s\<lparr>sg_active := fold (\<lambda>e n. if sl_valid e then n - 1 else n) (sg_slots s) (sg_active s), sg_slots := []\<rparr>"

datatype 'w slot_result = Returns 'w | Throws 'w | Reenters

text \<open>\<open>emit\<close>: \<open>None\<close> is a thread that blocks on the mutex it holds itself.\<close>

fun sg_emit_loop :: "('cb \<Rightarrow> 'a \<Rightarrow> 'w \<Rightarrow> 'w slot_result) \<Rightarrow> 'cb slot_entry list \<Rightarrow> 'a \<Rightarrow> 'w \<Rightarrow> 'w option" where
  "sg_emit_loop call [] arg w = Some w"
| "sg_emit_loop call (e # es) arg w =
     (if sl_valid e then
        (case call (sl_callback e) arg w of
           Returns w' \<Rightarrow> sg_emit_loop call es arg w'
         | Throws w' \<Rightarrow> sg_emit_loop call es arg w'
         | Reenters \<Rightarrow> None)
      else sg_emit_loop call es arg w)"

definition sg_emit :: "('cb \<Rightarrow> 'a \<Rightarrow> 'w \<Rightarrow> 'w slot_result) \<Rightarrow> 'a \<Rightarrow> 'cb signal \<Rightarrow> 'w \<Rightarrow> 'w option" where
  "sg_emit call arg s w = sg_emit_loop call (sg_slots s) arg w"

definition sg_count :: "'cb signal \<Rightarrow> size_t" where
  "sg_count s = fold (\<lambda>e n. if sl_valid e then n + 1 else n) (sg_slots s) 0"

section \<open>Specification: the live connections\<close>

definition live :: "'cb signal \<Rightarrow> (u64 \<times> 'cb) list" where
  "live s = map (\<lambda>e. (sl_id e, sl_callback e)) (filter sl_valid (sg_slots s))"

definition signal_ok :: "'cb signal \<Rightarrow> bool" where
  "signal_ok s \<longleftrightarrow> distinct (map sl_id (sg_slots s)) \<and>
     (\<forall>e \<in> set (sg_slots s). unat (sl_id e) < unat (sg_next_id s)) \<and>
     length (sg_slots s) < unat (sg_next_id s) \<and>
     sg_active s = of_nat (length (live s))"

lemma signal_ok_new [simp]: "signal_ok signal_new"
  by (simp add: signal_ok_def signal_new_def live_def)

lemma live_connect: "live (snd (sg_connect cb s)) = live s @ [(sg_next_id s, cb)]"
  by (simp add: live_def sg_connect_def Let_def)

lemma signal_ok_connect [model_inv]:
  assumes "signal_ok s" "unat (sg_next_id s) < 2 ^ 64 - 1"
  shows "signal_ok (snd (sg_connect cb s))"
proof -
  have "unat (sg_next_id s + 1) = Suc (unat (sg_next_id s))"
    using assms(2) by (simp add: unat_word_ariths)
  moreover have "\<forall>e \<in> set (sg_slots s). sl_id e \<noteq> sg_next_id s"
    using assms(1) by (auto simp: signal_ok_def)
  ultimately show ?thesis using assms(1) live_connect [of cb s]
    by (auto simp: signal_ok_def sg_connect_def Let_def less_Suc_eq)
qed

lemma clear_slot_ids: "map sl_id (fst (clear_slot i es n)) = map sl_id es"
  by (induction es) (auto split: prod.split)

lemma clear_slot_live:
  "distinct (map sl_id es) \<Longrightarrow>
   filter sl_valid (fst (clear_slot i es n)) = filter (\<lambda>e. sl_id e \<noteq> i) (filter sl_valid es)"
proof (induction es)
  case (Cons e es)
  have "filter (\<lambda>x. sl_valid x \<and> sl_id x \<noteq> sl_id e) es = filter sl_valid es"
    using Cons.prems by (intro filter_cong) (force simp: image_iff)+
  with Cons show ?case by (cases "clear_slot i es n") auto
qed simp

lemma clear_slot_active:
  "distinct (map sl_id es) \<Longrightarrow>
   snd (clear_slot i es n) + of_nat (length (filter sl_valid es))
     = n + of_nat (length (filter sl_valid (fst (clear_slot i es n))))"
proof (induction es)
  case (Cons e es)
  then show ?case by (cases "clear_slot i es n") (auto simp: algebra_simps)
qed simp

lemma live_disconnect:
  "signal_ok s \<Longrightarrow> live (sg_disconnect c s) = (if cx_valid c then filter (\<lambda>p. fst p \<noteq> cx_id c) (live s) else live s)"
proof -
  assume ok: "signal_ok s"
  then have "filter sl_valid (fst (clear_slot (cx_id c) (sg_slots s) n))
      = filter (\<lambda>e. sl_id e \<noteq> cx_id c) (filter sl_valid (sg_slots s))" for n
    by (intro clear_slot_live) (simp add: signal_ok_def)
  then show ?thesis
    by (simp add: live_def sg_disconnect_def filter_map comp_def case_prod_beta)
qed

lemma signal_ok_disconnect [model_inv]: "signal_ok s \<Longrightarrow> signal_ok (sg_disconnect c s)"
proof -
  assume ok: "signal_ok s"
  let ?r = "clear_slot (cx_id c) (sg_slots s) (sg_active s)"
  have ids: "map sl_id (fst ?r) = map sl_id (sg_slots s)" by (rule clear_slot_ids)
  then have len: "length (fst ?r) = length (sg_slots s)" by (metis length_map)
  have "sl_id ` set (fst ?r) = sl_id ` set (sg_slots s)" using ids by (metis set_map)
  then have below: "\<forall>e \<in> set (fst ?r). unat (sl_id e) < unat (sg_next_id s)"
    using ok by (force simp: signal_ok_def)
  have "snd ?r + of_nat (length (live s)) = sg_active s + of_nat (length (filter sl_valid (fst ?r)))"
    using clear_slot_active [of "sg_slots s"] ok by (simp add: signal_ok_def live_def)
  then have "snd ?r = of_nat (length (filter sl_valid (fst ?r)))"
    using ok by (simp add: signal_ok_def)
  with ok ids len below show ?thesis
    by (simp add: signal_ok_def sg_disconnect_def case_prod_beta live_def)
qed

lemma fold_active: "fold (\<lambda>e n. if sl_valid e then n - 1 else n) es (n :: size_t)
    = n - of_nat (length (filter sl_valid es))"
  by (induction es arbitrary: n) (auto simp: algebra_simps)

lemma live_disconnect_all: "live (sg_disconnect_all s) = []"
  by (simp add: live_def sg_disconnect_all_def)

lemma signal_ok_disconnect_all [model_inv]: "signal_ok s \<Longrightarrow> signal_ok (sg_disconnect_all s)"
  by (auto simp: signal_ok_def sg_disconnect_all_def fold_active live_def)

section \<open>Histories\<close>

datatype 'cb signal_op = Connect 'cb | Disconnect connection | DisconnectAll

fun sg_apply :: "'cb signal_op \<Rightarrow> 'cb signal \<Rightarrow> 'cb signal" where
  "sg_apply (Connect cb) s = snd (sg_connect cb s)"
| "sg_apply (Disconnect c) s = sg_disconnect c s"
| "sg_apply DisconnectAll s = sg_disconnect_all s"

text \<open>The specification numbers connections and keeps the live ones in connection order.\<close>

fun spec_apply :: "'cb signal_op \<Rightarrow> nat \<times> (nat \<times> 'cb) list \<Rightarrow> nat \<times> (nat \<times> 'cb) list" where
  "spec_apply (Connect cb) (n, l) = (n + 1, l @ [(n, cb)])"
| "spec_apply (Disconnect c) (n, l) = (n, if cx_valid c then filter (\<lambda>p. fst p \<noteq> unat (cx_id c)) l else l)"
| "spec_apply DisconnectAll (n, l) = (n, [])"

definition signal_abs :: "'cb signal \<Rightarrow> nat \<times> (nat \<times> 'cb) list" where
  "signal_abs s = (unat (sg_next_id s), map (\<lambda>(i, cb). (unat i, cb)) (live s))"

lemma filter_unat_fst:
  "map (\<lambda>(i, cb). (unat i, cb)) (filter (\<lambda>p. fst p \<noteq> j) l)
     = filter (\<lambda>p. fst p \<noteq> unat j) (map (\<lambda>(i, cb). (unat i, cb)) l)"
  by (induction l) (auto simp: word_unat_eq_iff)

lemma signal_abs_apply [model_abs]:
  assumes "signal_ok s" "unat (sg_next_id s) < 2 ^ 64 - 1"
  shows "signal_abs (sg_apply op s) = spec_apply op (signal_abs s) \<and> signal_ok (sg_apply op s) \<and>
    unat (sg_next_id (sg_apply op s)) \<le> unat (sg_next_id s) + 1"
proof (cases op)
  case (Connect cb)
  have "unat (sg_next_id s + 1) = Suc (unat (sg_next_id s))"
    using assms(2) by (simp add: unat_word_ariths)
  with Connect assms show ?thesis
    using signal_ok_connect [OF assms, of cb] live_connect [of cb s]
    by (simp add: signal_abs_def) (simp add: sg_connect_def Let_def)
next
  case (Disconnect c)
  have "sg_next_id (sg_disconnect c s) = sg_next_id s"
    by (simp add: sg_disconnect_def case_prod_beta)
  with Disconnect assms show ?thesis
    by (simp add: signal_abs_def live_disconnect filter_unat_fst signal_ok_disconnect)
next
  case DisconnectAll
  with assms show ?thesis
    by (simp add: signal_abs_def live_disconnect_all signal_ok_disconnect_all)
      (simp add: sg_disconnect_all_def)
qed

lemma signal_abs_run:
  assumes "signal_ok s" "unat (sg_next_id s) + length ops < 2 ^ 64"
  shows "signal_abs (fold sg_apply ops s) = fold spec_apply ops (signal_abs s) \<and> signal_ok (fold sg_apply ops s)"
  using assms
proof (induction ops arbitrary: s)
  case (Cons op ops)
  then have "signal_abs (sg_apply op s) = spec_apply op (signal_abs s)" "signal_ok (sg_apply op s)"
    "unat (sg_next_id (sg_apply op s)) \<le> unat (sg_next_id s) + 1"
    using signal_abs_apply [of s op] by auto
  with Cons.IH [of "sg_apply op s"] Cons.prems(2) show ?case by simp
qed simp

lemma sg_count_live: "sg_count s = of_nat (length (live s))"
proof -
  have "fold (\<lambda>e n. if sl_valid e then n + 1 else n) es n = n + of_nat (length (filter sl_valid es))"
    for es :: "'a slot_entry list" and n :: size_t
    by (induction es arbitrary: n) (auto simp: algebra_simps)
  then show ?thesis by (simp add: sg_count_def live_def)
qed

text \<open>
  C32. After any sequence of fewer than \<open>2 ^ 64 - 1\<close> calls a signal's live slots are those of the
  specification, and both the counter kept incrementally and \<open>getConnectionCount\<close> are their
  number.
\<close>

theorem signal_history:
  assumes "length ops < 2 ^ 64 - 1"
  shows "map (\<lambda>(i, cb). (unat i, cb)) (live (fold sg_apply ops signal_new)) = snd (fold spec_apply ops (1, [])) \<and>
    sg_active (fold sg_apply ops signal_new) = sg_count (fold sg_apply ops signal_new) \<and>
    sg_count (fold sg_apply ops signal_new) = of_nat (length (snd (fold spec_apply ops (1, []))))"
proof -
  let ?s = "fold sg_apply ops signal_new"
  have "signal_abs signal_new = (1, [] :: (nat \<times> 'a) list)"
    by (simp add: signal_abs_def signal_new_def live_def)
  moreover have "unat (sg_next_id (signal_new :: 'a signal)) + length ops < 2 ^ 64"
    using assms by (simp add: signal_new_def)
  ultimately have *: "signal_abs ?s = fold spec_apply ops (1, [])" "signal_ok ?s"
    using signal_abs_run [OF signal_ok_new, of ops] by simp_all
  then have "snd (fold spec_apply ops (1, [])) = map (\<lambda>(i, cb). (unat i, cb)) (live ?s)"
    by (metis signal_abs_def snd_conv)
  with *(2) show ?thesis by (simp add: sg_count_live signal_ok_def)
qed

theorem signal_history_witness:
  "map (\<lambda>(i, cb). (unat i, cb))
     (live (fold sg_apply [Connect (10 :: nat), Connect 20, Disconnect \<lparr>cx_id = 1, cx_valid = True\<rparr>] signal_new)) = [(2, 20)]"
  using signal_history [of "[Connect (10 :: nat), Connect 20, Disconnect \<lparr>cx_id = 1, cx_valid = True\<rparr>]"] by simp

section \<open>Emission\<close>

text \<open>A slot that only records that it was called, and throws or not.\<close>

definition recording :: "('cb \<Rightarrow> bool) \<Rightarrow> 'cb \<Rightarrow> 'a \<Rightarrow> ('cb \<times> 'a) list \<Rightarrow> ('cb \<times> 'a) list slot_result" where
  "recording fails cb arg seen =
     (if fails cb then Throws (seen @ [(cb, arg)]) else Returns (seen @ [(cb, arg)]))"

lemma emit_loop_recording:
  "sg_emit_loop (recording fails) es arg seen
     = Some (seen @ map (\<lambda>e. (sl_callback e, arg)) (filter sl_valid es))"
  by (induction es arbitrary: seen) (simp_all add: recording_def)

text \<open>
  Unless a slot uses the signal itself, emission calls every live slot exactly once in
  connection order, also when some of them throw.
\<close>

theorem signal_emit_all:
  "sg_emit (recording fails) arg s seen = Some (seen @ map (\<lambda>(_, cb). (cb, arg)) (live s))"
  by (simp add: sg_emit_def emit_loop_recording live_def)

text \<open>
  A slot that connects, disconnects or emits on its own signal blocks the emitting thread
  for ever, as soon as emission reaches it.
\<close>

theorem signal_reentry_deadlock:
  assumes "(i, cb) \<in> set (live s)" "\<And>w. call cb arg w = Reenters"
  shows "sg_emit call arg s w = None"
proof -
  have reenters: "call (sl_callback e) arg w = Reenters" if "sl_callback e = cb" for e w
    using assms(2) that by simp
  have "\<exists>e \<in> set es. sl_valid e \<and> sl_callback e = cb \<Longrightarrow> sg_emit_loop call es arg w = None" for es
    by (induction es arbitrary: w) (auto simp: reenters split: slot_result.split)
  with assms(1) show ?thesis by (auto simp: sg_emit_def live_def)
qed

theorem signal_reentry_deadlock_witness:
  "sg_emit (\<lambda>cb arg w. if cb then Reenters else Returns w) () (snd (sg_connect True signal_new)) (0 :: nat) = None"
proof (rule signal_reentry_deadlock)
  show "(1, True) \<in> set (live (snd (sg_connect True signal_new)))"
    by (simp add: live_def sg_connect_def signal_new_def)
qed simp

text \<open>
  A disconnected slot's entry is never reclaimed: after \<open>n\<close> rounds of connecting and
  disconnecting the signal has no live slot but stores \<open>n\<close> more entries than before.
\<close>

definition churn :: "'cb \<Rightarrow> 'cb signal \<Rightarrow> 'cb signal" where
  "churn cb s = (let (c, s') = sg_connect cb s in sg_disconnect c s')"

lemma churn_ok:
  assumes "signal_ok s" "unat (sg_next_id s) < 2 ^ 64 - 1"
  shows "signal_ok (churn cb s) \<and> live (churn cb s) = live s \<and>
    length (sg_slots (churn cb s)) = length (sg_slots s) + 1 \<and> sg_next_id (churn cb s) = sg_next_id s + 1"
proof -
  let ?s = "snd (sg_connect cb s)"
  have ok: "signal_ok ?s" by (rule signal_ok_connect [OF assms])
  have churn: "churn cb s = sg_disconnect \<lparr>cx_id = sg_next_id s, cx_valid = True\<rparr> ?s"
    by (simp add: churn_def sg_connect_def Let_def)
  have "fst p \<noteq> sg_next_id s" if "p \<in> set (live s)" for p
    using that assms(1) by (auto simp: signal_ok_def live_def)
  then have "live (churn cb s) = live s"
    by (simp add: churn live_disconnect [OF ok] live_connect filter_id_conv)
  moreover have "length (sg_slots (sg_disconnect c s')) = length (sg_slots s')" for c and s' :: "'a signal"
    using clear_slot_ids [of "cx_id c" "sg_slots s'" "sg_active s'"]
    by (simp add: sg_disconnect_def case_prod_beta) (metis length_map)
  moreover have "sg_next_id (churn cb s) = sg_next_id s + 1"
    by (simp add: churn sg_disconnect_def case_prod_beta) (simp add: sg_connect_def Let_def)
  ultimately show ?thesis
    using signal_ok_disconnect [OF ok] by (simp add: churn) (simp add: sg_connect_def Let_def)
qed

theorem signal_slots_leak:
  assumes "signal_ok s" "unat (sg_next_id s) + n < 2 ^ 64 - 1"
  shows "live ((churn cb ^^ n) s) = live s \<and> length (sg_slots ((churn cb ^^ n) s)) = length (sg_slots s) + n"
proof -
  have "signal_ok ((churn cb ^^ n) s) \<and> unat (sg_next_id ((churn cb ^^ n) s)) = unat (sg_next_id s) + n \<and>
    live ((churn cb ^^ n) s) = live s \<and> length (sg_slots ((churn cb ^^ n) s)) = length (sg_slots s) + n"
    using assms(2)
  proof (induction n)
    case 0
    then show ?case using assms(1) by simp
  next
    case (Suc n)
    then show ?case using churn_ok [of "(churn cb ^^ n) s" cb] by (auto simp: unat_word_ariths)
  qed
  then show ?thesis by simp
qed

theorem signal_slots_leak_witness:
  "live ((churn cb ^^ 1000) signal_new) = [] \<and> length (sg_slots ((churn cb ^^ 1000) signal_new)) = 1000"
  using signal_slots_leak [OF signal_ok_new, of 1000 cb] by (simp add: signal_new_def live_def)

section \<open>The manager\<close>

text \<open>
  Signals are shared: the manager and its clients hold pointers to them, which are positions in
  a list of signals, each with the argument types \<open>'ty\<close> it was made for. \<open>getOrCreate\<close> casts
  an existing signal without a check; the cast to another type is undefined and yields \<open>Inl\<close>.
\<close>

record 'ty signal_manager =
  sm_names :: "(string, nat) umap"
  sm_types :: "'ty list"

definition manager_new :: "'ty signal_manager" where
  "manager_new = \<lparr>sm_names = [], sm_types = []\<rparr>"

definition sm_get_or_create :: "'ty \<Rightarrow> string \<Rightarrow> 'ty signal_manager \<Rightarrow> (unit + nat) \<times> 'ty signal_manager" where
  "sm_get_or_create ty name m =
     (case um_find (sm_names m) name of
        Some h \<Rightarrow> (if sm_types m ! h = ty then Inr h else Inl (), m)
      | None \<Rightarrow> (Inr (length (sm_types m)),
          m\<lparr>sm_names := um_put name (length (sm_types m)) (sm_names m), sm_types := sm_types m @ [ty]\<rparr>))"

definition sm_has :: "string \<Rightarrow> 'ty signal_manager \<Rightarrow> bool" where
  "sm_has name m \<longleftrightarrow> um_find (sm_names m) name \<noteq> None"

definition sm_remove :: "string \<Rightarrow> 'ty signal_manager \<Rightarrow> 'ty signal_manager" where
  "sm_remove name m = m\<lparr>sm_names := um_erase name (sm_names m)\<rparr>"

definition sm_signal_names :: "'ty signal_manager \<Rightarrow> string list" where
  "sm_signal_names m = map fst (sm_names m)"

definition sm_signal_count :: "'ty signal_manager \<Rightarrow> nat" where
  "sm_signal_count m = length (sm_names m)"

definition manager_ok :: "'ty signal_manager \<Rightarrow> bool" where
  "manager_ok m \<longleftrightarrow> umap_ok (sm_names m) \<and> distinct (map snd (sm_names m)) \<and>
     (\<forall>(n, h) \<in> set (sm_names m). h < length (sm_types m))"

lemma manager_ok_new [simp]: "manager_ok manager_new"
  by (simp add: manager_ok_def manager_new_def)

lemma update_fresh: "k \<notin> fst ` set m \<Longrightarrow> um_put k v m = m @ [(k, v)]"
  by (induction m) auto

lemma manager_ok_get [model_inv]:
  "manager_ok m \<Longrightarrow> manager_ok (snd (sm_get_or_create ty name m))"
proof (cases "um_find (sm_names m) name")
  case None
  assume ok: "manager_ok m"
  from None have "name \<notin> fst ` set (sm_names m)" by (simp add: map_of_eq_None_iff)
  with ok None show ?thesis
    by (auto simp: manager_ok_def sm_get_or_create_def update_fresh)
qed (simp add: sm_get_or_create_def)

lemma manager_ok_remove [model_inv]: "manager_ok m \<Longrightarrow> manager_ok (sm_remove name m)"
  by (auto simp: manager_ok_def sm_remove_def AList.delete_eq distinct_map_filter)

text \<open>
  The same name yields the same signal until it is removed, different names yield
  different signals, and asking for an existing name with other argument types is an unchecked
  cast.
\<close>

theorem manager_sharing:
  assumes "manager_ok m" "sm_get_or_create ty name m = (Inr h, m')"
  shows "sm_get_or_create ty name m' = (Inr h, m') \<and> sm_has name m' \<and>
    (\<forall>ty'. ty' \<noteq> ty \<longrightarrow> fst (sm_get_or_create ty' name m') = Inl ()) \<and>
    (\<forall>name' ty' h' m''. name' \<noteq> name \<longrightarrow> sm_get_or_create ty' name' m' = (Inr h', m'') \<longrightarrow> h' \<noteq> h)"
proof -
  have ok: "manager_ok m'" using manager_ok_get [OF assms(1), of ty name] assms(2) by simp
  have h: "um_find (sm_names m') name = Some h" "sm_types m' ! h = ty"
    using assms(2) by (auto simp: sm_get_or_create_def split: option.splits if_splits)
  then have lt: "h < length (sm_types m')" using ok by (auto simp: manager_ok_def dest!: map_of_SomeD)
  have "h' \<noteq> h" if "name' \<noteq> name" "sm_get_or_create ty' name' m' = (Inr h', m'')" for name' ty' h' m''
  proof (cases "um_find (sm_names m') name'")
    case None
    with that lt show ?thesis by (auto simp: sm_get_or_create_def)
  next
    case (Some k)
    with that have "k = h'" by (auto simp: sm_get_or_create_def split: if_splits)
    with Some h have "(name', h') \<in> set (sm_names m')" "(name, h) \<in> set (sm_names m')"
      by (auto dest: map_of_SomeD)
    with that(1) ok show ?thesis by (fastforce simp: manager_ok_def distinct_map inj_on_def)
  qed
  with h show ?thesis by (auto simp: sm_get_or_create_def sm_has_def)
qed

theorem manager_sharing_witness:
  "fst (sm_get_or_create True ''s'' (snd (sm_get_or_create False ''s'' manager_new))) = Inl ()"
proof -
  have "sm_get_or_create False ''s'' manager_new = (Inr 0, \<lparr>sm_names = [(''s'', 0)], sm_types = [False]\<rparr>)"
    by (simp add: sm_get_or_create_def manager_new_def)
  from manager_sharing [OF manager_ok_new this] show ?thesis
    by (simp add: sm_get_or_create_def manager_new_def)
qed

end
