(* ===== verification/SignalThreads.thy ===== *)
theory SignalThreads
  imports SignalSlot
begin

text \<open>
  \<open>Signal\<close> of \<open>include/lwipc/signal_slot.hpp\<close> with many threads. \<open>connect\<close> draws its identifier before
  it takes the mutex, so there are two steps; the other operations hold the mutex all the time.
  \<open>emit\<close> also holds it while it calls the slots, one step for each, and these do not use the
  signal themselves (they would block, as \<open>signal_reentry_deadlock\<close> shows).
\<close>

section \<open>State and steps\<close>

text \<open>In \<open>Emitting k\<close> the next slot that \<open>emit\<close> looks at is number \<open>k\<close>.\<close>

datatype 'cb sig_pc = SigIdle | Connecting u64 'cb | Emitting nat

text \<open>
  \<open>gt_holder\<close> is the thread that holds \<open>mutex_\<close> during an emission. The rest is history: the
  identifiers that \<open>connect\<close> has returned, those of them that a finished \<open>disconnect\<close> or
  \<open>disconnectAll\<close> has cut (a \<open>Connection\<close> can be made from any number), the slots called, and how many had been called before the current emission.
\<close>

record 'cb sig_threads =
  gt_signal :: "'cb signal"
  gt_pc :: "nat \<Rightarrow> 'cb sig_pc"
  gt_holder :: "nat option"
  gt_returned :: "u64 set"
  gt_cut :: "u64 set"
  gt_called :: "u64 list"
  gt_before :: nat

definition sig_start :: "'cb sig_threads \<Rightarrow> bool" where
  "sig_start s \<longleftrightarrow> gt_signal s = signal_new \<and> (\<forall>i. gt_pc s i = SigIdle) \<and> gt_holder s = None \<and>
     gt_returned s = {} \<and> gt_cut s = {} \<and> gt_called s = []"

definition sig_push :: "u64 \<Rightarrow> 'cb \<Rightarrow> 'cb signal \<Rightarrow> 'cb signal" where
  "sig_push j cb g = g\<lparr>sg_slots := sg_slots g @ [\<lparr>sl_id = j, sl_callback = cb, sl_valid = True\<rparr>],
     sg_active := sg_active g + 1\<rparr>"

inductive sig_step :: "'cb sig_threads \<Rightarrow> 'cb sig_threads \<Rightarrow> bool" where
  sig_fetch: "gt_pc s i = SigIdle \<Longrightarrow> unat (sg_next_id (gt_signal s)) < 2 ^ 64 - 1 \<Longrightarrow>
     sig_step s (s\<lparr>gt_signal := (gt_signal s)\<lparr>sg_next_id := sg_next_id (gt_signal s) + 1\<rparr>,
       gt_pc := (gt_pc s)(i := Connecting (sg_next_id (gt_signal s)) cb)\<rparr>)"
| sig_connect: "gt_pc s i = Connecting j cb \<Longrightarrow> gt_holder s = None \<Longrightarrow>
     sig_step s (s\<lparr>gt_signal := sig_push j cb (gt_signal s), gt_pc := (gt_pc s)(i := SigIdle),
       gt_returned := insert j (gt_returned s)\<rparr>)"
| sig_disconnect: "gt_pc s i = SigIdle \<Longrightarrow> gt_holder s = None \<Longrightarrow>
     sig_step s (s\<lparr>gt_signal := sg_disconnect \<lparr>cx_id = j, cx_valid = True\<rparr> (gt_signal s),
       gt_cut := gt_cut s \<union> {j} \<inter> gt_returned s\<rparr>)"
| sig_disconnect_all: "gt_pc s i = SigIdle \<Longrightarrow> gt_holder s = None \<Longrightarrow>
     sig_step s (s\<lparr>gt_signal := sg_disconnect_all (gt_signal s),
       gt_cut := gt_cut s \<union> sl_id ` set (sg_slots (gt_signal s))\<rparr>)"
| sig_emit: "gt_pc s i = SigIdle \<Longrightarrow> gt_holder s = None \<Longrightarrow>
     sig_step s (s\<lparr>gt_pc := (gt_pc s)(i := Emitting 0), gt_holder := Some i, gt_before := length (gt_called s)\<rparr>)"
| sig_call: "gt_pc s i = Emitting k \<Longrightarrow> k < length (sg_slots (gt_signal s)) \<Longrightarrow>
     sl_valid (sg_slots (gt_signal s) ! k) \<Longrightarrow>
     sig_step s (s\<lparr>gt_pc := (gt_pc s)(i := Emitting (Suc k)),
       gt_called := gt_called s @ [sl_id (sg_slots (gt_signal s) ! k)]\<rparr>)"
| sig_skip: "gt_pc s i = Emitting k \<Longrightarrow> k < length (sg_slots (gt_signal s)) \<Longrightarrow>
     \<not> sl_valid (sg_slots (gt_signal s) ! k) \<Longrightarrow>
     sig_step s (s\<lparr>gt_pc := (gt_pc s)(i := Emitting (Suc k))\<rparr>)"
| sig_unlock: "gt_pc s i = Emitting k \<Longrightarrow> k = length (sg_slots (gt_signal s)) \<Longrightarrow>
     sig_step s (s\<lparr>gt_pc := (gt_pc s)(i := SigIdle), gt_holder := None\<rparr>)"

text \<open>The two halves of \<open>connect\<close> one after the other are the \<open>connect\<close> of one thread.\<close>

lemma sig_connect_halves:
  "snd (sg_connect cb g) = sig_push (sg_next_id g) cb (g\<lparr>sg_next_id := sg_next_id g + 1\<rparr>)"
  by (simp add: sg_connect_def sig_push_def Let_def)

section \<open>Invariant\<close>

text \<open>Identifiers are given out once; \<open>ids\<close> are those of the slots, \<open>gone\<close> those that are cut.\<close>

definition slots_ok :: "'cb slot_entry list \<Rightarrow> u64 \<Rightarrow> u64 set \<Rightarrow> u64 set \<Rightarrow> bool" where
  "slots_ok es next returned gone \<longleftrightarrow> distinct (map sl_id es) \<and> sl_id ` set es \<subseteq> returned \<and>
     (\<forall>e \<in> set es. sl_valid e \<longrightarrow> sl_id e \<notin> gone) \<and> gone \<subseteq> returned \<and> (\<forall>j \<in> returned. unat j < unat next)"

definition pcs_ok :: "(nat \<Rightarrow> 'cb sig_pc) \<Rightarrow> u64 \<Rightarrow> u64 set \<Rightarrow> bool" where
  "pcs_ok pc next returned \<longleftrightarrow> (\<forall>i j cb. pc i = Connecting j cb \<longrightarrow> j \<notin> returned \<and> unat j < unat next) \<and>
     (\<forall>i i' j cb cb'. pc i = Connecting j cb \<and> pc i' = Connecting j cb' \<longrightarrow> i = i')"

definition emission_ok :: "'cb sig_threads \<Rightarrow> bool" where
  "emission_ok s \<longleftrightarrow> (\<forall>i k. gt_pc s i = Emitting k \<longrightarrow> gt_holder s = Some i \<and> k \<le> length (sg_slots (gt_signal s)) \<and>
     gt_before s \<le> length (gt_called s) \<and>
     drop (gt_before s) (gt_called s) = map sl_id (filter sl_valid (take k (sg_slots (gt_signal s)))))"

definition sig_inv :: "'cb sig_threads \<Rightarrow> bool" where
  "sig_inv s \<longleftrightarrow> slots_ok (sg_slots (gt_signal s)) (sg_next_id (gt_signal s)) (gt_returned s) (gt_cut s) \<and>
     pcs_ok (gt_pc s) (sg_next_id (gt_signal s)) (gt_returned s) \<and>
     sg_active (gt_signal s) = of_nat (length (live (gt_signal s))) \<and> emission_ok s"

lemma slots_ok_next: "slots_ok es n r c \<Longrightarrow> unat n \<le> unat n' \<Longrightarrow> slots_ok es n' r c"
  by (auto simp: slots_ok_def)

lemma slots_ok_push:
  assumes "slots_ok es n r c" "j \<notin> r" "unat j < unat n"
  shows "slots_ok (es @ [\<lparr>sl_id = j, sl_callback = cb, sl_valid = True\<rparr>]) n (insert j r) c"
  using assms by (auto simp: slots_ok_def)

lemma clear_slot_set:
  "e \<in> set (fst (clear_slot j es n)) \<Longrightarrow> sl_valid e \<Longrightarrow> distinct (map sl_id es) \<Longrightarrow> e \<in> set es \<and> sl_id e \<noteq> j"
proof -
  assume "e \<in> set (fst (clear_slot j es n))" "sl_valid e" "distinct (map sl_id es)"
  then have "e \<in> set (filter sl_valid (fst (clear_slot j es n)))" by simp
  then show ?thesis unfolding clear_slot_live [OF \<open>distinct (map sl_id es)\<close>] by auto
qed

lemma slots_ok_clear:
  assumes "slots_ok es n r c"
  shows "slots_ok (fst (clear_slot j es m)) n r (c \<union> {j} \<inter> r)"
proof -
  have "sl_id ` set (fst (clear_slot j es m)) = sl_id ` set es"
    by (metis clear_slot_ids list.set_map)
  moreover have "sl_id e \<notin> c \<union> {j} \<inter> r" if "e \<in> set (fst (clear_slot j es m))" "sl_valid e" for e
    using clear_slot_set [OF that] assms that(2) by (auto simp: slots_ok_def)
  ultimately show ?thesis using assms by (auto simp: slots_ok_def clear_slot_ids)
qed

lemma slots_ok_clear_all: "slots_ok es n r c \<Longrightarrow> slots_ok [] n r (c \<union> sl_id ` set es)"
  by (auto simp: slots_ok_def)

lemma pcs_ok_idle: "pcs_ok pc n r \<Longrightarrow> c = SigIdle \<or> (\<exists>k. c = Emitting k) \<Longrightarrow> pcs_ok (pc(i := c)) n r"
  by (auto simp: pcs_ok_def split: if_splits)

lemma pcs_ok_fetch:
  assumes "pcs_ok pc n r" "unat (n + 1) = unat n + 1" "n \<notin> r"
  shows "pcs_ok (pc(i := Connecting n cb)) (n + 1) r"
  using assms unfolding pcs_ok_def by (auto split: if_splits simp: less_Suc_eq)

lemma pcs_ok_return:
  assumes "pcs_ok pc n r" "pc i = Connecting j cb"
  shows "pcs_ok (pc(i := SigIdle)) n (insert j r)"
  using assms unfolding pcs_ok_def by (auto split: if_splits)

lemma emission_free: "gt_holder s = None \<Longrightarrow> emission_ok s \<Longrightarrow> gt_pc s i \<noteq> Emitting k"
  by (auto simp: emission_ok_def)

lemma active_push:
  "sg_active g = of_nat (length (live g)) \<Longrightarrow> sg_active (sig_push j cb g) = of_nat (length (live (sig_push j cb g)))"
  by (simp add: sig_push_def live_def)

lemma active_disconnect:
  assumes "sg_active g = of_nat (length (live g))" "distinct (map sl_id (sg_slots g))"
  shows "sg_active (sg_disconnect c g) = of_nat (length (live (sg_disconnect c g)))"
  using assms(1) clear_slot_active [OF assms(2), of "cx_id c" "sg_active g"]
  by (simp add: sg_disconnect_def live_def case_prod_beta)

lemma active_disconnect_all:
  "sg_active g = of_nat (length (live g)) \<Longrightarrow> sg_active (sg_disconnect_all g) = of_nat (length (live (sg_disconnect_all g)))"
  by (simp add: sg_disconnect_all_def live_def fold_active)

lemma sig_invD:
  assumes "sig_inv s"
  shows "slots_ok (sg_slots (gt_signal s)) (sg_next_id (gt_signal s)) (gt_returned s) (gt_cut s)"
    and "pcs_ok (gt_pc s) (sg_next_id (gt_signal s)) (gt_returned s)"
    and "sg_active (gt_signal s) = of_nat (length (live (gt_signal s)))"
    and "emission_ok s"
  using assms by (simp_all add: sig_inv_def)

lemma slots_ok_distinct: "slots_ok es n r c \<Longrightarrow> distinct (map sl_id es)"
  by (simp add: slots_ok_def)

lemma slots_ok_returned: "slots_ok es n r c \<Longrightarrow> j \<in> r \<Longrightarrow> unat j < unat n"
  by (simp add: slots_ok_def)

text \<open>One thread emits at a time; it advances slot by slot.\<close>

lemma emission_holder: "emission_ok s \<Longrightarrow> gt_pc s i = Emitting k \<Longrightarrow> gt_holder s = Some i"
  by (simp add: emission_ok_def)

lemma emission_alone: "emission_ok s \<Longrightarrow> gt_pc s i = Emitting k \<Longrightarrow> gt_pc s j = Emitting k' \<Longrightarrow> j = i"
  using emission_holder [of s i k] emission_holder [of s j k'] by simp

lemma emission_next:
  assumes "emission_ok s" "gt_pc s i = Emitting k" "k < length (sg_slots (gt_signal s))"
    and "gt_called t = gt_called s @ (if sl_valid (sg_slots (gt_signal s) ! k) then [sl_id (sg_slots (gt_signal s) ! k)] else [])"
    and "gt_pc t = (gt_pc s)(i := Emitting (Suc k))" "gt_signal t = gt_signal s" "gt_holder t = gt_holder s"
    and "gt_before t = gt_before s"
  shows "emission_ok t"
proof -
  have only: "j = i" if "gt_pc s j = Emitting k'" for j k'
    by (rule emission_alone [OF assms(1,2) that])
  have "gt_holder s = Some i" "gt_before s \<le> length (gt_called s)"
    "drop (gt_before s) (gt_called s) = map sl_id (filter sl_valid (take k (sg_slots (gt_signal s))))"
    using assms(1,2) by (auto simp: emission_ok_def)
  with assms(3-) only show ?thesis
    by (auto simp: emission_ok_def take_Suc_conv_app_nth split: if_splits)
qed

text \<open>Without an emission under way, only the table and the identifiers matter.\<close>

lemma emission_okI: "(\<And>i k. gt_pc s i \<noteq> Emitting k) \<Longrightarrow> emission_ok s"
  by (simp add: emission_ok_def)

lemma sig_fetch_inv:
  assumes inv: "sig_inv s" and idle: "gt_pc s i = SigIdle" and few: "unat (sg_next_id (gt_signal s)) < 2 ^ 64 - 1"
  shows "sig_inv (s\<lparr>gt_signal := (gt_signal s)\<lparr>sg_next_id := sg_next_id (gt_signal s) + 1\<rparr>,
       gt_pc := (gt_pc s)(i := Connecting (sg_next_id (gt_signal s)) cb)\<rparr>)"
proof -
  let ?n = "sg_next_id (gt_signal s)"
  have nxt: "unat (?n + 1) = unat ?n + 1" using few by (simp add: unat_word_ariths)
  have fresh: "?n \<notin> gt_returned s" using slots_ok_returned [OF sig_invD(1) [OF inv]] by blast
  have "slots_ok (sg_slots (gt_signal s)) (?n + 1) (gt_returned s) (gt_cut s)"
    by (rule slots_ok_next [OF sig_invD(1) [OF inv]]) (simp add: nxt)
  moreover have "pcs_ok ((gt_pc s)(i := Connecting ?n cb)) (?n + 1) (gt_returned s)"
    by (rule pcs_ok_fetch [OF sig_invD(2) [OF inv] nxt fresh])
  ultimately show ?thesis using sig_invD(3,4) [OF inv] idle
    by (auto simp: sig_inv_def emission_ok_def live_def)
qed

lemma sig_connect_inv:
  assumes inv: "sig_inv s" and pc: "gt_pc s i = Connecting j cb" and free: "gt_holder s = None"
  shows "sig_inv (s\<lparr>gt_signal := sig_push j cb (gt_signal s), gt_pc := (gt_pc s)(i := SigIdle),
       gt_returned := insert j (gt_returned s)\<rparr>)"
proof -
  have "j \<notin> gt_returned s" "unat j < unat (sg_next_id (gt_signal s))"
    using sig_invD(2) [OF inv] pc by (auto simp: pcs_ok_def)
  from slots_ok_push [OF sig_invD(1) [OF inv] this, of cb] active_push [OF sig_invD(3) [OF inv], of j cb]
    pcs_ok_return [OF sig_invD(2) [OF inv] pc] emission_free [OF free sig_invD(4) [OF inv]]
  show ?thesis by (auto simp: sig_inv_def sig_push_def intro!: emission_okI split: if_splits)
qed

lemma sig_disconnect_inv:
  assumes inv: "sig_inv s" and free: "gt_holder s = None"
  shows "sig_inv (s\<lparr>gt_signal := sg_disconnect \<lparr>cx_id = j, cx_valid = True\<rparr> (gt_signal s),
       gt_cut := gt_cut s \<union> {j} \<inter> gt_returned s\<rparr>)"
proof -
  let ?g = "sg_disconnect \<lparr>cx_id = j, cx_valid = True\<rparr> (gt_signal s)"
  have "sg_slots ?g = fst (clear_slot j (sg_slots (gt_signal s)) (sg_active (gt_signal s)))"
    "sg_next_id ?g = sg_next_id (gt_signal s)"
    by (simp_all add: sg_disconnect_def case_prod_beta)
  then show ?thesis
    using slots_ok_clear [OF sig_invD(1) [OF inv], of j "sg_active (gt_signal s)"] sig_invD(2) [OF inv]
      active_disconnect [OF sig_invD(3) [OF inv] slots_ok_distinct [OF sig_invD(1) [OF inv]],
        of "\<lparr>cx_id = j, cx_valid = True\<rparr>"] emission_free [OF free sig_invD(4) [OF inv]]
    by (simp add: sig_inv_def emission_okI)
qed

lemma sig_disconnect_all_inv:
  assumes inv: "sig_inv s" and free: "gt_holder s = None"
  shows "sig_inv (s\<lparr>gt_signal := sg_disconnect_all (gt_signal s),
       gt_cut := gt_cut s \<union> sl_id ` set (sg_slots (gt_signal s))\<rparr>)"
  using slots_ok_clear_all [OF sig_invD(1) [OF inv]] sig_invD(2) [OF inv]
    active_disconnect_all [OF sig_invD(3) [OF inv]] emission_free [OF free sig_invD(4) [OF inv]]
  by (auto simp: sig_inv_def sg_disconnect_all_def intro!: emission_okI)

lemma sig_step_inv [model_inv]: "sig_step s t \<Longrightarrow> sig_inv s \<Longrightarrow> sig_inv t"
proof (induction rule: sig_step.induct)
  case (sig_fetch s i cb)
  then show ?case by (simp add: sig_fetch_inv)
next
  case (sig_connect s i j cb)
  then show ?case by (simp add: sig_connect_inv)
next
  case (sig_disconnect s i j)
  then show ?case by (simp add: sig_disconnect_inv)
next
  case (sig_disconnect_all s i)
  then show ?case by (simp add: sig_disconnect_all_inv)
next
  case (sig_emit s i)
  with sig_invD [OF sig_emit(3)] emission_free [OF sig_emit(2) sig_invD(4) [OF sig_emit(3)]]
  show ?case by (auto simp: sig_inv_def emission_ok_def pcs_ok_idle)
next
  case (sig_call s i k)
  let ?t = "s\<lparr>gt_pc := (gt_pc s)(i := Emitting (Suc k)), gt_called := gt_called s @ [sl_id (sg_slots (gt_signal s) ! k)]\<rparr>"
  have "emission_ok ?t" by (rule emission_next [OF sig_invD(4) [OF sig_call(4)] sig_call(1,2)]) (use sig_call(3) in simp_all)
  with sig_invD [OF sig_call(4)] show ?case by (simp add: sig_inv_def pcs_ok_idle)
next
  case (sig_skip s i k)
  let ?t = "s\<lparr>gt_pc := (gt_pc s)(i := Emitting (Suc k))\<rparr>"
  have "emission_ok ?t" by (rule emission_next [OF sig_invD(4) [OF sig_skip(4)] sig_skip(1,2)]) (use sig_skip(3) in simp_all)
  with sig_invD [OF sig_skip(4)] show ?case by (simp add: sig_inv_def pcs_ok_idle)
next
  case (sig_unlock s i k)
  have "emission_ok (s\<lparr>gt_pc := (gt_pc s)(i := SigIdle), gt_holder := None\<rparr>)"
    using emission_alone [OF sig_invD(4) [OF sig_unlock(3)] sig_unlock(1)]
    by (intro emission_okI) auto
  with sig_invD [OF sig_unlock(3)] show ?case by (simp add: sig_inv_def pcs_ok_idle)
qed

lemma sig_start_inv: "sig_start s \<Longrightarrow> sig_inv s"
  by (auto simp: sig_start_def sig_inv_def slots_ok_def pcs_ok_def emission_ok_def signal_new_def live_def)

interpretation sgm: safe_machine sig_start sig_step sig_inv
  by unfold_locales (erule sig_start_inv, erule (1) sig_step_inv [rotated])

section \<open>What the threads see\<close>

text \<open>Once cut, an identifier stays cut, and its slot is not called.\<close>

lemma cut_not_called:
  assumes "sig_inv s" "sig_step s t" "j \<in> gt_cut s"
  shows "j \<in> gt_cut t \<and> filter (\<lambda>x. x = j) (gt_called t) = filter (\<lambda>x. x = j) (gt_called s)"
  using assms(2)
proof cases
  case (sig_call i k)
  then have "sg_slots (gt_signal s) ! k \<in> set (sg_slots (gt_signal s))" by simp
  with sig_invD(1) [OF assms(1)] sig_call(4) assms(3) have "sl_id (sg_slots (gt_signal s) ! k) \<noteq> j"
    by (auto simp: slots_ok_def)
  with sig_call assms(3) show ?thesis by simp
qed (use assms(3) in simp_all)

text \<open>
  C19. When \<open>disconnect\<close> or \<open>disconnectAll\<close> has returned, the slots it cut are not called any more,
  whatever the threads do: \<open>emit\<close> holds the mutex, so there is no late call.
\<close>

theorem signal_threads_cut:
  assumes "sig_start s" "sig_step\<^sup>*\<^sup>* s t" "j \<in> gt_cut t" "sig_step\<^sup>*\<^sup>* t u"
  shows "filter (\<lambda>x. x = j) (gt_called u) = filter (\<lambda>x. x = j) (gt_called t)"
proof -
  have inv: "sig_inv t" by (rule sgm.reach_inv [OF assms(1,2)])
  from assms(4) have "j \<in> gt_cut u \<and> filter (\<lambda>x. x = j) (gt_called u) = filter (\<lambda>x. x = j) (gt_called t)"
  proof (induction rule: rtranclp_induct)
    case (step v w)
    with cut_not_called [OF sgm.reach_inv_from [OF step.hyps(1) inv] step.hyps(2), of j] show ?case by simp
  qed (use assms(3) in simp)
  then show ?thesis ..
qed

text \<open>
  An emission calls the slots connected when it began, each once and in the order in which
  they took the mutex, and \<open>active_count_\<close> is their number whenever a thread could look.
\<close>

theorem signal_threads_emit:
  assumes "sig_start s" "sig_step\<^sup>*\<^sup>* s t"
    and "gt_pc t i = Emitting k" "k = length (sg_slots (gt_signal t))"
  shows "drop (gt_before t) (gt_called t) = map fst (live (gt_signal t)) \<and>
     sg_active (gt_signal t) = of_nat (length (drop (gt_before t) (gt_called t)))"
proof -
  have inv: "sig_inv t" by (rule sgm.reach_inv [OF assms(1,2)])
  have "drop (gt_before t) (gt_called t) = map fst (live (gt_signal t))"
    using sig_invD(4) [OF inv] assms(3,4) by (auto simp: emission_ok_def live_def)
  with sig_invD(3) [OF inv] show ?thesis by simp
qed

subsection \<open>A slot that is called, cut, and not called again\<close>

definition sg_demo :: "nat slot_entry list \<Rightarrow> nat sig_pc \<Rightarrow> nat option \<Rightarrow> u64 set \<Rightarrow> u64 set \<Rightarrow> u64 list \<Rightarrow> nat \<Rightarrow> nat sig_threads" where
  "sg_demo es pc h ret gone called before = \<lparr>gt_signal = \<lparr>sg_slots = es, sg_next_id = 2, sg_active = of_nat (length (filter sl_valid es))\<rparr>,
     gt_pc = (\<lambda>_. SigIdle)(0 := pc), gt_holder = h, gt_returned = ret, gt_cut = gone, gt_called = called, gt_before = before\<rparr>"

definition sg_demo_start :: "nat sig_threads" where
  "sg_demo_start = (sg_demo [] SigIdle None {} {} [] 0)\<lparr>gt_signal := signal_new\<rparr>"

abbreviation demo_slot :: "bool \<Rightarrow> nat slot_entry" where
  "demo_slot valid \<equiv> \<lparr>sl_id = 1, sl_callback = 7, sl_valid = valid\<rparr>"

lemma sg_demo_called: "sig_step\<^sup>*\<^sup>* sg_demo_start (sg_demo [demo_slot True] SigIdle None {1} {} [1] 0)"
proof -
  let ?s = "sg_demo [demo_slot True]"
  have "sig_step sg_demo_start (sg_demo [] (Connecting 1 7) None {} {} [] 0)"
    using sig_fetch [of sg_demo_start 0 7] by (simp add: sg_demo_start_def sg_demo_def signal_new_def)
  moreover have "sig_step (sg_demo [] (Connecting 1 7) None {} {} [] 0) (?s SigIdle None {1} {} [] 0)"
    using sig_connect [of "sg_demo [] (Connecting 1 7) None {} {} [] 0" 0 1 7] by (simp add: sg_demo_def sig_push_def)
  moreover have "sig_step (?s SigIdle None {1} {} [] 0) (?s (Emitting 0) (Some 0) {1} {} [] 0)"
    using sig_emit [of "?s SigIdle None {1} {} [] 0" 0] by (simp add: sg_demo_def)
  moreover have "sig_step (?s (Emitting 0) (Some 0) {1} {} [] 0) (?s (Emitting 1) (Some 0) {1} {} [1] 0)"
    using sig_call [of "?s (Emitting 0) (Some 0) {1} {} [] 0" 0 0] by (simp add: sg_demo_def)
  moreover have "sig_step (?s (Emitting 1) (Some 0) {1} {} [1] 0) (?s SigIdle None {1} {} [1] 0)"
    using sig_unlock [of "?s (Emitting 1) (Some 0) {1} {} [1] 0" 0 1] by (simp add: sg_demo_def)
  ultimately show ?thesis by (meson rtranclp.rtrancl_refl rtranclp.rtrancl_into_rtrancl)
qed

lemma sg_demo_cut: "sig_step\<^sup>*\<^sup>* sg_demo_start (sg_demo [demo_slot False] SigIdle None {1} {1} [1] 0)"
proof -
  have "sig_step (sg_demo [demo_slot True] SigIdle None {1} {} [1] 0) (sg_demo [demo_slot False] SigIdle None {1} {1} [1] 0)"
    using sig_disconnect [of "sg_demo [demo_slot True] SigIdle None {1} {} [1] 0" 0 1]
    by (simp add: sg_demo_def sg_disconnect_def)
  with sg_demo_called show ?thesis by (rule rtranclp.rtrancl_into_rtrancl)
qed

lemma sg_demo_again:
  "sig_step\<^sup>*\<^sup>* (sg_demo [demo_slot False] SigIdle None {1} {1} [1] 0) (sg_demo [demo_slot False] (Emitting 1) (Some 0) {1} {1} [1] 1)"
proof -
  let ?s = "sg_demo [demo_slot False]"
  have "sig_step (?s SigIdle None {1} {1} [1] 0) (?s (Emitting 0) (Some 0) {1} {1} [1] 1)"
    using sig_emit [of "?s SigIdle None {1} {1} [1] 0" 0] by (simp add: sg_demo_def)
  moreover have "sig_step (?s (Emitting 0) (Some 0) {1} {1} [1] 1) (?s (Emitting 1) (Some 0) {1} {1} [1] 1)"
    using sig_skip [of "?s (Emitting 0) (Some 0) {1} {1} [1] 1" 0 0] by (simp add: sg_demo_def)
  ultimately show ?thesis by (meson rtranclp.rtrancl_refl rtranclp.rtrancl_into_rtrancl)
qed

lemma sg_demo_start_ok: "sig_start sg_demo_start"
  by (simp add: sig_start_def sg_demo_start_def sg_demo_def)

theorem signal_threads_cut_witness:
  "filter (\<lambda>x. x = 1) (gt_called (sg_demo [demo_slot False] (Emitting 1) (Some 0) {1} {1} [1] 1)) = [1]"
  using signal_threads_cut [OF sg_demo_start_ok sg_demo_cut _ sg_demo_again, of 1] by (simp add: sg_demo_def)

end
