(* ===== verification/SpscRing.thy ===== *)
theory SpscRing
  imports Interfaces
begin

text \<open>
  \<open>include/lwipc/ring_buffer_spsc.hpp\<close>: the single-producer single-consumer ring.
  First each operation as one call (the sequential model), then the two threads interleaved
  at their atomic accesses (the concurrent model).

  Indices are \<open>nat\<close>: they stay below \<open>Capacity\<close>, so \<open>idx + 1\<close> never reaches
  \<open>2 ^ 64\<close>. \<open>moved\<close> is what a move leaves behind in an element, which the language
  leaves unspecified; every result holds for any such function.
\<close>

section \<open>Sequential model\<close>

record 'a spsc =
  sp_buffer :: "'a list"
  sp_head :: nat
  sp_tail :: nat

definition sp_capacity :: "'a spsc \<Rightarrow> nat" where
  "sp_capacity q = length (sp_buffer q)"

definition spsc_new :: "nat \<Rightarrow> 'a \<Rightarrow> 'a spsc" where
  "spsc_new cap d = \<lparr>sp_buffer = replicate cap d, sp_head = 0, sp_tail = 0\<rparr>"

definition sp_increment :: "nat \<Rightarrow> nat \<Rightarrow> nat" where
  "sp_increment cap idx = (idx + 1) mod cap"

definition spsc_try_push :: "'a \<Rightarrow> 'a spsc \<Rightarrow> bool \<times> 'a spsc" where
  "spsc_try_push value q =
     (let head = sp_head q;
          next = sp_increment (sp_capacity q) head
      in if next = sp_tail q then (False, q)
         else (True, q\<lparr>sp_buffer := (sp_buffer q)[head := value], sp_head := next\<rparr>))"

text \<open>The rvalue overload: the caller's object is left moved-from when the push succeeds.\<close>

definition spsc_try_push_move :: "('a \<Rightarrow> 'a) \<Rightarrow> 'a \<Rightarrow> 'a spsc \<Rightarrow> bool \<times> 'a \<times> 'a spsc" where
  "spsc_try_push_move moved value q =
     (let head = sp_head q;
          next = sp_increment (sp_capacity q) head
      in if next = sp_tail q then (False, value, q)
         else (True, moved value,
               q\<lparr>sp_buffer := (sp_buffer q)[head := value], sp_head := next\<rparr>))"

definition spsc_try_pop :: "('a \<Rightarrow> 'a) \<Rightarrow> 'a spsc \<Rightarrow> 'a option \<times> 'a spsc" where
  "spsc_try_pop moved q =
     (let tail = sp_tail q
      in if tail = sp_head q then (None, q)
         else let value = sp_buffer q ! tail
              in (Some value,
                  q\<lparr>sp_buffer := (sp_buffer q)[tail := moved value],
                    sp_tail := sp_increment (sp_capacity q) tail\<rparr>))"

definition spsc_empty :: "'a spsc \<Rightarrow> bool" where
  "spsc_empty q \<longleftrightarrow> sp_head q = sp_tail q"

text \<open>The class invariant and the queue a ring stands for.\<close>

definition spsc_wf :: "'a spsc \<Rightarrow> bool" where
  "spsc_wf q \<longleftrightarrow> 2 \<le> sp_capacity q \<and> sp_head q < sp_capacity q \<and> sp_tail q < sp_capacity q"

definition spsc_items :: "'a spsc \<Rightarrow> 'a list" where
  "spsc_items q = ring_view (sp_capacity q) (sp_tail q) (sp_head q) (nth (sp_buffer q))"

definition spsc_limit :: "'a spsc \<Rightarrow> nat" where
  "spsc_limit q = sp_capacity q - 1"

lemma spsc_capacity_push [simp]: "sp_capacity (snd (spsc_try_push x q)) = sp_capacity q"
  by (simp add: spsc_try_push_def sp_capacity_def Let_def)

lemma spsc_capacity_pop [simp]: "sp_capacity (snd (spsc_try_pop mv q)) = sp_capacity q"
  by (simp add: spsc_try_pop_def sp_capacity_def Let_def)

lemma spsc_push_wf [model_inv]: "spsc_wf q \<Longrightarrow> spsc_wf (snd (spsc_try_push x q))"
  by (auto simp: spsc_wf_def spsc_try_push_def sp_capacity_def sp_increment_def Let_def)

lemma spsc_pop_wf [model_inv]: "spsc_wf q \<Longrightarrow> spsc_wf (snd (spsc_try_pop mv q))"
  by (auto simp: spsc_wf_def spsc_try_pop_def sp_capacity_def sp_increment_def Let_def)

lemma spsc_new_wf: "2 \<le> cap \<Longrightarrow> spsc_wf (spsc_new cap d)"
  by (simp add: spsc_wf_def spsc_new_def sp_capacity_def)

lemma spsc_new_items: "2 \<le> cap \<Longrightarrow> spsc_items (spsc_new cap d) = []"
  by (simp add: spsc_items_def spsc_new_def sp_capacity_def)

lemma spsc_length_items: "spsc_wf q \<Longrightarrow> length (spsc_items q) \<le> spsc_limit q"
  using ring_count_less [of "sp_capacity q" "sp_tail q" "sp_head q"]
  by (simp add: spsc_items_def spsc_wf_def spsc_limit_def)

lemma spsc_empty_iff: "spsc_wf q \<Longrightarrow> spsc_empty q \<longleftrightarrow> spsc_items q = []"
  by (auto simp: spsc_empty_def spsc_items_def spsc_wf_def ring_view_Nil_iff)

lemma spsc_push_full:
  assumes "spsc_wf q" "length (spsc_items q) = spsc_limit q"
  shows "spsc_try_push x q = (False, q)"
  using assms
  by (simp add: spsc_wf_def spsc_items_def spsc_limit_def spsc_try_push_def sp_increment_def ring_full_iff Let_def)

lemma spsc_push_room:
  assumes "spsc_wf q" "length (spsc_items q) < spsc_limit q"
  shows "fst (spsc_try_push x q)" "spsc_items (snd (spsc_try_push x q)) = spsc_items q @ [x]"
proof -
  let ?n = "sp_capacity q" and ?h = "sp_head q" and ?t = "sp_tail q"
  have b: "?t < ?n" "?h < ?n" using assms(1) by (auto simp: spsc_wf_def)
  have ne: "Suc ?h mod ?n \<noteq> ?t"
    using assms(2) ring_full_iff [OF b] by (simp add: spsc_items_def spsc_limit_def)
  then show "fst (spsc_try_push x q)"
    by (simp add: spsc_try_push_def sp_increment_def Let_def)
  have "spsc_items (snd (spsc_try_push x q))
      = ring_view ?n ?t (Suc ?h mod ?n) (nth ((sp_buffer q)[?h := x]))"
    using ne by (simp add: spsc_try_push_def sp_increment_def spsc_items_def sp_capacity_def Let_def)
  also have "\<dots> = ring_view ?n ?t (Suc ?h mod ?n) ((nth (sp_buffer q))(?h := x))"
    using b by (intro ring_view_list_update) (auto simp: sp_capacity_def)
  also have "\<dots> = spsc_items q @ [x]"
    using b by (simp add: ring_view_push [OF b ne] spsc_items_def)
  finally show "spsc_items (snd (spsc_try_push x q)) = spsc_items q @ [x]" .
qed

lemma spsc_pop_empty: "spsc_wf q \<Longrightarrow> spsc_items q = [] \<Longrightarrow> spsc_try_pop mv q = (None, q)"
  by (auto simp: spsc_try_pop_def spsc_items_def spsc_wf_def ring_view_Nil_iff)

lemma spsc_pop_item:
  assumes "spsc_wf q" "spsc_items q = y # ys"
  shows "fst (spsc_try_pop mv q) = Some y" "spsc_items (snd (spsc_try_pop mv q)) = ys"
proof -
  let ?n = "sp_capacity q" and ?h = "sp_head q" and ?t = "sp_tail q"
  have b: "?t < ?n" "?h < ?n" using assms(1) by (auto simp: spsc_wf_def)
  have ne: "?t \<noteq> ?h" using assms(2) b by (auto simp: spsc_items_def)
  from ring_view_pop [OF b ne, of "nth (sp_buffer q)"] assms(2)
  have y: "sp_buffer q ! ?t = y" and ys: "ring_view ?n (Suc ?t mod ?n) ?h (nth (sp_buffer q)) = ys"
    by (auto simp: spsc_items_def)
  from y ne show "fst (spsc_try_pop mv q) = Some y" by (simp add: spsc_try_pop_def Let_def)
  have "spsc_items (snd (spsc_try_pop mv q))
      = ring_view ?n (Suc ?t mod ?n) ?h (nth ((sp_buffer q)[?t := mv y]))"
    using ne y by (simp add: spsc_try_pop_def sp_increment_def spsc_items_def sp_capacity_def Let_def)
  also have "\<dots> = ring_view ?n (Suc ?t mod ?n) ?h ((nth (sp_buffer q))(?t := mv y))"
    using b by (intro ring_view_list_update) (auto simp: sp_capacity_def)
  also have "\<dots> = ys" using b ne ys by simp
  finally show "spsc_items (snd (spsc_try_pop mv q)) = ys" .
qed

interpretation spq: bounded_queue spsc_try_push "spsc_try_pop mv" spsc_items spsc_limit "\<lambda>_. spsc_wf" "\<lambda>_ _. True"
  by unfold_locales
    (simp_all add: spsc_length_items spsc_push_room spsc_push_full spsc_pop_empty spsc_pop_item
       spsc_push_wf spsc_pop_wf, simp_all add: spsc_limit_def)

lemma spsc_push_move_eq:
  "spsc_try_push_move mv x q =
     (fst (spsc_try_push x q), if fst (spsc_try_push x q) then mv x else x, snd (spsc_try_push x q))"
  by (simp add: spsc_try_push_move_def spsc_try_push_def Let_def)

text \<open>
  C22. Over any sequence of pushes and pops on a ring, the values handed out followed by what
  is still queued are exactly the initial contents followed by the accepted values, in order;
  the ring stays well formed. No value is lost, duplicated, reordered or invented.
\<close>

theorem spsc_fifo:
  assumes "spsc_wf q" "queue_run spsc_try_push (spsc_try_pop moved) ops q = (acc, del, r)"
  shows "spsc_items q @ acc = del @ spsc_items r \<and> spsc_wf r"
  using spq.run_fifo [OF assms] by simp

theorem spsc_fifo_witness:
  "spsc_items (spsc_new 3 (0::nat)) @ [7, 8] = [7] @ spsc_items
      (snd (snd (queue_run spsc_try_push (spsc_try_pop id) [Enq 7, Enq 8, Enq 9, Deq] (spsc_new 3 (0::nat)))))"
proof -
  have new: "spsc_new 3 (0::nat) = \<lparr>sp_buffer = [0, 0, 0], sp_head = 0, sp_tail = 0\<rparr>"
    by (simp add: spsc_new_def numeral_3_eq_3)
  have run: "queue_run spsc_try_push (spsc_try_pop id) [Enq 7, Enq 8, Enq 9, Deq] (spsc_new 3 (0::nat))
      = ([7, 8], [7], \<lparr>sp_buffer = [7, 8, 0], sp_head = 2, sp_tail = 1\<rparr>)"
    by (simp add: new spsc_try_push_def spsc_try_pop_def sp_increment_def sp_capacity_def Let_def)
  from spsc_fifo [OF spsc_new_wf run] run show ?thesis by simp
qed

text \<open>
  A push succeeds exactly when fewer than \<open>Capacity - 1\<close> values are queued, a pop
  returns the oldest value, and neither touches the ring when it reports failure.
\<close>

theorem spsc_boundary:
  assumes "spsc_wf q"
  shows "(fst (spsc_try_push x q) \<longleftrightarrow> length (spsc_items q) < sp_capacity q - 1) \<and>
    (\<not> fst (spsc_try_push x q) \<longrightarrow> snd (spsc_try_push x q) = q) \<and>
    fst (spsc_try_pop moved q) = (if spsc_empty q then None else Some (hd (spsc_items q))) \<and>
    (spsc_empty q \<longrightarrow> snd (spsc_try_pop moved q) = q)"
proof (intro conjI)
  show "fst (spsc_try_push x q) \<longleftrightarrow> length (spsc_items q) < sp_capacity q - 1"
    using spq.enq_accepts_iff [OF assms] by (simp add: spsc_limit_def)
  show "\<not> fst (spsc_try_push x q) \<longrightarrow> snd (spsc_try_push x q) = q"
    by (auto simp: spsc_try_push_def Let_def split: if_splits)
  show "fst (spsc_try_pop moved q) = (if spsc_empty q then None else Some (hd (spsc_items q)))"
    using spsc_empty_iff [OF assms] spsc_pop_item [OF assms] spsc_pop_empty [OF assms]
    by (cases "spsc_items q") auto
  show "spsc_empty q \<longrightarrow> snd (spsc_try_pop moved q) = q"
    using spsc_empty_iff [OF assms] spsc_pop_empty [OF assms] by simp
qed

theorem spsc_boundary_witness:
  "fst (spsc_try_push 9 \<lparr>sp_buffer = [7, 8, 0::nat], sp_head = 2, sp_tail = 1\<rparr>)"
proof -
  have "spsc_wf \<lparr>sp_buffer = [7, 8, 0::nat], sp_head = 2, sp_tail = 1\<rparr>"
    by (simp add: spsc_wf_def sp_capacity_def)
  from spsc_boundary [OF this, of 9] show ?thesis
    by (simp add: spsc_items_def sp_capacity_def ring_count_def)
qed

end
