(* ===== verification/SpscThreads.thy ===== *)
theory SpscThreads
  imports SpscRing
begin

text \<open>
  The two threads of \<open>SpscRing\<close>, interleaved at every atomic load and store and at the plain
  accesses to \<open>buffer_\<close>. The steps of one call follow the statements of \<open>try_push\<close> and
  \<open>try_pop\<close>; the local variables of a thread are in its program counter. The
  acquire/release pairs on \<open>head_\<close> and \<open>tail_\<close> make the plain accesses ordered, which is
  what lets one global interleaving stand for the execution. \<open>sent\<close> and \<open>got\<close> record the
  values of the calls that returned true, or a value, in order.
\<close>

datatype 'a producer = PIdle | PLoaded 'a nat | PChecked 'a nat | PWritten 'a nat

datatype 'a consumer = CIdle | CLoaded nat | CChecked nat | CTaken 'a nat

record 'a spsc_sys =
  ss_ring :: "'a spsc"
  ss_prod :: "'a producer"
  ss_cons :: "'a consumer"
  ss_sent :: "'a list"
  ss_got :: "'a list"

definition spsc_start :: "'a spsc_sys \<Rightarrow> bool" where
  "spsc_start s \<longleftrightarrow> spsc_wf (ss_ring s) \<and> sp_head (ss_ring s) = 0 \<and> sp_tail (ss_ring s) = 0 \<and>
     ss_prod s = PIdle \<and> ss_cons s = CIdle \<and> ss_sent s = [] \<and> ss_got s = []"

inductive spsc_step :: "('a \<Rightarrow> 'a) \<Rightarrow> 'a spsc_sys \<Rightarrow> 'a spsc_sys \<Rightarrow> bool" for moved where
  push_call: "ss_prod s = PIdle \<Longrightarrow>
     spsc_step moved s (s\<lparr>ss_prod := PLoaded v (sp_head (ss_ring s))\<rparr>)"
| push_full: "ss_prod s = PLoaded v h \<Longrightarrow>
     sp_increment (sp_capacity (ss_ring s)) h = sp_tail (ss_ring s) \<Longrightarrow>
     spsc_step moved s (s\<lparr>ss_prod := PIdle\<rparr>)"
| push_room: "ss_prod s = PLoaded v h \<Longrightarrow>
     sp_increment (sp_capacity (ss_ring s)) h \<noteq> sp_tail (ss_ring s) \<Longrightarrow>
     spsc_step moved s (s\<lparr>ss_prod := PChecked v h\<rparr>)"
| push_write: "ss_prod s = PChecked v h \<Longrightarrow>
     spsc_step moved s (s\<lparr>ss_prod := PWritten v h,
       ss_ring := (ss_ring s)\<lparr>sp_buffer := (sp_buffer (ss_ring s))[h := v]\<rparr>\<rparr>)"
| push_publish: "ss_prod s = PWritten v h \<Longrightarrow>
     spsc_step moved s (s\<lparr>ss_prod := PIdle, ss_sent := ss_sent s @ [v],
       ss_ring := (ss_ring s)\<lparr>sp_head := sp_increment (sp_capacity (ss_ring s)) h\<rparr>\<rparr>)"
| pop_call: "ss_cons s = CIdle \<Longrightarrow>
     spsc_step moved s (s\<lparr>ss_cons := CLoaded (sp_tail (ss_ring s))\<rparr>)"
| pop_empty: "ss_cons s = CLoaded t \<Longrightarrow> t = sp_head (ss_ring s) \<Longrightarrow>
     spsc_step moved s (s\<lparr>ss_cons := CIdle\<rparr>)"
| pop_some: "ss_cons s = CLoaded t \<Longrightarrow> t \<noteq> sp_head (ss_ring s) \<Longrightarrow>
     spsc_step moved s (s\<lparr>ss_cons := CChecked t\<rparr>)"
| pop_take: "ss_cons s = CChecked t \<Longrightarrow>
     spsc_step moved s (s\<lparr>ss_cons := CTaken (sp_buffer (ss_ring s) ! t) t,
       ss_ring := (ss_ring s)\<lparr>sp_buffer := (sp_buffer (ss_ring s))[t := moved (sp_buffer (ss_ring s) ! t)]\<rparr>\<rparr>)"
| pop_release: "ss_cons s = CTaken v t \<Longrightarrow>
     spsc_step moved s (s\<lparr>ss_cons := CIdle, ss_got := ss_got s @ [v],
       ss_ring := (ss_ring s)\<lparr>sp_tail := sp_increment (sp_capacity (ss_ring s)) t\<rparr>\<rparr>)"

text \<open>What each program counter may assume about the shared ring.\<close>

fun prod_inv :: "'a spsc \<Rightarrow> 'a producer \<Rightarrow> bool" where
  "prod_inv q PIdle = True"
| "prod_inv q (PLoaded v h) = (h = sp_head q)"
| "prod_inv q (PChecked v h) = (h = sp_head q \<and> Suc h mod sp_capacity q \<noteq> sp_tail q)"
| "prod_inv q (PWritten v h) =
     (h = sp_head q \<and> Suc h mod sp_capacity q \<noteq> sp_tail q \<and> sp_buffer q ! h = v)"

fun cons_inv :: "'a spsc \<Rightarrow> 'a consumer \<Rightarrow> bool" where
  "cons_inv q CIdle = True"
| "cons_inv q (CLoaded t) = (t = sp_tail q)"
| "cons_inv q (CChecked t) = (t = sp_tail q \<and> t \<noteq> sp_head q)"
| "cons_inv q (CTaken v t) = (t = sp_tail q \<and> t \<noteq> sp_head q)"

text \<open>The values accepted and not yet delivered.\<close>

fun in_flight :: "'a spsc \<Rightarrow> 'a consumer \<Rightarrow> 'a list" where
  "in_flight q (CTaken v t) =
     v # ring_view (sp_capacity q) (Suc t mod sp_capacity q) (sp_head q) (nth (sp_buffer q))"
| "in_flight q _ = spsc_items q"

definition spsc_inv :: "'a spsc_sys \<Rightarrow> bool" where
  "spsc_inv s \<longleftrightarrow> spsc_wf (ss_ring s) \<and> prod_inv (ss_ring s) (ss_prod s) \<and>
     cons_inv (ss_ring s) (ss_cons s) \<and>
     ss_sent s = ss_got s @ in_flight (ss_ring s) (ss_cons s)"

text \<open>The ring after each of the four writes, with the facts the invariant needs of it.\<close>

lemma ring_publish:
  assumes "spsc_wf q" "Suc (sp_head q) mod sp_capacity q \<noteq> sp_tail q" "cons_inv q c"
  shows "in_flight (q\<lparr>sp_head := Suc (sp_head q) mod sp_capacity q\<rparr>) c
       = in_flight q c @ [sp_buffer q ! sp_head q]"
    and "cons_inv (q\<lparr>sp_head := Suc (sp_head q) mod sp_capacity q\<rparr>) c \<or> (\<exists>t. c = CLoaded t)"
proof -
  let ?n = "sp_capacity q" and ?h = "sp_head q" and ?t = "sp_tail q"
  have b: "?t < ?n" "?h < ?n" using assms(1) by (auto simp: spsc_wf_def)
  have t: "Suc ?h mod ?n \<noteq> Suc ?t mod ?n" if "?t \<noteq> ?h"
    using that b by (auto simp: ring_succ_alt split: if_splits)
  show "in_flight (q\<lparr>sp_head := Suc ?h mod ?n\<rparr>) c = in_flight q c @ [sp_buffer q ! ?h]"
    using assms(2,3) b t
    by (cases c) (auto simp: spsc_items_def sp_capacity_def ring_view_push)
  show "cons_inv (q\<lparr>sp_head := Suc ?h mod ?n\<rparr>) c \<or> (\<exists>t. c = CLoaded t)"
    using assms(2,3) by (cases c) auto
qed

lemma ring_write:
  assumes "spsc_wf q" "cons_inv q c"
  shows "in_flight (q\<lparr>sp_buffer := (sp_buffer q)[sp_head q := v]\<rparr>) c = in_flight q c"
proof -
  have b: "sp_tail q < sp_capacity q" "sp_head q < sp_capacity q" "0 < sp_capacity q"
    using assms(1) by (auto simp: spsc_wf_def)
  then show ?thesis
    using assms(2)
    by (cases c) (auto simp: spsc_items_def sp_capacity_def ring_view_list_update)
qed

lemma ring_take:
  assumes "spsc_wf q" "sp_tail q \<noteq> sp_head q"
  shows "in_flight (q\<lparr>sp_buffer := (sp_buffer q)[sp_tail q := w]\<rparr>)
           (CTaken (sp_buffer q ! sp_tail q) (sp_tail q)) = spsc_items q"
proof -
  have b: "sp_tail q < sp_capacity q" "sp_head q < sp_capacity q" "0 < sp_capacity q"
    using assms(1) by (auto simp: spsc_wf_def)
  with assms(2) show ?thesis
    using ring_view_pop [OF b(1,2) assms(2), of "nth (sp_buffer q)"]
    by (simp add: spsc_items_def sp_capacity_def ring_view_list_update)
qed

lemma spsc_step_inv [model_inv]: "spsc_step moved s t \<Longrightarrow> spsc_inv s \<Longrightarrow> spsc_inv t"
proof (induction rule: spsc_step.induct)
  case (push_publish s v h)
  then have wf: "spsc_wf (ss_ring s)" and h: "h = sp_head (ss_ring s)"
    and ne: "Suc h mod sp_capacity (ss_ring s) \<noteq> sp_tail (ss_ring s)"
    and v: "sp_buffer (ss_ring s) ! h = v" and c: "cons_inv (ss_ring s) (ss_cons s)"
    and sent: "ss_sent s = ss_got s @ in_flight (ss_ring s) (ss_cons s)"
    by (auto simp: spsc_inv_def)
  note rp = ring_publish [OF wf ne [unfolded h] c]
  from rp(2) c have "cons_inv ((ss_ring s)\<lparr>sp_head := Suc h mod sp_capacity (ss_ring s)\<rparr>) (ss_cons s)"
    by (auto simp: h)
  with rp(1) wf v sent h show ?case
    by (simp add: spsc_inv_def sp_increment_def spsc_wf_def sp_capacity_def)
next
  case (push_write s v h)
  then have wf: "spsc_wf (ss_ring s)" and h: "h = sp_head (ss_ring s)"
    and c: "cons_inv (ss_ring s) (ss_cons s)" by (auto simp: spsc_inv_def)
  have "cons_inv ((ss_ring s)\<lparr>sp_buffer := (sp_buffer (ss_ring s))[h := v]\<rparr>) (ss_cons s)"
    using c by (cases "ss_cons s") auto
  with push_write ring_write [OF wf c, of v] h show ?case
    by (auto simp: spsc_inv_def spsc_wf_def sp_capacity_def)
next
  case (pop_take s t)
  then have wf: "spsc_wf (ss_ring s)" and t: "t = sp_tail (ss_ring s)" "t \<noteq> sp_head (ss_ring s)"
    and p: "prod_inv (ss_ring s) (ss_prod s)" by (auto simp: spsc_inv_def)
  have "prod_inv ((ss_ring s)\<lparr>sp_buffer := (sp_buffer (ss_ring s))[t := w]\<rparr>) (ss_prod s)" for w
    using p t by (cases "ss_prod s") (auto simp: sp_capacity_def)
  with pop_take ring_take [OF wf] t show ?case
    by (auto simp: spsc_inv_def spsc_wf_def sp_capacity_def)
next
  case (pop_release s v t)
  then have wf: "spsc_wf (ss_ring s)" and t: "t = sp_tail (ss_ring s)" "t \<noteq> sp_head (ss_ring s)"
    and p: "prod_inv (ss_ring s) (ss_prod s)" by (auto simp: spsc_inv_def)
  have "prod_inv ((ss_ring s)\<lparr>sp_tail := Suc t mod sp_capacity (ss_ring s)\<rparr>) (ss_prod s)"
    using p t wf by (cases "ss_prod s") (auto simp: sp_capacity_def spsc_wf_def ring_succ_alt split: if_splits)
  with pop_release show ?case
    by (auto simp: spsc_inv_def spsc_wf_def sp_capacity_def spsc_items_def sp_increment_def)
qed (auto simp: spsc_inv_def sp_increment_def)

lemma spsc_start_inv: "spsc_start s \<Longrightarrow> spsc_inv s"
  by (auto simp: spsc_start_def spsc_inv_def spsc_items_def spsc_wf_def)

interpretation spm: safe_machine spsc_start "spsc_step moved" spsc_inv
  by unfold_locales (auto intro: spsc_start_inv spsc_step_inv)

lemma in_flight_bound:
  assumes "spsc_wf q" "cons_inv q c"
  shows "length (in_flight q c) < sp_capacity q"
proof (cases c)
  case (CTaken v t)
  with assms have "ring_count (sp_capacity q) t (sp_head q)
      = Suc (ring_count (sp_capacity q) (Suc t mod sp_capacity q) (sp_head q))"
    by (intro ring_count_pop) (auto simp: spsc_wf_def)
  with assms CTaken ring_count_less [of "sp_capacity q" t "sp_head q"] show ?thesis
    by (auto simp: spsc_wf_def)
qed (use assms ring_count_less [of "sp_capacity q" "sp_tail q" "sp_head q"] in
      \<open>auto simp: spsc_items_def spsc_wf_def\<close>)

lemma spsc_step_moves:
  "spsc_step moved s t \<Longrightarrow> sp_capacity (ss_ring t) = sp_capacity (ss_ring s) \<and>
    (ss_sent t = ss_sent s \<or> (\<exists>v. ss_sent t = ss_sent s @ [v]) \<and> ss_got t = ss_got s) \<and>
    (ss_got t = ss_got s \<or> (\<exists>v. ss_got t = ss_got s @ [v]) \<and> ss_sent t = ss_sent s)"
  by (erule spsc_step.cases) (simp_all add: sp_capacity_def)

lemma spsc_inv_pending: "spsc_inv s \<Longrightarrow> \<exists>rest. ss_sent s = ss_got s @ rest \<and> length rest \<le> sp_capacity (ss_ring s) - 1"
  using in_flight_bound [of "ss_ring s" "ss_cons s"] by (auto simp: spsc_inv_def)

interpretation spf: fifo_machine spsc_start "spsc_step moved" spsc_inv ss_sent ss_got "\<lambda>s. sp_capacity (ss_ring s) - 1"
  by unfold_locales (simp add: spsc_start_def, erule spsc_inv_pending, simp_all add: spsc_step_moves)

text \<open>
  One producer and one consumer thread implement a first-in first-out channel of
  \<open>Capacity - 1\<close> places: in every interleaving the values accepted and delivered are those of a
  run of that channel, so what is delivered is a prefix of what was accepted, in the same order,
  and fewer than \<open>Capacity\<close> values are in flight.
\<close>

theorem spsc_threads_fifo:
  assumes "spsc_start s" "(spsc_step moved)\<^sup>*\<^sup>* s t"
  shows "(fifo_step (sp_capacity (ss_ring t) - 1))\<^sup>*\<^sup>* ([], []) (ss_sent t, ss_got t) \<and>
    (\<exists>rest. ss_sent t = ss_got t @ rest \<and> length rest \<le> sp_capacity (ss_ring t) - 1)"
  using spf.refines [OF assms] spsc_inv_pending [OF spm.reach_inv [OF assms]] by blast

lemma spsc_demo_start:
  "spsc_start \<lparr>ss_ring = \<lparr>sp_buffer = [0, 0::nat], sp_head = 0, sp_tail = 0\<rparr>, ss_prod = PIdle,
     ss_cons = CIdle, ss_sent = [], ss_got = []\<rparr>"
  by (simp add: spsc_start_def spsc_wf_def sp_capacity_def)

text \<open>One push run to its publishing store, followed by the start of a pop.\<close>

lemma spsc_demo_run:
  "(spsc_step id)\<^sup>*\<^sup>* \<lparr>ss_ring = \<lparr>sp_buffer = [0, 0::nat], sp_head = 0, sp_tail = 0\<rparr>,
       ss_prod = PIdle, ss_cons = CIdle, ss_sent = [], ss_got = []\<rparr>
     \<lparr>ss_ring = \<lparr>sp_buffer = [5, 0], sp_head = 1, sp_tail = 0\<rparr>, ss_prod = PIdle,
      ss_cons = CIdle, ss_sent = [5], ss_got = []\<rparr>"
  apply (rule converse_rtranclp_into_rtranclp, rule push_call [where v = 5], simp)
  apply (rule converse_rtranclp_into_rtranclp, rule push_room, simp)
   apply (simp add: sp_increment_def sp_capacity_def)
  apply (rule converse_rtranclp_into_rtranclp, rule push_write, simp)
  apply (rule converse_rtranclp_into_rtranclp, rule push_publish, simp)
  apply (simp add: sp_increment_def sp_capacity_def)
  done

theorem spsc_threads_fifo_witness: "(fifo_step 1)\<^sup>*\<^sup>* ([], []) ([5::nat], [])"
  using spsc_threads_fifo [OF spsc_demo_start spsc_demo_run] by (simp add: sp_capacity_def)

text \<open>
  The two threads never touch the same element at the same time: whenever the producer is
  about to write \<open>buffer_[h]\<close> and the consumer is about to move out of \<open>buffer_[t]\<close>, the
  two indices differ and both are in range.
\<close>

theorem spsc_threads_race_free:
  assumes "spsc_start s" "(spsc_step moved)\<^sup>*\<^sup>* s u"
    and "ss_prod u = PChecked v h \<or> ss_prod u = PWritten v h" "ss_cons u = CChecked t"
  shows "h \<noteq> t \<and> h < sp_capacity (ss_ring u) \<and> t < sp_capacity (ss_ring u)"
  using spm.reach_inv [OF assms(1,2)] assms(3,4) by (auto simp: spsc_inv_def spsc_wf_def)

abbreviation spsc_demo3 :: "nat list \<Rightarrow> nat \<Rightarrow> nat producer \<Rightarrow> nat consumer \<Rightarrow> nat list \<Rightarrow> nat spsc_sys" where
  "spsc_demo3 b h p c sent \<equiv> \<lparr>ss_ring = \<lparr>sp_buffer = b, sp_head = h, sp_tail = 0\<rparr>, ss_prod = p,
     ss_cons = c, ss_sent = sent, ss_got = []\<rparr>"

lemma spsc_demo3_start: "spsc_start (spsc_demo3 [0, 0, 0] 0 PIdle CIdle [])"
  by (simp add: spsc_start_def spsc_wf_def sp_capacity_def)

lemma spsc_demo3_run:
  "(spsc_step id)\<^sup>*\<^sup>* (spsc_demo3 [0, 0, 0] 0 PIdle CIdle [])
     (spsc_demo3 [5, 0, 0] 1 (PChecked 6 1) (CChecked 0) [5])"
  apply (rule converse_rtranclp_into_rtranclp, rule push_call [where v = 5], simp)
  apply (rule converse_rtranclp_into_rtranclp, rule push_room, simp)
   apply (simp add: sp_increment_def sp_capacity_def)
  apply (rule converse_rtranclp_into_rtranclp, rule push_write, simp)
  apply (rule converse_rtranclp_into_rtranclp, rule push_publish, simp)
  apply (rule converse_rtranclp_into_rtranclp, rule push_call [where v = 6], simp)
  apply (rule converse_rtranclp_into_rtranclp, rule push_room, simp)
   apply (simp add: sp_increment_def sp_capacity_def)
  apply (rule converse_rtranclp_into_rtranclp, rule pop_call, simp)
  apply (rule converse_rtranclp_into_rtranclp, rule pop_some, simp)
   apply (simp add: sp_increment_def sp_capacity_def)
  apply (simp add: sp_increment_def sp_capacity_def)
  done

theorem spsc_threads_race_free_witness: "(1::nat) \<noteq> 0 \<and> (1::nat) < 3 \<and> (0::nat) < 3"
  using spsc_threads_race_free [OF spsc_demo3_start spsc_demo3_run, of 6 1 0]
  by (simp add: sp_capacity_def)

end
