(* ===== verification/SpscWeak.thy ===== *)
theory SpscWeak
  imports SpscThreads Ordering
begin

text \<open>
  The SPSC ring of \<open>include/lwipc/ring_buffer_spsc.hpp\<close> under the memory orders it asks for. A thread
  that loads the index of the other one may find an old value, and the plain accesses to \<open>buffer_\<close>
  are ordered only by what the acquiring loads have read. The orders are an argument of the steps,
  so that it can be seen what they are good for; \<open>spsc_code_orders\<close> are those of the code.
\<close>

section \<open>Steps\<close>

record spsc_orders =
  so_head_store :: memory_order
  so_head_load :: memory_order
  so_tail_store :: memory_order
  so_tail_load :: memory_order

text \<open>A thread loads the index that only itself stores; that load finds the latest value in any order.\<close>

definition spsc_code_orders :: spsc_orders where
  "spsc_code_orders = \<lparr>so_head_store = Release, so_head_load = Acquire, so_tail_store = Release, so_tail_load = Acquire\<rparr>"

text \<open>
  The knowledge in a message of \<open>head_\<close> is how many plain accesses the producer had made, and likewise
  for \<open>tail_\<close>. \<open>wk_tail_seen\<close> is the message the producer has last read, \<open>wk_prod_knows\<close> how many of the
  consumer's accesses happen before what it does next. \<open>wk_writes\<close> and \<open>wk_reads\<close> are the elements of
  \<open>buffer_\<close> that the two have accessed, in order; \<open>wk_raced\<close> says that there has been a data race.
\<close>

record 'a spsc_weak =
  wk_n :: nat
  wk_heads :: "(nat, nat) messages"
  wk_tails :: "(nat, nat) messages"
  wk_data :: "nat \<Rightarrow> 'a"
  wk_prod :: "'a producer"
  wk_tail_seen :: nat
  wk_prod_knows :: nat
  wk_writes :: "nat list"
  wk_cons :: "'a consumer"
  wk_head_seen :: nat
  wk_cons_knows :: nat
  wk_reads :: "nat list"
  wk_raced :: bool
  wk_sent :: "'a list"
  wk_got :: "'a list"

definition weak_start :: "'a spsc_weak \<Rightarrow> bool" where
  "weak_start s \<longleftrightarrow> 2 \<le> wk_n s \<and> wk_heads s = [(0, 0)] \<and> wk_tails s = [(0, 0)] \<and> wk_prod s = PIdle \<and>
     wk_tail_seen s = 0 \<and> wk_prod_knows s = 0 \<and> wk_writes s = [] \<and> wk_cons s = CIdle \<and> wk_head_seen s = 0 \<and>
     wk_cons_knows s = 0 \<and> wk_reads s = [] \<and> \<not> wk_raced s \<and> wk_sent s = [] \<and> wk_got s = []"

definition load_tail :: "spsc_orders \<Rightarrow> nat \<Rightarrow> 'a spsc_weak \<Rightarrow> 'a spsc_weak" where
  "load_tail ord k s = s\<lparr>wk_tail_seen := k, wk_prod_knows :=
     (if synchronizes (so_tail_store ord) (so_tail_load ord) then max (wk_prod_knows s) (snd (wk_tails s ! k)) else wk_prod_knows s)\<rparr>"

definition load_head :: "spsc_orders \<Rightarrow> nat \<Rightarrow> 'a spsc_weak \<Rightarrow> 'a spsc_weak" where
  "load_head ord k s = s\<lparr>wk_head_seen := k, wk_cons_knows :=
     (if synchronizes (so_head_store ord) (so_head_load ord) then max (wk_cons_knows s) (snd (wk_heads s ! k)) else wk_cons_knows s)\<rparr>"

inductive weak_step :: "spsc_orders \<Rightarrow> ('a \<Rightarrow> 'a) \<Rightarrow> 'a spsc_weak \<Rightarrow> 'a spsc_weak \<Rightarrow> bool" for ord moved where
  wpush_call: "wk_prod s = PIdle \<Longrightarrow> weak_step ord moved s (s\<lparr>wk_prod := PLoaded v (latest (wk_heads s))\<rparr>)"
| wpush_full: "wk_prod s = PLoaded v h \<Longrightarrow> wk_tail_seen s \<le> k \<Longrightarrow> k < length (wk_tails s) \<Longrightarrow>
     sp_increment (wk_n s) h = fst (wk_tails s ! k) \<Longrightarrow> weak_step ord moved s ((load_tail ord k s)\<lparr>wk_prod := PIdle\<rparr>)"
| wpush_room: "wk_prod s = PLoaded v h \<Longrightarrow> wk_tail_seen s \<le> k \<Longrightarrow> k < length (wk_tails s) \<Longrightarrow>
     sp_increment (wk_n s) h \<noteq> fst (wk_tails s ! k) \<Longrightarrow> weak_step ord moved s ((load_tail ord k s)\<lparr>wk_prod := PChecked v h\<rparr>)"
| wpush_write: "wk_prod s = PChecked v h \<Longrightarrow>
     weak_step ord moved s (s\<lparr>wk_prod := PWritten v h, wk_data := (wk_data s)(h := v), wk_writes := wk_writes s @ [h],
       wk_raced := (wk_raced s \<or> h \<in> set (drop (wk_prod_knows s) (wk_reads s)))\<rparr>)"
| wpush_publish: "wk_prod s = PWritten v h \<Longrightarrow>
     weak_step ord moved s (s\<lparr>wk_prod := PIdle, wk_sent := wk_sent s @ [v],
       wk_heads := wk_heads s @ [(sp_increment (wk_n s) h, length (wk_writes s))]\<rparr>)"
| wpop_call: "wk_cons s = CIdle \<Longrightarrow> weak_step ord moved s (s\<lparr>wk_cons := CLoaded (latest (wk_tails s))\<rparr>)"
| wpop_empty: "wk_cons s = CLoaded t \<Longrightarrow> wk_head_seen s \<le> k \<Longrightarrow> k < length (wk_heads s) \<Longrightarrow>
     t = fst (wk_heads s ! k) \<Longrightarrow> weak_step ord moved s ((load_head ord k s)\<lparr>wk_cons := CIdle\<rparr>)"
| wpop_some: "wk_cons s = CLoaded t \<Longrightarrow> wk_head_seen s \<le> k \<Longrightarrow> k < length (wk_heads s) \<Longrightarrow>
     t \<noteq> fst (wk_heads s ! k) \<Longrightarrow> weak_step ord moved s ((load_head ord k s)\<lparr>wk_cons := CChecked t\<rparr>)"
| wpop_take: "wk_cons s = CChecked t \<Longrightarrow>
     weak_step ord moved s (s\<lparr>wk_cons := CTaken (wk_data s t) t, wk_data := (wk_data s)(t := moved (wk_data s t)),
       wk_reads := wk_reads s @ [t], wk_raced := (wk_raced s \<or> t \<in> set (drop (wk_cons_knows s) (wk_writes s)))\<rparr>)"
| wpop_release: "wk_cons s = CTaken v t \<Longrightarrow>
     weak_step ord moved s (s\<lparr>wk_cons := CIdle, wk_got := wk_got s @ [v],
       wk_tails := wk_tails s @ [(sp_increment (wk_n s) t, length (wk_reads s))]\<rparr>)"

section \<open>Invariant\<close>

text \<open>Message \<open>k\<close> of an index is its value after \<open>k\<close> accesses; cells are accessed in turn.\<close>

definition index_log :: "nat \<Rightarrow> nat \<Rightarrow> (nat, nat) messages" where
  "index_log n m = map (\<lambda>k. (k mod n, k)) [0..<Suc m]"

definition turns :: "nat \<Rightarrow> nat \<Rightarrow> nat list" where
  "turns n m = map (\<lambda>k. k mod n) [0..<m]"

fun written :: "'a producer \<Rightarrow> nat" where
  "written (PWritten v h) = 1"
| "written _ = 0"

fun taken :: "'a consumer \<Rightarrow> nat" where
  "taken (CTaken v t) = 1"
| "taken _ = 0"

abbreviation sent_k :: "'a spsc_weak \<Rightarrow> nat" where "sent_k s \<equiv> length (wk_sent s)"
abbreviation got_k :: "'a spsc_weak \<Rightarrow> nat" where "got_k s \<equiv> length (wk_got s)"

fun wprod_ok :: "'a spsc_weak \<Rightarrow> 'a producer \<Rightarrow> bool" where
  "wprod_ok s PIdle = True"
| "wprod_ok s (PLoaded v h) = (h = sent_k s mod wk_n s)"
| "wprod_ok s (PChecked v h) = (h = sent_k s mod wk_n s \<and> Suc (sent_k s) < wk_tail_seen s + wk_n s)"
| "wprod_ok s (PWritten v h) = (h = sent_k s mod wk_n s \<and> Suc (sent_k s) < wk_tail_seen s + wk_n s \<and> wk_data s h = v)"

fun wcons_ok :: "'a spsc_weak \<Rightarrow> 'a consumer \<Rightarrow> bool" where
  "wcons_ok s CIdle = True"
| "wcons_ok s (CLoaded t) = (t = got_k s mod wk_n s)"
| "wcons_ok s (CChecked t) = (t = got_k s mod wk_n s \<and> got_k s < wk_head_seen s)"
| "wcons_ok s (CTaken v t) = (t = got_k s mod wk_n s \<and> got_k s < wk_head_seen s \<and> v = wk_sent s ! got_k s)"

definition weak_inv :: "'a spsc_weak \<Rightarrow> bool" where
  "weak_inv s \<longleftrightarrow> 2 \<le> wk_n s \<and> \<not> wk_raced s \<and> wk_heads s = index_log (wk_n s) (sent_k s) \<and> wk_tails s = index_log (wk_n s) (got_k s) \<and>
     wk_tail_seen s \<le> got_k s \<and> wk_head_seen s \<le> sent_k s \<and> wk_prod_knows s = wk_tail_seen s \<and> wk_cons_knows s = wk_head_seen s \<and>
     sent_k s < wk_tail_seen s + wk_n s \<and> got_k s + taken (wk_cons s) \<le> wk_head_seen s \<and>
     wk_writes s = turns (wk_n s) (sent_k s + written (wk_prod s)) \<and> wk_reads s = turns (wk_n s) (got_k s + taken (wk_cons s)) \<and>
     wprod_ok s (wk_prod s) \<and> wcons_ok s (wk_cons s) \<and> wk_got s = take (got_k s) (wk_sent s) \<and>
     (\<forall>k. got_k s + taken (wk_cons s) \<le> k \<and> k < sent_k s \<longrightarrow> wk_data s (k mod wk_n s) = wk_sent s ! k)"

lemma turns_snoc: "turns n (Suc m) = turns n m @ [m mod n]"
  by (simp add: turns_def)

lemma index_log_snoc: "index_log n (Suc m) = index_log n m @ [(Suc m mod n, Suc m)]"
  by (simp add: index_log_def)

lemma index_log_nth: "k \<le> m \<Longrightarrow> index_log n m ! k = (k mod n, k)"
  by (simp add: index_log_def nth_append del: upt_Suc)

lemma length_index_log [simp]: "length (index_log n m) = Suc m"
  by (simp add: index_log_def)

lemma latest_index_log: "latest (index_log n m) = m mod n"
  by (simp add: latest_def index_log_def)

lemma set_drop_turns: "set (drop a (turns n m)) = (\<lambda>k. k mod n) ` {a..<m}"
  by (simp add: turns_def drop_map)

text \<open>An unread part of the other thread's accesses holds no conflicting one.\<close>

lemma not_in_turns:
  assumes "\<And>k. a \<le> k \<Longrightarrow> k < m \<Longrightarrow> k < p \<and> p < k + n \<or> p < k \<and> k < p + n"
  shows "p mod n \<notin> set (drop a (turns n m))"
proof
  assume "p mod n \<in> set (drop a (turns n m))"
  then obtain k where k: "a \<le> k" "k < m" "p mod n = k mod n" unfolding set_drop_turns by auto
  from assms [OF k(1,2)] mod_apart [of k p n] mod_apart [of p k n] k(3) show False by auto
qed

lemma weak_invD:
  assumes "weak_inv s"
  shows "2 \<le> wk_n s" "\<not> wk_raced s"
    and "wk_heads s = index_log (wk_n s) (sent_k s)" "wk_tails s = index_log (wk_n s) (got_k s)"
    and "wk_tail_seen s \<le> got_k s" "wk_head_seen s \<le> sent_k s"
    and "wk_prod_knows s = wk_tail_seen s" "wk_cons_knows s = wk_head_seen s"
    and "sent_k s < wk_tail_seen s + wk_n s" "got_k s + taken (wk_cons s) \<le> wk_head_seen s"
    and "wk_writes s = turns (wk_n s) (sent_k s + written (wk_prod s))"
    and "wk_reads s = turns (wk_n s) (got_k s + taken (wk_cons s))"
    and "wprod_ok s (wk_prod s)" "wcons_ok s (wk_cons s)" "wk_got s = take (got_k s) (wk_sent s)"
    and "got_k s + taken (wk_cons s) \<le> k \<Longrightarrow> k < sent_k s \<Longrightarrow> wk_data s (k mod wk_n s) = wk_sent s ! k"
  using assms by (simp_all add: weak_inv_def)

lemma wprod_ok_cong:
  assumes "wprod_ok s c" "wk_sent t = wk_sent s" "wk_n t = wk_n s" "wk_tail_seen s \<le> wk_tail_seen t"
    and "\<And>v. c = PWritten v (sent_k s mod wk_n s) \<Longrightarrow> wk_data t (sent_k s mod wk_n s) = wk_data s (sent_k s mod wk_n s)"
  shows "wprod_ok t c"
  using assms by (cases c) auto

lemma wcons_ok_cong:
  assumes "wcons_ok s c" "wk_got t = wk_got s" "wk_n t = wk_n s" "wk_head_seen s \<le> wk_head_seen t"
    and "\<And>v. wk_head_seen s \<le> sent_k s" "\<exists>vs. wk_sent t = wk_sent s @ vs"
  shows "wcons_ok t c"
  using assms by (cases c) (auto simp: nth_append)

lemma sync_code:
  "synchronizes (so_head_store spsc_code_orders) (so_head_load spsc_code_orders)"
  "synchronizes (so_tail_store spsc_code_orders) (so_tail_load spsc_code_orders)"
  by (simp_all add: spsc_code_orders_def synchronizes_def)

lemma load_tail_code:
  assumes "weak_inv s" "wk_tail_seen s \<le> k" "k \<le> got_k s"
  shows "load_tail spsc_code_orders k s = s\<lparr>wk_tail_seen := k, wk_prod_knows := k\<rparr>"
  using weak_invD(4,7) [OF assms(1)] assms(2,3) by (simp add: load_tail_def sync_code index_log_nth max_def)

lemma load_head_code:
  assumes "weak_inv s" "wk_head_seen s \<le> k" "k \<le> sent_k s"
  shows "load_head spsc_code_orders k s = s\<lparr>wk_head_seen := k, wk_cons_knows := k\<rparr>"
  using weak_invD(3,8) [OF assms(1)] assms(2,3) by (simp add: load_head_def sync_code index_log_nth max_def)

lemma push_load_inv:
  assumes inv: "weak_inv s" and k: "wk_tail_seen s \<le> k" "k < length (wk_tails s)"
    and c: "written c = 0" "wprod_ok (s\<lparr>wk_tail_seen := k\<rparr>) c" "written (wk_prod s) = 0"
  shows "weak_inv ((load_tail spsc_code_orders k s)\<lparr>wk_prod := c\<rparr>)"
proof -
  have k': "k \<le> got_k s" using k(2) weak_invD(4) [OF inv] by simp
  have "wprod_ok (s\<lparr>wk_tail_seen := k, wk_prod_knows := k, wk_prod := c\<rparr>) c"
    by (rule wprod_ok_cong [OF c(2)]) simp_all
  moreover have "wcons_ok (s\<lparr>wk_tail_seen := k, wk_prod_knows := k, wk_prod := c\<rparr>) (wk_cons s)"
    by (rule wcons_ok_cong [OF weak_invD(14) [OF inv]]) (simp_all add: weak_invD(6) [OF inv])
  ultimately show ?thesis
    using weak_invD [OF inv] k k' c(1,3) unfolding load_tail_code [OF inv k(1) k']
    by (simp add: weak_inv_def)
qed

lemma pop_load_inv:
  assumes inv: "weak_inv s" and k: "wk_head_seen s \<le> k" "k < length (wk_heads s)"
    and c: "taken c = 0" "wcons_ok (s\<lparr>wk_head_seen := k\<rparr>) c" "taken (wk_cons s) = 0"
  shows "weak_inv ((load_head spsc_code_orders k s)\<lparr>wk_cons := c\<rparr>)"
proof -
  have k': "k \<le> sent_k s" using k(2) weak_invD(3) [OF inv] by simp
  have "wcons_ok (s\<lparr>wk_head_seen := k, wk_cons_knows := k, wk_cons := c\<rparr>) c"
    by (rule wcons_ok_cong [OF c(2)]) (use k' in simp_all)
  moreover have "wprod_ok (s\<lparr>wk_head_seen := k, wk_cons_knows := k, wk_cons := c\<rparr>) (wk_prod s)"
    by (rule wprod_ok_cong [OF weak_invD(13) [OF inv]]) simp_all
  ultimately show ?thesis
    using weak_invD [OF inv] k k' c(1,3) unfolding load_head_code [OF inv k(1) k']
    by (simp add: weak_inv_def)
qed

lemma push_write_inv:
  assumes inv: "weak_inv s" and pc: "wk_prod s = PChecked v h"
  shows "weak_inv (s\<lparr>wk_prod := PWritten v h, wk_data := (wk_data s)(h := v), wk_writes := wk_writes s @ [h],
       wk_raced := (wk_raced s \<or> h \<in> set (drop (wk_prod_knows s) (wk_reads s)))\<rparr>)" (is "weak_inv ?t")
proof -
  note i = weak_invD [OF inv]
  let ?n = "wk_n s" and ?P = "sent_k s" and ?T = "wk_tail_seen s" and ?R = "got_k s + taken (wk_cons s)"
  have h: "h = ?P mod ?n" "Suc ?P < ?T + ?n" using i(13) pc by simp_all
  have "h \<notin> set (drop ?T (wk_reads s))"
    unfolding i(12) h(1) by (rule not_in_turns) (use i(6,10) h(2) in linarith)
  then have race: "\<not> wk_raced ?t" using i(2,7) by simp
  have data: "wk_data ?t (k mod ?n) = wk_sent s ! k" if "?R \<le> k" "k < ?P" for k
  proof -
    have "k mod ?n \<noteq> ?P mod ?n" by (rule mod_apart) (use that h(2) i(5) in linarith)+
    with i(16) [OF that] h(1) show ?thesis by simp
  qed
  have "wprod_ok ?t (PWritten v h)" using h by simp
  moreover have "wcons_ok ?t (wk_cons s)" by (rule wcons_ok_cong [OF i(14)]) (simp_all add: i(6))
  ultimately show ?thesis using i race data pc h(1) by (simp add: weak_inv_def turns_snoc)
qed

lemma push_publish_weak_inv:
  assumes inv: "weak_inv s" and pc: "wk_prod s = PWritten v h"
  shows "weak_inv (s\<lparr>wk_prod := PIdle, wk_sent := wk_sent s @ [v],
       wk_heads := wk_heads s @ [(sp_increment (wk_n s) h, length (wk_writes s))]\<rparr>)" (is "weak_inv ?t")
proof -
  note i = weak_invD [OF inv]
  let ?n = "wk_n s" and ?P = "sent_k s" and ?R = "got_k s + taken (wk_cons s)"
  have h: "h = ?P mod ?n" "Suc ?P < wk_tail_seen s + ?n" "wk_data s h = v" using i(13) pc by auto
  have heads: "wk_heads s @ [(sp_increment ?n h, length (wk_writes s))] = index_log ?n (Suc ?P)"
    using i(3,11) pc h(1) by (simp add: index_log_snoc sp_increment_def turns_def mod_Suc_eq)
  have data: "wk_data s (k mod ?n) = (wk_sent s @ [v]) ! k" if "?R \<le> k" "k < Suc ?P" for k
    using i(16) [of k] that h by (cases "k = ?P") (auto simp: nth_append)
  have got: "wk_got s = take (got_k s) (wk_sent s @ [v])" using i(6,10,15) by simp
  have "wcons_ok ?t (wk_cons s)" by (rule wcons_ok_cong [OF i(14)]) (simp_all add: i(6))
  then show ?thesis using i heads data got pc h(2) by (simp add: weak_inv_def)
qed

lemma pop_take_inv:
  assumes inv: "weak_inv s" and pc: "wk_cons s = CChecked t"
  shows "weak_inv (s\<lparr>wk_cons := CTaken (wk_data s t) t, wk_data := (wk_data s)(t := w),
       wk_reads := wk_reads s @ [t], wk_raced := (wk_raced s \<or> t \<in> set (drop (wk_cons_knows s) (wk_writes s)))\<rparr>)"
    (is "weak_inv ?t")
proof -
  note i = weak_invD [OF inv]
  let ?n = "wk_n s" and ?P = "sent_k s" and ?C = "got_k s"
  have t: "t = ?C mod ?n" "?C < wk_head_seen s" using i(14) pc by simp_all
  have W: "?P + written (wk_prod s) < wk_tail_seen s + ?n"
    using i(9,13) by (cases "wk_prod s") auto
  have "t \<notin> set (drop (wk_head_seen s) (wk_writes s))"
    unfolding i(11) t(1) by (rule not_in_turns) (use t(2) W i(5) in linarith)
  then have race: "\<not> wk_raced ?t" using i(2,8) by simp
  have fetched: "wk_data s t = wk_sent s ! ?C" using i(16) [of ?C] pc t i(6) by simp
  have data: "wk_data ?t (k mod ?n) = wk_sent s ! k" if "Suc ?C \<le> k" "k < ?P" for k
  proof -
    have "?C mod ?n \<noteq> k mod ?n" by (rule mod_apart) (use that i(5,9) in linarith)+
    with i(16) [of k] that pc t(1) show ?thesis by simp
  qed
  have "wprod_ok ?t (wk_prod s)"
  proof (rule wprod_ok_cong [OF i(13)])
    fix v assume p: "wk_prod s = PWritten v (?P mod ?n)"
    then have "?C mod ?n \<noteq> ?P mod ?n" by (intro mod_apart) (use t(2) i(5,6,9) in linarith)+
    then show "wk_data ?t (?P mod ?n) = wk_data s (?P mod ?n)" using t(1) by simp
  qed simp_all
  moreover have "wcons_ok ?t (CTaken (wk_data s t) t)" using t fetched by simp
  ultimately show ?thesis using i race data pc t by (simp add: weak_inv_def turns_snoc)
qed

lemma pop_release_inv:
  assumes inv: "weak_inv s" and pc: "wk_cons s = CTaken v t"
  shows "weak_inv (s\<lparr>wk_cons := CIdle, wk_got := wk_got s @ [v],
       wk_tails := wk_tails s @ [(sp_increment (wk_n s) t, length (wk_reads s))]\<rparr>)" (is "weak_inv ?t")
proof -
  note i = weak_invD [OF inv]
  let ?n = "wk_n s" and ?C = "got_k s"
  have t: "t = ?C mod ?n" "?C < wk_head_seen s" "v = wk_sent s ! ?C" using i(14) pc by simp_all
  have tails: "wk_tails s @ [(sp_increment ?n t, length (wk_reads s))] = index_log ?n (Suc ?C)"
    using i(4,12) pc t(1) by (simp add: index_log_snoc sp_increment_def turns_def mod_Suc_eq)
  have "?C < sent_k s" using t(2) i(6) by simp
  then have got: "wk_got s @ [v] = take (Suc ?C) (wk_sent s)"
    using i(15) t(3) by (simp add: take_Suc_conv_app_nth)
  have "wprod_ok ?t (wk_prod s)" by (rule wprod_ok_cong [OF i(13)]) simp_all
  then show ?thesis using i tails got pc by (simp add: weak_inv_def)
qed

lemma weak_step_inv [model_inv]: "weak_step spsc_code_orders moved s t \<Longrightarrow> weak_inv s \<Longrightarrow> weak_inv t"
proof (induction rule: weak_step.induct)
  case (wpush_call s v)
  note i = weak_invD [OF wpush_call(2)]
  have "wprod_ok (s\<lparr>wk_prod := PLoaded v (latest (wk_heads s))\<rparr>) (PLoaded v (latest (wk_heads s)))"
    using i(3) by (simp add: latest_index_log)
  moreover have "wcons_ok (s\<lparr>wk_prod := PLoaded v (latest (wk_heads s))\<rparr>) (wk_cons s)"
    by (rule wcons_ok_cong [OF i(14)]) (simp_all add: i(6))
  ultimately show ?case using i wpush_call(1) by (simp add: weak_inv_def)
next
  case (wpush_full s v h k)
  then show ?case by (intro push_load_inv) simp_all
next
  case (wpush_room s v h k)
  note i = weak_invD [OF wpush_room(5)]
  have k: "k \<le> got_k s" using wpush_room(3) i(4) by simp
  have h: "h = sent_k s mod wk_n s" using i(13) wpush_room(1) by simp
  have "fst (wk_tails s ! k) = k mod wk_n s" using i(4) k by (simp add: index_log_nth)
  with wpush_room(4) h have "Suc (sent_k s) mod wk_n s \<noteq> k mod wk_n s" by (simp add: sp_increment_def mod_Suc_eq)
  then have "Suc (sent_k s) \<noteq> k + wk_n s" by auto
  with i(9) wpush_room(2) have "Suc (sent_k s) < k + wk_n s" by linarith
  with wpush_room h show ?case by (intro push_load_inv) simp_all
next
  case (wpush_write s v h)
  then show ?case by (intro push_write_inv) simp_all
next
  case (wpush_publish s v h)
  then show ?case by (intro push_publish_weak_inv) simp_all
next
  case (wpop_call s)
  note i = weak_invD [OF wpop_call(2)]
  have "wcons_ok (s\<lparr>wk_cons := CLoaded (latest (wk_tails s))\<rparr>) (CLoaded (latest (wk_tails s)))"
    using i(4) by (simp add: latest_index_log)
  moreover have "wprod_ok (s\<lparr>wk_cons := CLoaded (latest (wk_tails s))\<rparr>) (wk_prod s)"
    by (rule wprod_ok_cong [OF i(13)]) simp_all
  ultimately show ?case using i wpop_call(1) by (simp add: weak_inv_def)
next
  case (wpop_empty s t k)
  then show ?case by (intro pop_load_inv) simp_all
next
  case (wpop_some s t k)
  note i = weak_invD [OF wpop_some(5)]
  have k: "k \<le> sent_k s" using wpop_some(3) i(3) by simp
  have t: "t = got_k s mod wk_n s" using i(14) wpop_some(1) by simp
  have "fst (wk_heads s ! k) = k mod wk_n s" using i(3) k by (simp add: index_log_nth)
  with wpop_some(4) t have "got_k s \<noteq> k" by auto
  with i(10) wpop_some(1,2) have "got_k s < k" by simp
  with wpop_some t show ?case by (intro pop_load_inv) simp_all
next
  case (wpop_take s t)
  then show ?case by (intro pop_take_inv) simp_all
next
  case (wpop_release s v t)
  then show ?case by (intro pop_release_inv) simp_all
qed

lemma weak_start_inv: "weak_start s \<Longrightarrow> weak_inv s"
  by (simp add: weak_start_def weak_inv_def index_log_def turns_def)

lemma weak_step_moves:
  "weak_step ord moved s t \<Longrightarrow> wk_n t = wk_n s \<and>
    (wk_sent t = wk_sent s \<or> (\<exists>v. wk_sent t = wk_sent s @ [v]) \<and> wk_got t = wk_got s) \<and>
    (wk_got t = wk_got s \<or> (\<exists>v. wk_got t = wk_got s @ [v]) \<and> wk_sent t = wk_sent s)"
  by (erule weak_step.cases) (simp_all add: load_tail_def load_head_def)

lemma weak_pending: "weak_inv s \<Longrightarrow> \<exists>rest. wk_sent s = wk_got s @ rest \<and> length rest \<le> wk_n s - 1"
proof -
  assume inv: "weak_inv s"
  note i = weak_invD [OF inv]
  have "wk_sent s = wk_got s @ drop (got_k s) (wk_sent s)"
    using i(15) append_take_drop_id [of "got_k s" "wk_sent s"] by simp
  moreover have "length (drop (got_k s) (wk_sent s)) \<le> wk_n s - 1" using i(5,9) by simp
  ultimately show ?thesis by blast
qed

interpretation wkf: fifo_machine weak_start "weak_step spsc_code_orders moved" weak_inv wk_sent wk_got "\<lambda>s. wk_n s - 1"
  by unfold_locales
    (erule weak_start_inv, erule (1) weak_step_inv [rotated], simp add: weak_start_def, erule weak_pending,
      simp_all add: weak_step_moves)

section \<open>The ring under its memory orders\<close>

text \<open>
  C2. With the memory orders of the code the ring has no data race, although each thread may read
  old values of the other's index, and it is still a first-in first-out channel of
  \<open>Capacity - 1\<close> places: in every execution what is delivered is a prefix of what was accepted, in order.
\<close>

theorem spsc_weak_fifo:
  assumes "weak_start s" "(weak_step spsc_code_orders moved)\<^sup>*\<^sup>* s t"
  shows "\<not> wk_raced t \<and> (fifo_step (wk_n t - 1))\<^sup>*\<^sup>* ([], []) (wk_sent t, wk_got t) \<and>
    (\<exists>rest. wk_sent t = wk_got t @ rest \<and> length rest \<le> wk_n t - 1)"
  using wkf.refines [OF assms] wkf.reach_inv [OF assms] weak_pending weak_invD(2) by blast

section \<open>What the orders are good for\<close>

definition weak_demo :: "(nat, nat) messages \<Rightarrow> (nat, nat) messages \<Rightarrow> nat \<Rightarrow> nat \<Rightarrow> nat producer \<Rightarrow> nat \<Rightarrow> nat \<Rightarrow> nat list \<Rightarrow>
    nat consumer \<Rightarrow> nat \<Rightarrow> nat \<Rightarrow> nat list \<Rightarrow> bool \<Rightarrow> nat list \<Rightarrow> nat list \<Rightarrow> nat spsc_weak" where
  "weak_demo heads tails d0 d1 p ts pk ws c hs ck rs raced sent got =
     \<lparr>wk_n = 2, wk_heads = heads, wk_tails = tails, wk_data = (\<lambda>_. 0)(0 := d0, 1 := d1), wk_prod = p, wk_tail_seen = ts,
      wk_prod_knows = pk, wk_writes = ws, wk_cons = c, wk_head_seen = hs, wk_cons_knows = ck, wk_reads = rs,
      wk_raced = raced, wk_sent = sent, wk_got = got\<rparr>"

lemmas weak_eval = weak_demo_def load_tail_def load_head_def latest_def sp_increment_def spsc_code_orders_def synchronizes_def

lemma weak_demo_start: "weak_start (weak_demo [(0, 0)] [(0, 0)] 0 0 PIdle 0 0 [] CIdle 0 0 [] False [] [])"
  by (simp add: weak_start_def weak_demo_def)

text \<open>A push and a pop, and a second push that still reads the old value of \<open>tail_\<close>: it is refused.\<close>

lemma weak_demo_run: "(weak_step spsc_code_orders id)\<^sup>*\<^sup>* (weak_demo [(0, 0)] [(0, 0)] 0 0 PIdle 0 0 [] CIdle 0 0 [] False [] []) (weak_demo [(0, 0), (1, 1)] [(0, 0), (1, 1)] 5 0 PIdle 0 0 [0] CIdle 1 1 [0] False [5] [5])"
  apply (rule run_step, rule wpush_call [where v = 5], simp add: weak_eval, simp add: weak_eval)
  apply (rule run_step, rule wpush_room [where k = 0], simp add: weak_eval, simp add: weak_eval, simp add: weak_eval, simp add: weak_eval, simp add: weak_eval)
  apply (rule run_step, rule wpush_write, simp add: weak_eval, simp add: weak_eval)
  apply (rule run_step, rule wpush_publish, simp add: weak_eval, simp add: weak_eval)
  apply (rule run_step, rule wpop_call, simp add: weak_eval, simp add: weak_eval)
  apply (rule run_step, rule wpop_some [where k = 1], simp add: weak_eval, simp add: weak_eval, simp add: weak_eval, simp add: weak_eval, simp add: weak_eval)
  apply (rule run_step, rule wpop_take, simp add: weak_eval, simp add: weak_eval)
  apply (rule run_step, rule wpop_release, simp add: weak_eval, simp add: weak_eval)
  apply (rule run_step, rule wpush_call [where v = 6], simp add: weak_eval, simp add: weak_eval)
  apply (rule run_step, rule wpush_full [where k = 0], simp add: weak_eval, simp add: weak_eval, simp add: weak_eval, simp add: weak_eval, simp add: weak_eval)
  apply (rule rtranclp_refl_eq, auto simp: weak_eval fun_eq_iff)
  done

theorem spsc_weak_fifo_witness:
  "\<not> wk_raced (weak_demo [(0, 0), (1, 1)] [(0, 0), (1, 1)] 5 0 PIdle 0 0 [0] CIdle 1 1 [0] False [5] [5]) \<and>
   (fifo_step 1)\<^sup>*\<^sup>* ([], []) ([5 :: nat], [5])"
  using spsc_weak_fifo [OF weak_demo_start weak_demo_run] by (simp add: weak_demo_def)

lemmas race_eval = weak_demo_def load_tail_def load_head_def latest_def sp_increment_def

text \<open>
  Without the synchronisation of \<open>head_\<close>, or with that of \<open>head_\<close> only, a data race can be reached:
  on the element between the producer's write and the consumer's move, or between that move and the
  next write of the same element.
\<close>

lemma weak_head_race:
  assumes [simp]: "\<not> synchronizes (so_head_store ord) (so_head_load ord)"
  shows "(weak_step ord id)\<^sup>*\<^sup>* (weak_demo [(0, 0)] [(0, 0)] 0 0 PIdle 0 0 [] CIdle 0 0 [] False [] []) (weak_demo [(0, 0), (1, 1)] [(0, 0)] 5 0 PIdle 0 0 [0] (CTaken 5 0) 1 0 [0] True [5] [])"
  apply (rule run_step, rule wpush_call [where v = 5], simp add: race_eval, simp add: race_eval)
  apply (rule run_step, rule wpush_room [where k = 0], simp add: race_eval, simp add: race_eval, simp add: race_eval, simp add: race_eval, simp add: race_eval)
  apply (rule run_step, rule wpush_write, simp add: race_eval, simp add: race_eval)
  apply (rule run_step, rule wpush_publish, simp add: race_eval, simp add: race_eval)
  apply (rule run_step, rule wpop_call, simp add: race_eval, simp add: race_eval)
  apply (rule run_step, rule wpop_some [where k = 1], simp add: race_eval, simp add: race_eval, simp add: race_eval, simp add: race_eval, simp add: race_eval)
  apply (rule run_step, rule wpop_take, simp add: race_eval, simp add: race_eval)
  apply (rule rtranclp_refl_eq, auto simp: race_eval fun_eq_iff)
  done

lemma weak_tail_race:
  assumes [simp]: "synchronizes (so_head_store ord) (so_head_load ord)" "\<not> synchronizes (so_tail_store ord) (so_tail_load ord)"
  shows "(weak_step ord id)\<^sup>*\<^sup>* (weak_demo [(0, 0)] [(0, 0)] 0 0 PIdle 0 0 [] CIdle 0 0 [] False [] []) (weak_demo [(0, 0), (1, 1), (0, 2)] [(0, 0), (1, 1), (0, 2)] 7 6 (PWritten 7 0) 2 0 [0, 1, 0] CIdle 2 2 [0, 1] True [5, 6] [5, 6])"
  apply (rule run_step, rule wpush_call [where v = 5], simp add: race_eval, simp add: race_eval)
  apply (rule run_step, rule wpush_room [where k = 0], simp add: race_eval, simp add: race_eval, simp add: race_eval, simp add: race_eval, simp add: race_eval)
  apply (rule run_step, rule wpush_write, simp add: race_eval, simp add: race_eval)
  apply (rule run_step, rule wpush_publish, simp add: race_eval, simp add: race_eval)
  apply (rule run_step, rule wpop_call, simp add: race_eval, simp add: race_eval)
  apply (rule run_step, rule wpop_some [where k = 1], simp add: race_eval, simp add: race_eval, simp add: race_eval, simp add: race_eval, simp add: race_eval)
  apply (rule run_step, rule wpop_take, simp add: race_eval, simp add: race_eval)
  apply (rule run_step, rule wpop_release, simp add: race_eval, simp add: race_eval)
  apply (rule run_step, rule wpush_call [where v = 6], simp add: race_eval, simp add: race_eval)
  apply (rule run_step, rule wpush_room [where k = 1], simp add: race_eval, simp add: race_eval, simp add: race_eval, simp add: race_eval, simp add: race_eval)
  apply (rule run_step, rule wpush_write, simp add: race_eval, simp add: race_eval)
  apply (rule run_step, rule wpush_publish, simp add: race_eval, simp add: race_eval)
  apply (rule run_step, rule wpop_call, simp add: race_eval, simp add: race_eval)
  apply (rule run_step, rule wpop_some [where k = 2], simp add: race_eval, simp add: race_eval, simp add: race_eval, simp add: race_eval, simp add: race_eval)
  apply (rule run_step, rule wpop_take, simp add: race_eval, simp add: race_eval)
  apply (rule run_step, rule wpop_release, simp add: race_eval, simp add: race_eval)
  apply (rule run_step, rule wpush_call [where v = 7], simp add: race_eval, simp add: race_eval)
  apply (rule run_step, rule wpush_room [where k = 2], simp add: race_eval, simp add: race_eval, simp add: race_eval, simp add: race_eval, simp add: race_eval)
  apply (rule run_step, rule wpush_write, simp add: race_eval, simp add: race_eval)
  apply (rule rtranclp_refl_eq, auto simp: race_eval fun_eq_iff)
  done

text \<open>The orders of the code are the only ones, of those that the model has, under which the ring has no data race.\<close>

theorem spsc_orders_exact:
  "(\<forall>s t :: nat spsc_weak. weak_start s \<longrightarrow> (weak_step ord id)\<^sup>*\<^sup>* s t \<longrightarrow> \<not> wk_raced t) \<longleftrightarrow> ord = spsc_code_orders"
    (is "?safe \<longleftrightarrow> _")
proof
  assume safe: ?safe
  have "\<not> wk_raced t" if "(weak_step ord id)\<^sup>*\<^sup>* (weak_demo [(0, 0)] [(0, 0)] 0 0 PIdle 0 0 [] CIdle 0 0 [] False [] []) t" for t
    using safe weak_demo_start that by blast
  note no_race = this
  have head: "synchronizes (so_head_store ord) (so_head_load ord)"
    by (rule ccontr, drule weak_head_race, drule no_race) (simp add: weak_demo_def)
  have "synchronizes (so_tail_store ord) (so_tail_load ord)"
    by (rule ccontr, drule weak_tail_race [OF head], drule no_race) (simp add: weak_demo_def)
  with head show "ord = spsc_code_orders" by (cases ord) (simp add: synchronizes_def spsc_code_orders_def)
next
  assume "ord = spsc_code_orders"
  then show ?safe using wkf.reach_inv weak_invD(2) by blast
qed

end
