(* ===== verification/Topology.thy ===== *)
theory Topology
  imports Prelude
begin

text \<open>
  \<open>include/lwipc/topology.hpp\<close> and \<open>src/topology.cpp\<close>: a static routing table read from a
  comma-separated file. A file is its contents; \<open>None\<close> is a file that cannot be opened.
\<close>

record topology_route =
  tr_topic :: string
  tr_channel :: string
  tr_reliable :: bool

record topology =
  tp_routes :: "topology_route list"
  tp_index :: "(string, nat) umap"

datatype topology_error = CannotOpen | InvalidLine nat

definition topology_new :: topology where
  "topology_new = \<lparr>tp_routes = [], tp_index = []\<rparr>"

abbreviation comma :: char where "comma \<equiv> CHR '',''"

abbreviation newline :: char where "newline \<equiv> CHR 0x0A"

definition parse_route :: "string \<Rightarrow> topology_route option" where
  "parse_route line =
     (case getline comma line of None \<Rightarrow> None | Some (topic, r1) \<Rightarrow>
      (case getline comma r1 of None \<Rightarrow> None | Some (channel, r2) \<Rightarrow>
      (case getline comma r2 of None \<Rightarrow> None | Some (reliable_str, _) \<Rightarrow>
         Some \<lparr>tr_topic = topic, tr_channel = channel,
           tr_reliable = (reliable_str = ''1'' \<or> reliable_str = ''true'' \<or> reliable_str = ''reliable'')\<rparr>)))"

definition add_route :: "topology_route \<Rightarrow> topology \<Rightarrow> topology" where
  "add_route r t = \<lparr>tp_routes = tp_routes t @ [r],
     tp_index = um_put (tr_topic r) (length (tp_routes t)) (tp_index t)\<rparr>"

text \<open>The reading loop. What was added before a malformed line stays.\<close>

function load_lines :: "string \<Rightarrow> nat \<Rightarrow> topology \<Rightarrow> topology_error option \<times> topology" where
  "load_lines s line_no t =
     (case getline newline s of
        None \<Rightarrow> (None, t)
      | Some (line, rest) \<Rightarrow>
          (if line = [] \<or> hd line = CHR ''#'' then load_lines rest (line_no + 1) t
           else case parse_route line of
             None \<Rightarrow> (Some (InvalidLine (line_no + 1)), t)
           | Some r \<Rightarrow> load_lines rest (line_no + 1) (add_route r t)))"
  by pat_completeness auto
termination by (relation "measure (\<lambda>(s, _, _). length s)") (auto dest: getline_shorter)

declare load_lines.simps [simp del]

definition load_from_file :: "string option \<Rightarrow> topology \<Rightarrow> topology_error option \<times> topology" where
  "load_from_file content t =
     (case content of
        None \<Rightarrow> (Some CannotOpen, t)
      | Some s \<Rightarrow> load_lines s 0 topology_new)"

text \<open>\<open>routes_[it->second]\<close> is out of bounds, and so undefined, when the index is stale.\<close>

definition topology_find :: "string \<Rightarrow> topology \<Rightarrow> (unit + topology_route option)" where
  "topology_find topic t =
     (case um_find (tp_index t) topic of
        None \<Rightarrow> Inr None
      | Some i \<Rightarrow> if i < length (tp_routes t) then Inr (Some (tp_routes t ! i)) else Inl ())"

section \<open>The index stays consistent with the table\<close>

text \<open>The specification of a lookup: the last route of the topic in the table.\<close>

definition last_route :: "string \<Rightarrow> topology_route list \<Rightarrow> topology_route option" where
  "last_route topic rs = find (\<lambda>r. tr_topic r = topic) (rev rs)"

definition topology_ok :: "topology \<Rightarrow> bool" where
  "topology_ok t \<longleftrightarrow> (\<forall>topic. topology_find topic t = Inr (last_route topic (tp_routes t)))"

lemma topology_ok_new [simp]: "topology_ok topology_new"
  by (simp add: topology_ok_def topology_find_def topology_new_def last_route_def)

lemma topology_find_add:
  "topology_find topic (add_route r t) =
     (if tr_topic r = topic then Inr (Some r)
      else case topology_find topic t of Inr q \<Rightarrow> Inr q
           | Inl _ \<Rightarrow> topology_find topic (add_route r t))"
  by (auto simp: topology_find_def add_route_def nth_append split: option.splits)

lemma topology_ok_add [model_inv]:
  assumes "topology_ok t"
  shows "topology_ok (add_route r t)"
  unfolding topology_ok_def
proof
  fix topic
  have "topology_find topic t = Inr (last_route topic (tp_routes t))"
    using assms by (simp add: topology_ok_def)
  then show "topology_find topic (add_route r t) = Inr (last_route topic (tp_routes (add_route r t)))"
    by (subst topology_find_add) (simp add: last_route_def add_route_def)
qed

lemma topology_ok_load_lines: "topology_ok t \<Longrightarrow> topology_ok (snd (load_lines s n t))"
proof (induction s n t rule: load_lines.induct)
  case (1 s n t)
  show ?case
  proof (cases "getline newline s")
    case None
    then show ?thesis using 1(3) by (subst load_lines.simps) simp
  next
    case (Some p)
    obtain line rest where "p = (line, rest)" by fastforce
    with Some 1 show ?thesis
      by (subst load_lines.simps) (auto simp: topology_ok_add split: option.split)
  qed
qed

text \<open>
  Whatever a file contains, and also when loading stops at a malformed line, a lookup
  afterwards never indexes outside the table and returns the last route loaded for the topic.
\<close>

theorem topology_lookup_safe:
  assumes "topology_ok t"
  shows "topology_find topic (snd (load_from_file content t))
       = Inr (last_route topic (tp_routes (snd (load_from_file content t))))"
proof -
  have "topology_ok (snd (load_from_file content t))"
    using assms topology_ok_load_lines [OF topology_ok_new]
    by (auto simp: load_from_file_def split: option.split)
  then show ?thesis by (simp add: topology_ok_def)
qed

theorem topology_lookup_safe_witness:
  "topology_find ''a'' (snd (load_from_file (Some ''a,c,1'') topology_new))
     = Inr (last_route ''a'' (tp_routes (snd (load_from_file (Some ''a,c,1'') topology_new))))"
  by (rule topology_lookup_safe) simp

section \<open>Loading what was written\<close>

definition plain_field :: "string \<Rightarrow> bool" where
  "plain_field s \<longleftrightarrow> comma \<notin> set s \<and> newline \<notin> set s"

definition plain_route :: "topology_route \<Rightarrow> bool" where
  "plain_route r \<longleftrightarrow> plain_field (tr_topic r) \<and> plain_field (tr_channel r) \<and>
     \<not> (tr_topic r \<noteq> [] \<and> hd (tr_topic r) = CHR ''#'')"

definition render_route :: "topology_route \<Rightarrow> string" where
  "render_route r = tr_topic r @ [comma] @ tr_channel r @ [comma] @ (if tr_reliable r then ''1'' else ''0'')"

definition render_file :: "topology_route list \<Rightarrow> string" where
  "render_file rs = concat (map (\<lambda>r. render_route r @ [newline]) rs)"

lemma parse_render: "plain_route r \<Longrightarrow> parse_route (render_route r) = Some r"
  by (auto simp: parse_route_def render_route_def plain_route_def plain_field_def getline_append)
    (auto simp: getline_def)

lemma load_rendered:
  assumes "\<forall>r \<in> set rs. plain_route r"
  shows "load_lines (render_file rs) n t = (None, fold add_route rs t)"
  using assms
proof (induction rs arbitrary: n t)
  case Nil
  then show ?case by (simp add: render_file_def load_lines.simps [of "[]"] getline_def)
next
  case (Cons r rs)
  then have plain: "newline \<notin> set (render_route r)" "render_route r \<noteq> []" "hd (render_route r) \<noteq> CHR ''#''"
    by (auto simp: render_route_def plain_route_def plain_field_def hd_append)
  have "render_file (r # rs) = render_route r @ newline # render_file rs" by (simp add: render_file_def)
  with plain Cons show ?case
    by (subst load_lines.simps) (simp add: getline_append parse_render)
qed

lemma routes_fold_add: "tp_routes (fold add_route rs t) = tp_routes t @ rs"
  by (induction rs arbitrary: t) (simp_all add: add_route_def)

text \<open>
  C38. A routing table written one line per route is read back route by route, provided no
  topic or channel holds a comma or a line break and no topic starts with the comment sign.
\<close>

theorem topology_roundtrip:
  assumes "\<forall>r \<in> set rs. plain_route r"
  shows "fst (load_from_file (Some (render_file rs)) t) = None
    \<and> tp_routes (snd (load_from_file (Some (render_file rs)) t)) = rs"
  using load_rendered [OF assms] by (simp add: load_from_file_def routes_fold_add topology_new_def)

theorem topology_roundtrip_witness:
  "tp_routes (snd (load_from_file (Some (render_file
       [\<lparr>tr_topic = ''/cam'', tr_channel = ''c'', tr_reliable = True\<rparr>])) topology_new))
     = [\<lparr>tr_topic = ''/cam'', tr_channel = ''c'', tr_reliable = True\<rparr>]"
  by (rule conjunct2 [OF topology_roundtrip]) (simp add: plain_route_def plain_field_def)

text \<open>
  A line needs three fields: an empty third field at the end of a line does not count, and
  loading stops there although the earlier lines have replaced the old table.
\<close>

lemma load_partial:
  "load_from_file (Some (''a,b,1'' @ [newline] @ ''c,d,'')) t =
     (Some (InvalidLine 2), add_route \<lparr>tr_topic = ''a'', tr_channel = ''b'', tr_reliable = True\<rparr> topology_new)"
  by (simp add: load_from_file_def load_lines.simps getline_def parse_route_def)

end
