(* ===== verification/Transport.thy ===== *)
theory Transport
  imports Message ShmSegment
begin

text \<open>
  \<open>include/lwipc/transport.hpp\<close> and \<open>src/transport.cpp\<close>: the raw shared-memory transport and the
  UDP transport behind \<open>ITransport\<close>. The memory of a segment is the byte list that all objects
  on the same segment share; socket results are arguments.
\<close>

section \<open>Shared memory\<close>

record shm_raw =
  sw_capacity :: size_t
  sw_last_size :: nat

definition raw_new :: "size_t \<Rightarrow> shm_raw" where
  "raw_new capacity = \<lparr>sw_capacity = capacity, sw_last_size = 0\<rparr>"

definition raw_open :: "shm_raw \<Rightarrow> bool" where
  "raw_open t = True"

datatype send_error = PayloadTooLarge

definition raw_send :: "byte list \<Rightarrow> shm_raw \<Rightarrow> byte list \<Rightarrow> send_error + (nat \<times> shm_raw \<times> byte list)" where
  "raw_send payload t mem =
     (if length payload > unat (sw_capacity t) then Inl PayloadTooLarge
      else Inr (length payload, t\<lparr>sw_last_size := length payload\<rparr>, payload @ drop (length payload) mem))"

definition raw_receive :: "shm_raw \<Rightarrow> byte list \<Rightarrow> byte list" where
  "raw_receive t mem = take (sw_last_size t) mem"

text \<open>
  What one object sends it receives back; but the size of a message stays in the sending
  object, so an object that has not sent anything receives nothing, whatever others have sent
  through the same segment.
\<close>

theorem raw_transport_echo:
  assumes "raw_send payload t mem = Inr (n, t', mem')"
  shows "n = length payload \<and> raw_receive t' mem' = payload \<and> raw_receive (raw_new capacity) mem' = []"
  using assms by (auto simp: raw_send_def raw_receive_def raw_new_def split: if_splits)

theorem raw_transport_echo_witness:
  "raw_receive (raw_new 4) ([1, 2] @ drop 2 [0, 0, 0, 0]) = []"
  using raw_transport_echo [of "[1, 2]" "raw_new 4" "[0, 0, 0, 0]" 2 "(raw_new 4)\<lparr>sw_last_size := 2\<rparr>" "[1, 2, 0, 0]" 4]
  by (simp add: raw_send_def raw_new_def)

text \<open>A payload that does not fit is refused and changes nothing.\<close>

lemma raw_send_fits:
  "(\<exists>r. raw_send payload t mem = Inr r) \<longleftrightarrow> length payload \<le> unat (sw_capacity t)"
  by (simp add: raw_send_def)

lemma raw_send_length:
  "length mem = unat (sw_capacity t) \<Longrightarrow> raw_send payload t mem = Inr (n, t', mem') \<Longrightarrow> length mem' = length mem"
  by (auto simp: raw_send_def split: if_splits)

section \<open>UDP\<close>

record udp =
  ud_bind_ip :: string
  ud_bind_port :: u16
  ud_remote_ip :: string
  ud_remote_port :: u16
  ud_fd :: int

definition udp_new :: "string \<Rightarrow> u16 \<Rightarrow> string \<Rightarrow> u16 \<Rightarrow> udp" where
  "udp_new bip bport rip rport = \<lparr>ud_bind_ip = bip, ud_bind_port = bport, ud_remote_ip = rip, ud_remote_port = rport, ud_fd = -1\<rparr>"

text \<open>The descriptors that the destructor closes.\<close>

definition udp_destroy :: "udp \<Rightarrow> int list" where
  "udp_destroy t = (if 0 \<le> ud_fd t then [ud_fd t] else [])"

text \<open>
  \<open>sock\<close> is the result of \<open>socket\<close>, \<open>valid_ip\<close> says whether \<open>inet_pton\<close> accepts an address,
  \<open>bind_ok\<close> whether \<open>bind\<close> succeeds.
\<close>

definition udp_open :: "int \<Rightarrow> (string \<Rightarrow> bool) \<Rightarrow> bool \<Rightarrow> udp \<Rightarrow> bool \<times> udp" where
  "udp_open sock valid_ip bind_ok t =
     (let t' = t\<lparr>ud_fd := sock\<rparr> in
      if sock < 0 then (False, t')
      else if \<not> valid_ip (ud_bind_ip t) then (False, t')
      else if \<not> bind_ok then (False, t')
      else (True, t'))"

definition udp_send :: "int \<Rightarrow> (string \<Rightarrow> bool) \<Rightarrow> byte list \<Rightarrow> udp \<Rightarrow> nat" where
  "udp_send sent valid_ip payload t =
     (if \<not> valid_ip (ud_remote_ip t) then 0 else if sent > 0 then nat sent else 0)"

text \<open>\<open>recv\<close> returned \<open>n\<close> and filled the buffer; \<open>n\<close> is at most its 65536 bytes.\<close>

definition udp_receive :: "int \<Rightarrow> byte list \<Rightarrow> byte list" where
  "udp_receive n buf = (if n \<le> 0 then [] else take (nat n) buf)"

text \<open>
  A retry leaks: a descriptor obtained by an \<open>open\<close> is forgotten by the next \<open>open\<close>, so of
  two openings the destructor closes the second descriptor only.
\<close>

theorem udp_reopen_leaks:
  assumes "udp_open s1 valid1 bind1 t = (b1, t1)" "udp_open s2 valid2 bind2 t1 = (b2, t2)" "0 \<le> s1" "0 \<le> s2" "s1 \<noteq> s2"
  shows "udp_destroy t1 = [s1] \<and> udp_destroy t2 = [s2] \<and> s1 \<notin> set (udp_destroy t2)"
  using assms by (auto simp: udp_open_def udp_destroy_def Let_def split: if_splits)

theorem udp_reopen_leaks_witness:
  "udp_destroy ((udp_new [] 1 [] 2)\<lparr>ud_fd := 4\<rparr>) = [4]"
  using udp_reopen_leaks [of 3 "\<lambda>_. True" False "udp_new [] 1 [] 2" False "(udp_new [] 1 [] 2)\<lparr>ud_fd := 3\<rparr>"
      4 "\<lambda>_. True" True True "(udp_new [] 1 [] 2)\<lparr>ud_fd := 4\<rparr>"]
  by (simp add: udp_open_def udp_new_def)

end
