(* ===== verification/UnitTests.thy ===== *)
theory UnitTests
  imports SpscRing MemoryPool Metrics Heartbeat Topology Broker SignalSlot SystemMonitor Executor RwLock Sensor Transport
begin

text \<open>
  Test programs of the repository (\<open>tests/\<close>) as expressions over the model, each the conjunction of its
  assertions. The model gives what the tests expect, except in two of them, whose expectations the code does not meet.
\<close>

section \<open>Queues, memory and tables\<close>

text \<open>\<open>test_ringbuffer.cpp\<close>. \<open>d\<close> is what an unused element holds, \<open>moved\<close> what moving from one leaves.\<close>

definition test_ringbuffer :: "int \<Rightarrow> (int \<Rightarrow> int) \<Rightarrow> bool" where
  "test_ringbuffer d moved =
     (let q0 = spsc_new 4 d;
          (p1, q1) = spsc_try_push 1 q0; (p2, q2) = spsc_try_push 2 q1; (p3, q3) = spsc_try_push 3 q2;
          (p4, q4) = spsc_try_push 4 q3;
          (v1, r1) = spsc_try_pop moved q4; (v2, r2) = spsc_try_pop moved r1; (v3, r3) = spsc_try_pop moved r2;
          (v4, r4) = spsc_try_pop moved r3
      in spsc_empty q0 \<and> p1 \<and> p2 \<and> p3 \<and> \<not> p4 \<and> v1 = Some 1 \<and> v2 = Some 2 \<and> v3 = Some 3 \<and> v4 = None \<and> spsc_empty r4)"

lemma spsc_step:
  "spsc_try_push v \<lparr>sp_buffer = b, sp_head = h, sp_tail = t\<rparr> =
     (if (h + 1) mod length b = t then (False, \<lparr>sp_buffer = b, sp_head = h, sp_tail = t\<rparr>)
      else (True, \<lparr>sp_buffer = b[h := v], sp_head = (h + 1) mod length b, sp_tail = t\<rparr>))"
  "spsc_try_pop moved \<lparr>sp_buffer = b, sp_head = h, sp_tail = t\<rparr> =
     (if t = h then (None, \<lparr>sp_buffer = b, sp_head = h, sp_tail = t\<rparr>)
      else (Some (b ! t), \<lparr>sp_buffer = b[t := moved (b ! t)], sp_head = h, sp_tail = (t + 1) mod length b\<rparr>))"
  "spsc_empty \<lparr>sp_buffer = b, sp_head = h, sp_tail = t\<rparr> \<longleftrightarrow> h = t"
  by (simp_all add: spsc_try_push_def spsc_try_pop_def spsc_empty_def sp_increment_def sp_capacity_def Let_def)

lemma spsc_new_four: "spsc_new 4 d = \<lparr>sp_buffer = [d, d, d, d], sp_head = 0, sp_tail = 0\<rparr>"
  by (simp add: spsc_new_def numeral_eq_Suc)

lemma test_ringbuffer_passes: "test_ringbuffer d moved"
  by (simp add: test_ringbuffer_def spsc_new_four spsc_step)

text \<open>\<open>test_memory_pool.cpp\<close>, from the pool that the constructor makes. The byte that is written does not matter.\<close>

definition test_memory_pool :: "pool \<Rightarrow> bool" where
  "test_memory_pool p0 =
     (let (a, p1) = mp_acquire p0; (b, p2) = mp_acquire p1; (c, p3) = mp_acquire p2
      in mp_free_slots p0 = 2 \<and> a \<noteq> None \<and> b \<noteq> None \<and> c = None \<and> mp_free_slots p3 = 0 \<and>
        (case mp_release (pb_slot_id (the a)) p3 of
           Inl _ \<Rightarrow> False
         | Inr p4 \<Rightarrow> mp_free_slots p4 = 1 \<and>
             (let (d, p5) = mp_acquire p4 in d \<noteq> None \<and> pb_capacity (the d) = 256 \<and> mp_free_slots p5 = 0)))"

lemma test_memory_pool_passes: "\<exists>p. mp_new 256 2 = Some (Inr p) \<and> test_memory_pool p"
  by (simp add: mp_new_def mp_fill.simps test_memory_pool_def mp_acquire_def mp_release_def mp_free_slots_def Let_def)

text \<open>\<open>test_metrics.cpp\<close>.\<close>

definition test_metrics :: bool where
  "test_metrics =
     (metrics_snapshot_of (record_latency 123456 (record_dropped (record_delivered (record_published (record_published metrics_new)))))
        = (2, 1, 1, 123456))"

lemma test_metrics_passes: test_metrics
  by (simp add: test_metrics_def metrics_snapshot_of_def record_latency_def record_dropped_def record_delivered_def
      record_published_def metrics_new_def)

text \<open>\<open>test_heartbeat.cpp\<close>, from any clock reading \<open>t0\<close> in nanoseconds.\<close>

definition test_heartbeat :: "time_ns \<Rightarrow> bool" where
  "test_heartbeat t0 =
     (let ms = 10 ^ 6; hb = beat ''planner'' (t0 + 40 * ms) (register_peer ''perception'' t0 (register_peer ''planner'' t0 []))
      in length (expired (t0 + 120 * ms) 60 hb) = 2 \<and> expired (t0 + 70 * ms) 60 hb = [''perception''])"

lemma test_heartbeat_passes: "test_heartbeat t0"
  by (simp add: test_heartbeat_def beat_def register_peer_def expired_def Let_def)

text \<open>\<open>test_topology.cpp\<close>, with the file that it writes.\<close>

definition test_topology :: bool where
  "test_topology =
     (let (e, t) = load_from_file (Some (''# topic,channel,reliable'' @ [newline] @ ''/camera/front,shm_cam,1'' @ [newline] @
            ''/lidar/top,shm_lidar,0'' @ [newline])) topology_new
      in e = None \<and> length (tp_routes t) = 2 \<and>
        (case topology_find ''/camera/front'' t of Inr (Some r) \<Rightarrow> tr_channel r = ''shm_cam'' \<and> tr_reliable r | _ \<Rightarrow> False) \<and>
        (case topology_find ''/lidar/top'' t of Inr (Some r) \<Rightarrow> \<not> tr_reliable r | _ \<Rightarrow> False) \<and>
        topology_find ''/unknown'' t = Inr None)"

lemma test_topology_passes: test_topology
  by (simp add: test_topology_def load_from_file_def load_lines.simps getline_def parse_route_def add_route_def topology_find_def
      topology_new_def Let_def)

section \<open>Broker and core\<close>

text \<open>
  \<open>test_broker.cpp\<close>. The callback counts, and checks the lengths of what it gets; the second component of
  the world says that its assertions held.
\<close>

definition count_call :: "nat \<Rightarrow> unit \<Rightarrow> message_view \<Rightarrow> unit broker \<times> (nat \<times> bool) \<Rightarrow> unit option \<times> (unit broker \<times> (nat \<times> bool))" where
  "count_call len cb m s = (case s of (b, hits, ok) \<Rightarrow> (None, (b, hits + 1,
     ok \<and> unat (mh_payload_len (mv_header m)) = len \<and> length (mv_payload m) = len)))"

definition test_message :: "byte list \<Rightarrow> message_view" where
  "test_message payload = \<lparr>mv_header = header_default\<lparr>mh_payload_len := of_nat (length payload)\<rparr>, mv_payload = payload\<rparr>"

definition test_broker :: bool where
  "test_broker =
     (let topic = ''/camera/front'';
          (sub, b1) = subscriber_new topic qos_default () broker_new;
          pub = \<lparr>pb_topic = topic, pb_qos = qos_default\<rparr>;
          (e1, b2, hits1, ok1) = publisher_publish (count_call 4) pub (test_message [0x11, 0x22, 0x33, 0x44]) (b1, 0, True);
          b3 = subscriber_destroy sub b2;
          (e2, b4, hits2, ok2) = publisher_publish (count_call 4) pub (test_message [0xaa, 0xbb, 0xcc, 0xdd]) (b3, hits1, ok1)
      in e1 = None \<and> hits1 = 1 \<and> e2 = None \<and> hits2 = 1 \<and> ok2)"

lemmas broker_evals = subscriber_new_def subscriber_destroy_def br_subscribe_def br_unsubscribe_def br_push_def br_bucket_def
  broker_new_def publisher_publish_def br_publish_def count_call_def test_message_def header_default_def

lemma test_broker_passes: test_broker
  by (simp add: test_broker_def broker_evals Let_def)

text \<open>\<open>test_core.cpp\<close>.\<close>

definition test_core :: bool where
  "test_core =
     (let topic = ''/planning/trajectory'';
          node = core_node_new ''planner'';
          channel = core_create_channel topic qos_default node;
          (sub, node1) = core_subscribe topic qos_default () node;
          (e, b, hits, ok) = channel_publish (count_call 2) channel (test_message [0xaa, 0xbb]) (cn_broker node1, 0, True)
      in e = None \<and> ok \<and> hits = 1 \<and> ch_topic channel = topic)"

lemma test_core_passes: test_core
  by (simp add: test_core_def core_node_new_def core_create_channel_def core_subscribe_def channel_new_def channel_publish_def
      broker_evals Let_def)

section \<open>Signals\<close>

text \<open>\<open>test_basic_signal_slot\<close>: the slot adds its argument to \<open>result\<close>.\<close>

definition add_slot :: "unit \<Rightarrow> int \<Rightarrow> int \<Rightarrow> int slot_result" where
  "add_slot cb v result = Returns (result + v)"

definition test_basic_signal_slot :: bool where
  "test_basic_signal_slot =
     (let (conn, s1) = sg_connect () signal_new;
          r1 = sg_emit add_slot 10 s1 0;
          r2 = sg_emit add_slot 20 s1 (the r1);
          s2 = sg_disconnect conn s1; conn' = connection_disconnect conn;
          r3 = sg_emit add_slot 100 s2 (the r2)
      in cx_valid conn \<and> sg_count s1 = 1 \<and> r1 = Some 10 \<and> r2 = Some 30 \<and> \<not> cx_valid conn' \<and> r3 = Some 30 \<and> sg_count s2 = 0)"

lemmas signal_evals = sg_connect_def signal_new_def sg_emit_def sg_disconnect_def sg_count_def connection_disconnect_def

lemma test_basic_signal_slot_passes: test_basic_signal_slot
  by (simp add: test_basic_signal_slot_def signal_evals add_slot_def Let_def)

text \<open>
  \<open>test_multiple_slots\<close>: three slots that share \<open>sum\<close> and \<open>call_count\<close>. The last slot doubles the sum that is
  there, so the result is 10 and not the 15 that the test expects; no order of these slots gives 15 and two calls.
\<close>

datatype sum_slot = AddValue | CountCall | DoubleAndCount

fun sum_call :: "sum_slot \<Rightarrow> rat \<Rightarrow> rat \<times> nat \<Rightarrow> (rat \<times> nat) slot_result" where
  "sum_call AddValue v (acc, n) = Returns (acc + v, n)"
| "sum_call CountCall v (acc, n) = Returns (acc, n + 1)"
| "sum_call DoubleAndCount v (acc, n) = Returns (acc * 2, n + 1)"

definition multiple_slots :: "sum_slot list \<Rightarrow> size_t \<times> (rat \<times> nat) option" where
  "multiple_slots slots = (let s = fold (\<lambda>cb s. snd (sg_connect cb s)) slots signal_new in (sg_count s, sg_emit sum_call 5 s (0, 0)))"

theorem multiple_slots_result:
  "multiple_slots [AddValue, CountCall, DoubleAndCount] = (3, Some (10, 2)) \<and> snd (multiple_slots [a, b, c]) \<noteq> Some (15, 2)"
  by (cases a; cases b; cases c) (simp_all add: multiple_slots_def signal_evals Let_def)

text \<open>\<open>test_disconnect_specific\<close>: the slot is its number, the log the calls in order.\<close>

definition log_slot :: "nat \<Rightarrow> string \<Rightarrow> (nat \<times> string) list \<Rightarrow> (nat \<times> string) list slot_result" where
  "log_slot k v calls = Returns (calls @ [(k, v)])"

definition test_disconnect_specific :: bool where
  "test_disconnect_specific =
     (let (c1, s1) = sg_connect 1 signal_new; (c2, s2) = sg_connect 2 s1; (c3, s3) = sg_connect 3 s2; s4 = sg_disconnect c2 s3
      in sg_emit log_slot ''A'' s3 [] = Some [(1, ''A''), (2, ''A''), (3, ''A'')] \<and> sg_count s4 = 2 \<and>
        sg_emit log_slot ''B'' s4 [] = Some [(1, ''B''), (3, ''B'')])"

lemma test_disconnect_specific_passes: test_disconnect_specific
  by (simp add: test_disconnect_specific_def signal_evals log_slot_def Let_def)

text \<open>\<open>test_signal_manager\<close>; the type of a signal is its argument type.\<close>

definition test_signal_manager :: bool where
  "test_signal_manager =
     (let (g1, m1) = sm_get_or_create ''int'' ''topic1'' manager_new; (g2, m2) = sm_get_or_create ''double'' ''topic2'' m1;
          (g3, m3) = sm_get_or_create ''int'' ''topic1'' m2; m4 = sm_remove ''topic1'' m3
      in sm_has ''topic1'' m2 \<and> sm_has ''topic2'' m2 \<and> \<not> sm_has ''topic3'' m2 \<and> sm_signal_count m2 = 2 \<and> g1 = g3 \<and>
        \<not> sm_has ''topic1'' m4 \<and> sm_signal_count m4 = 1)"

lemma test_signal_manager_passes: test_signal_manager
  by (simp add: test_signal_manager_def sm_get_or_create_def sm_has_def sm_remove_def sm_signal_count_def manager_new_def Let_def)

text \<open>\<open>test_exception_handling\<close>: the first slot throws.\<close>

definition throwing_slot :: "bool \<Rightarrow> unit \<Rightarrow> nat \<Rightarrow> nat slot_result" where
  "throwing_slot throws arg n = (if throws then Throws n else Returns (n + 1))"

definition test_exception_handling :: bool where
  "test_exception_handling =
     (sg_emit throwing_slot () (snd (sg_connect False (snd (sg_connect True signal_new)))) 0 = Some 1)"

lemma test_exception_handling_passes: test_exception_handling
  by (simp add: test_exception_handling_def signal_evals throwing_slot_def Let_def)

section \<open>System monitor\<close>

definition test_node :: "string \<Rightarrow> string \<Rightarrow> node_info" where
  "test_node i name = node_default\<lparr>ni_id := i, ni_name := name, ni_status := RUNNING\<rparr>"

lemma test_node_id [simp]: "ni_id (test_node i name) = i"
  by (simp add: test_node_def)

definition test_node_registration :: bool where
  "test_node_registration =
     (let m1 = register_node (test_node ''node_1'' ''SensorNode'') monitor_new;
          m2 = register_node (test_node ''node_2'' ''ControlNode'') m1;
          m3 = unregister_node ''node_2'' m2
      in get_nodes monitor_new = [] \<and> length (get_nodes m1) = 1 \<and> length (get_nodes m2) = 2 \<and>
        ni_id (get_node ''node_1'' m2) = ''node_1'' \<and> ni_name (get_node ''node_1'' m2) = ''SensorNode'' \<and>
        ni_id (get_node ''nonexistent'' m2) = [] \<and> length (get_nodes m3) = 1)"

lemma test_node_registration_passes: test_node_registration
  by (simp add: test_node_registration_def register_node_def unregister_node_def get_nodes_def get_node_def monitor_new_def
      test_node_def node_default_def Let_def)

text \<open>\<open>test_channel_stats\<close>; the clock is read only for alerts, and there is no callback for them.\<close>

definition test_channel_stats :: bool where
  "test_channel_stats =
     (let ch = ''channel_1'';
          m = record_message_dropped ch (record_message_received ch 200 (record_message_received ch 100
            (snd (record_message_sent 0 ch 150 40 (snd (record_message_sent 0 ch 200 60
              (snd (record_message_sent 0 ch 100 50 monitor_new))))))));
          stats = get_channel_stats m; st = hd stats
      in length stats = 1 \<and> ct_name st = ch \<and> ct_messages_sent st = 3 \<and> ct_messages_received st = 2 \<and> ct_bytes_sent st = 450 \<and>
        ct_messages_dropped st = 1 \<and> 0 < ct_avg_latency st \<and> ct_min_latency st = 40 \<and> ct_max_latency st = 60)"

lemma test_channel_stats_passes: test_channel_stats
  by (simp add: test_channel_stats_def record_message_dropped_def record_message_received_def record_message_sent_def
      sent_stats_def put_channel_def channel_of_def stats_default_def get_channel_stats_def monitor_new_def
      monitor_config_default_def Let_def)

definition test_topic_stats :: bool where
  "test_topic_stats =
     (let up = update_topic_info ''/sensors/imu'' ''sensor_msgs/Imu'' 48; stats = get_topic_stats (up (up (up monitor_new))); st = hd stats
      in length stats = 1 \<and> tt_name st = ''/sensors/imu'' \<and> tt_type st = ''sensor_msgs/Imu'' \<and> tt_message_count st = 3 \<and>
        tt_avg_msg_size st = 48)"

lemma test_topic_stats_passes: test_topic_stats
  by (simp add: test_topic_stats_def update_topic_info_def topic_default_def get_topic_stats_def monitor_new_def Let_def)

definition test_system_stats :: bool where
  "test_system_stats =
     (let m1 = fold (\<lambda>i. register_node (test_node (''node_'' @ i) (''Node'' @ i))) [''0'', ''1'', ''2'', ''3'', ''4''] monitor_new;
          m2 = record_message_received ''ch1'' 1000 (snd (record_message_sent 0 ''ch1'' 1000 10 m1));
          m3 = record_message_received ''ch2'' 2000 (snd (record_message_sent 0 ''ch2'' 2000 20 m2));
          st = get_system_stats m3
      in ss_total_nodes st = 5 \<and> ss_running_nodes st = 5 \<and> ss_total_channels st = 2 \<and> ss_messages_sent st = 2 \<and>
        ss_messages_received st = 2 \<and> ss_bytes_transferred st = 6000)"

lemma test_system_stats_passes: test_system_stats
  by (simp add: test_system_stats_def get_system_stats_def get_nodes_def get_channel_stats_def register_node_def
      record_message_received_def record_message_sent_def sent_stats_def put_channel_def channel_of_def stats_default_def
      monitor_new_def monitor_config_default_def test_node_def node_default_def Let_def)

text \<open>
  \<open>test_heartbeat\<close> of the monitor, with a timeout of 1000 ms: heartbeats at \<open>t0\<close> and \<open>t3\<close>, looks at the nodes that
  have timed out at \<open>t1\<close>, \<open>t2\<close> and \<open>t4\<close>.
\<close>

definition timeout_statuses :: "u64 \<Rightarrow> u64 \<Rightarrow> u64 \<Rightarrow> u64 \<Rightarrow> u64 \<Rightarrow> node_status list list" where
  "timeout_statuses t0 t1 t2 t3 t4 =
     (let m0 = mo_configure (monitor_config_default\<lparr>mc_heartbeat_timeout_ms := 1000\<rparr>) monitor_new;
          m1 = update_heartbeat t0 ''test_node'' (register_node (test_node ''test_node'' ''TestNode'') m0);
          m2 = update_heartbeat t3 ''test_node'' m1
      in map (map ni_status) [get_timeout_nodes t1 m1, get_timeout_nodes t2 m1, get_timeout_nodes t4 m2])"

lemma test_monitor_heartbeat_passes:
  assumes "t1 - t0 \<le> 1000" "1000 < t2 - t0" "t4 - t3 \<le> 1000"
  shows "timeout_statuses t0 t1 t2 t3 t4 = [[], [TIMEOUT], []]"
  using assms
  by (simp add: timeout_statuses_def mo_configure_def update_heartbeat_def register_node_def get_timeout_nodes_def get_nodes_def
      heartbeat_late_def monitor_new_def monitor_config_default_def test_node_def node_default_def Let_def not_less)

text \<open>
  \<open>test_health_check\<close>: both nodes are registered, one of them sends a heartbeat at \<open>t0\<close>, and the health is
  checked at \<open>t1\<close>, more than the timeout of 500 ms later. The test expects only the other node; but the heartbeat
  is too old as well, so both are reported.
\<close>

definition health_check_nodes :: "u64 \<Rightarrow> u64 \<Rightarrow> string list" where
  "health_check_nodes t0 t1 =
     (let m0 = mo_configure (monitor_config_default\<lparr>mc_heartbeat_timeout_ms := 500\<rparr>) monitor_new;
          m1 = update_heartbeat t0 ''healthy_node'' (register_node (test_node ''healthy_node'' []) m0);
          m2 = register_node (test_node ''unhealthy_node'' []) m1
      in map ni_id (check_health t1 m2))"

theorem health_check_reports_both:
  assumes "500 < t1 - t0" "500 < t1"
  shows "set (health_check_nodes t0 t1) = {''healthy_node'', ''unhealthy_node''} \<and> length (health_check_nodes t0 t1) = 2"
  using assms
  by (auto simp: health_check_nodes_def mo_configure_def update_heartbeat_def register_node_def check_health_def get_nodes_def
      heartbeat_late_def monitor_new_def monitor_config_default_def test_node_def node_default_def Let_def)

theorem health_check_reports_both_witness: "length (health_check_nodes 1000 1600) = 2"
  using health_check_reports_both [of 1600 1000] by simp

text \<open>\<open>test_alert_callback\<close>: how many alerts the callback has got at the assertion.\<close>

definition alert_count :: "u64 \<Rightarrow> u64 \<Rightarrow> nat option" where
  "alert_count t0 t1 =
     (let m1 = mo_start (mo_configure (monitor_config_default\<lparr>mc_cpu_threshold := 50, mc_latency_threshold_us := 10\<rparr>)
            (set_alert_callback True monitor_new));
          m2 = register_node (test_node ''high_cpu_node'' []) m1
      in case update_node_resources t0 ''high_cpu_node'' 95 (1024 * 1024 * 100) m2 of
           None \<Rightarrow> None
         | Some (a1, m3) \<Rightarrow> Some (length a1 + length (fst (record_message_sent t1 ''test_channel'' 100 100 m3))))"

lemma test_alert_callback_passes: "alert_count t0 t1 = Some 2"
  by (simp add: alert_count_def mo_start_def mo_configure_def set_alert_callback_def register_node_def update_node_resources_def
      resource_alerts_def memory_percent_def total_memory_def to_u64_def record_message_sent_def put_channel_def monitor_new_def
      monitor_config_default_def Let_def)

section \<open>Sensors and transports\<close>

text \<open>
  \<open>test_sensor_manager\<close> with two sensors that are told apart by number; stopping one does not matter to the test.
\<close>

definition test_sensor_manager :: bool where
  "test_sensor_manager =
     (let (b1, m1) = register_sensor ''imu'' (Some (1 :: nat)) []; (b2, m2) = register_sensor ''camera'' (Some 2) m1;
          (m3, w) = unregister_sensor (\<lambda>s stopped. stopped @ [s]) ''camera'' m2 []
      in b1 \<and> b2 \<and> get_sensor_count m2 = 2 \<and> length (get_sensor_names m2) = 2 \<and> get_sensor ''imu'' m2 = Some 1 \<and>
        get_sensor ''nonexistent'' m2 = None \<and> get_sensor_count m3 = 1 \<and> get_sensor ''camera'' m3 = None \<and> w = [2])"

lemma test_sensor_manager_passes: test_sensor_manager
  by (simp add: test_sensor_manager_def register_sensor_def unregister_sensor_def get_sensor_count_def get_sensor_names_def
      get_sensor_def Let_def)

text \<open>The first half of \<open>test_transport.cpp\<close>, with any contents of the new segment.\<close>

definition test_raw_transport :: "byte list \<Rightarrow> bool" where
  "test_raw_transport mem =
     (let t = raw_new 128; payload = [1, 2, 3] in raw_open t \<and>
       (case raw_send payload t mem of
          Inl _ \<Rightarrow> False
        | Inr (n, t', mem') \<Rightarrow> n = length payload \<and> length (raw_receive t' mem') = length payload \<and> hd (raw_receive t' mem') = hd payload))"

lemma test_raw_transport_passes: "test_raw_transport mem"
  by (simp add: test_raw_transport_def raw_new_def raw_open_def raw_send_def raw_receive_def Let_def)

section \<open>Executor\<close>

text \<open>
  \<open>test_executor.cpp\<close>: the tasks add 1 and 2 to the counter. However the threads run, the counter is 3 once
  \<open>stop()\<close> has returned; the time that the test sleeps does not matter.
\<close>

theorem test_executor_passes:
  assumes "ex_step\<^sup>*\<^sup>* executor_new s" "ex_accepted s = [1, 2 :: nat]" "ex_stop s = SReturned"
  shows "sum_list (ex_done s) = 3"
proof -
  have "ex_inv s" by (rule exm.reach_inv [OF refl assms(1)])
  with assms(2,3) have "ex_done s = [1, 2]" by (simp add: ex_inv_def running_def)
  then show ?thesis by simp
qed

section \<open>Reader-writer lock\<close>

text \<open>
  \<open>test_basic_rwlock\<close> on the state word: the guards of nested scopes are left in the reverse order. A weak
  exchange may fail any number of times, as long as it succeeds once.
\<close>

definition test_basic_rwlock :: "(nat \<Rightarrow> bool) \<Rightarrow> bool" where
  "test_basic_rwlock spur =
     (case read_guard_enter spur 0 of None \<Rightarrow> False | Some (l1, s1) \<Rightarrow>
      (case read_guard_enter spur s1 of None \<Rightarrow> False | Some (l2, s2) \<Rightarrow>
        let s3 = read_guard_exit l2 s2; s4 = read_guard_exit l1 s3; (l3, s5) = write_guard_enter s4; s6 = write_guard_exit l3 s5
        in \<not> rw_is_write_locked 0 \<and> rw_reader_count 0 = 0 \<and>
          l1 \<and> rw_reader_count s1 = 1 \<and> \<not> rw_is_write_locked s1 \<and> l2 \<and> rw_reader_count s2 = 2 \<and> rw_reader_count s3 = 1 \<and>
          rw_reader_count s4 = 0 \<and> l3 \<and> rw_is_write_locked s5 \<and> rw_reader_count s5 = 0 \<and>
          \<not> rw_is_write_locked s6 \<and> rw_reader_count s6 = 0))"

lemma test_basic_rwlock_passes: "\<not> spur m \<Longrightarrow> test_basic_rwlock spur"
  by (simp add: test_basic_rwlock_def read_guard_enter_def read_guard_exit_def write_guard_enter_def write_guard_exit_def
      try_lock_read_cases [of spur m] rw_is_write_locked_def rw_reader_count_def READER_MASK_def WRITE_LOCK_BIT_def
      rw_try_lock_write_def rw_unlock_read_def rw_unlock_write_def Let_def)

text \<open>
  \<open>test_writer_exclusivity\<close> asserts that each of the writer's 1000 guards owns the lock. A guard tries once, and
  the try fails while a reader is inside, which the four reading threads of the test make possible.
\<close>

theorem write_guard_refused:
  "\<exists>s t. rw_start s \<and> rw_step\<^sup>*\<^sup>* s t \<and> rw_pcs t ! 0 = RwIdle \<and> rw_pcs t ! 1 = RwReading \<and>
     write_guard_enter (rw_state t) = (False, rw_state t)"
proof (rule exI, rule exI, rule conjI)
  show "rw_start \<lparr>rw_state = 0, rw_pcs = replicate 5 RwIdle\<rparr>" by (simp add: rw_start_def)
  have "rw_step\<^sup>*\<^sup>* \<lparr>rw_state = 0, rw_pcs = replicate 5 RwIdle\<rparr> \<lparr>rw_state = 1, rw_pcs = (replicate 5 RwIdle)[1 := RwReading]\<rparr>"
    apply (rule run_step, rule rw_load [where i = 1], simp, simp, simp, simp)
    apply (rule run_step, rule rw_enter [where i = 1 and c = 0], simp, simp, simp, simp)
    apply (rule rtranclp_refl_eq, simp)
    done
  then show "rw_step\<^sup>*\<^sup>* \<lparr>rw_state = 0, rw_pcs = replicate 5 RwIdle\<rparr> \<lparr>rw_state = 1, rw_pcs = (replicate 5 RwIdle)[1 := RwReading]\<rparr> \<and>
      rw_pcs \<lparr>rw_state = 1, rw_pcs = (replicate 5 RwIdle)[1 := RwReading]\<rparr> ! 0 = RwIdle \<and>
      rw_pcs \<lparr>rw_state = 1, rw_pcs = (replicate 5 RwIdle)[1 := RwReading]\<rparr> ! 1 = RwReading \<and>
      write_guard_enter (rw_state \<lparr>rw_state = 1, rw_pcs = (replicate 5 RwIdle)[1 := RwReading]\<rparr>) =
        (False, rw_state \<lparr>rw_state = 1, rw_pcs = (replicate 5 RwIdle)[1 := RwReading]\<rparr>)"
    by (simp add: write_guard_enter_def rw_try_lock_write_def)
qed

end
